(* ===== verification/Prelude.thy ===== *)
theory Prelude
  imports Main "HOL-Library.Word" "HOL-Library.Sublist" "HOL-Library.Multiset"
begin

text \<open>
  The library shared by every component: the byte-string vocabulary of the C++ standard library
  that the sources use (\<open>std::isalnum\<close>, \<open>std::tolower\<close>, \<open>std::isspace\<close>,
  \<open>std::string::find\<close>, \<open>std::to_string\<close>, \<open>unordered_map::emplace\<close>), with the
  generic lemmas the component theories rest on. A \<open>std::string\<close> is a list of 8-bit
  characters, a \<open>std::size_t\<close> that is bounded by the memory of the process is a
  \<open>nat\<close>, a \<open>std::uint64_t\<close> counter is a 64-bit word, a steady-clock time point is an
  \<open>int\<close> number of nanoseconds.
\<close>

named_theorems char_simps \<open>character classification, decided on numeric codes\<close>
named_theorems step_simps \<open>definitions of the single operations of a component\<close>
named_theorems inv_intros \<open>preservation of a component's invariant, one rule per operation\<close>

type_synonym u64 = "64 word"
type_synonym u32 = "32 word"
type_synonym time_point = int
type_synonym dict = "(string \<times> string) list"

section \<open>Characters: the "C" locale\<close>

abbreviation code :: "char \<Rightarrow> nat" where
  "code \<equiv> of_char"

definition is_digit_char :: "char \<Rightarrow> bool" where
  "is_digit_char c \<longleftrightarrow> 48 \<le> code c \<and> code c \<le> 57"

definition is_upper_char :: "char \<Rightarrow> bool" where
  "is_upper_char c \<longleftrightarrow> 65 \<le> code c \<and> code c \<le> 90"

definition is_lower_char :: "char \<Rightarrow> bool" where
  "is_lower_char c \<longleftrightarrow> 97 \<le> code c \<and> code c \<le> 122"

definition isalnum :: "char \<Rightarrow> bool" where
  "isalnum c \<longleftrightarrow> is_digit_char c \<or> is_upper_char c \<or> is_lower_char c"

definition isspace :: "char \<Rightarrow> bool" where
  "isspace c \<longleftrightarrow> code c = 32 \<or> (9 \<le> code c \<and> code c \<le> 13)"

definition tolower :: "char \<Rightarrow> char" where
  "tolower c = (if is_upper_char c then char_of (code c + 32) else c)"

lemma code_char_of [simp]: "n < 256 \<Longrightarrow> code (char_of n) = n"
  by (simp add: of_char_of)

lemma code_less_256: "code c < 256"
  by (rule nat_of_char_less_256)

lemma code_eq_iff: "code c = code d \<longleftrightarrow> c = d"
  by simp

lemma char_eq_char_of_iff: "n < 256 \<Longrightarrow> c = char_of n \<longleftrightarrow> code c = n"
  by (metis char_of_char code_char_of)

lemmas ctype_defs [char_simps] =
  is_digit_char_def is_upper_char_def is_lower_char_def isalnum_def isspace_def tolower_def

lemma tolower_idem [simp]: "tolower (tolower c) = tolower c"
  by (auto simp: char_simps)

lemma isalnum_tolower [simp]: "isalnum (tolower c) = isalnum c"
  by (auto simp: char_simps)

lemma tolower_fixed: "\<not> is_upper_char c \<Longrightarrow> tolower c = c"
  by (simp add: tolower_def)

lemma tolower_not_upper [simp]: "\<not> is_upper_char (tolower c)"
  by (auto simp: char_simps)

section \<open>Lists\<close>

lemma takeWhile_append_stop:
  "(\<And>x. x \<in> set a \<Longrightarrow> P x) \<Longrightarrow> \<not> P y \<Longrightarrow> takeWhile P (a @ y # b) = a"
  by (induction a) auto

lemma dropWhile_append_stop:
  "(\<And>x. x \<in> set a \<Longrightarrow> P x) \<Longrightarrow> \<not> P y \<Longrightarrow> dropWhile P (a @ y # b) = y # b"
  by (induction a) auto

lemma length_dropWhile_less [termination_simp]:
  "dropWhile P xs = y # ys \<Longrightarrow> length ys < length xs"
  by (metis length_Cons length_dropWhile_le Suc_le_eq)

lemma tl_dropWhile_less [termination_simp]:
  "xs \<noteq> [] \<Longrightarrow> length (tl (dropWhile P xs)) < length xs"
  using length_dropWhile_le [of P xs] by (cases xs) (auto simp: less_Suc_eq_le split: if_splits intro: le_trans)

lemma find_unique:
  "distinct (map f xs) \<Longrightarrow> x \<in> set xs \<Longrightarrow> f x = k \<Longrightarrow> find (\<lambda>y. f y = k) xs = Some x"
  by (induction xs) (auto simp: rev_image_eqI)

lemma find_perm:
  assumes "distinct (map f xs)" and "mset xs = mset ys"
  shows "find (\<lambda>y. f y = k) xs = find (\<lambda>y. f y = k) ys"
proof (cases "find (\<lambda>y. f y = k) xs")
  case None
  then have "find (\<lambda>y. f y = k) ys = None" using mset_eq_setD [OF assms(2)] by (simp add: find_None_iff)
  with None show ?thesis by simp
next
  case (Some x)
  then have x: "x \<in> set xs" "f x = k" by (auto simp: find_Some_iff)
  then have "x \<in> set ys" using mset_eq_setD [OF assms(2)] by simp
  moreover have "mset (map f xs) = mset (map f ys)" using assms(2) by simp
  then have "distinct (map f ys)" using assms(1) by (metis mset_eq_imp_distinct_iff)
  ultimately have "find (\<lambda>y. f y = k) ys = Some x" using x(2) by (intro find_unique)
  with Some show ?thesis by simp
qed

section \<open>Searching in strings\<close>

text \<open>\<open>find_sub p s\<close> is \<open>s.find(p)\<close>, with \<open>None\<close> for \<open>npos\<close>.\<close>

fun find_sub :: "string \<Rightarrow> string \<Rightarrow> nat option" where
  "find_sub p [] = (if p = [] then Some 0 else None)"
| "find_sub p (c # cs) = (if prefix p (c # cs) then Some 0 else map_option Suc (find_sub p cs))"

definition find_from :: "string \<Rightarrow> string \<Rightarrow> nat \<Rightarrow> nat option" where
  "find_from p s i = (if i \<le> length s then map_option ((+) i) (find_sub p (drop i s)) else None)"

definition substr :: "string \<Rightarrow> nat \<Rightarrow> nat \<Rightarrow> string" where
  "substr s pos n = take n (drop pos s)"

fun find_last_of :: "char \<Rightarrow> string \<Rightarrow> nat option" where
  "find_last_of c [] = None"
| "find_last_of c (d # ds) =
     (case find_last_of c ds of Some i \<Rightarrow> Some (Suc i) | None \<Rightarrow> if d = c then Some 0 else None)"

text \<open>\<open>find_char c s\<close> is \<open>s.find(c)\<close> for one character.\<close>

definition find_char :: "char \<Rightarrow> string \<Rightarrow> nat option" where
  "find_char c s = (if c \<in> set s then Some (length (takeWhile (\<lambda>d. d \<noteq> c) s)) else None)"

lemma takeWhile_neq: "c \<notin> set a \<Longrightarrow> takeWhile (\<lambda>d. d \<noteq> c) (a @ c # b) = a"
  by (rule takeWhile_append_stop) auto

lemma dropWhile_neq: "c \<notin> set a \<Longrightarrow> dropWhile (\<lambda>d. d \<noteq> c) (a @ c # b) = c # b"
  by (rule dropWhile_append_stop) auto

lemma takeWhile_absent: "c \<notin> set a \<Longrightarrow> takeWhile (\<lambda>d. d \<noteq> c) a = a"
  by (induction a) auto

lemma dropWhile_absent: "c \<notin> set a \<Longrightarrow> dropWhile (\<lambda>d. d \<noteq> c) a = []"
  by (induction a) auto

lemma find_char_append [simp]: "c \<notin> set a \<Longrightarrow> find_char c (a @ c # b) = Some (length a)"
  by (simp add: find_char_def takeWhile_neq)

lemma find_char_None [simp]: "c \<notin> set a \<Longrightarrow> find_char c a = None"
  by (simp add: find_char_def)

lemma find_char_Some_split:
  "find_char c s = Some i \<Longrightarrow> s = take i s @ c # drop (Suc i) s \<and> c \<notin> set (take i s) \<and> i < length s"
proof (induction s arbitrary: i)
  case Nil
  then show ?case by (simp add: find_char_def)
next
  case (Cons d s)
  then show ?case by (cases "d = c") (auto simp: find_char_def split: if_splits)
qed

lemma find_sub_Some_split:
  "find_sub p s = Some i \<Longrightarrow> \<exists>r. s = take i s @ p @ r \<and> i + length p \<le> length s"
proof (induction s arbitrary: i)
  case Nil
  then show ?case by (auto split: if_splits)
next
  case (Cons c cs)
  then show ?case
    by (auto simp: prefix_def split: if_splits) (metis add.commute append_eq_conv_conj length_append le_add1 length_Cons)
qed

lemma find_sub_bound: "find_sub p s = Some i \<Longrightarrow> i + length p \<le> length s"
  using find_sub_Some_split by blast

lemma find_sub_None_iff: "find_sub p s = None \<longleftrightarrow> \<not> sublist p s"
proof (induction s)
  case Nil
  then show ?case by auto
next
  case (Cons c cs)
  then show ?case by (auto simp: sublist_Cons_right)
qed

text \<open>The first occurrence: a separator that starts with a character absent from the text before it.\<close>

lemma find_sub_append:
  "p \<noteq> [] \<Longrightarrow> hd p \<notin> set a \<Longrightarrow> find_sub p (a @ p @ b) = Some (length a)"
proof (induction a)
  case Nil
  then show ?case by (cases p) auto
next
  case (Cons c cs)
  then have "\<not> prefix p (c # cs @ p @ b)" by (cases p) auto
  with Cons show ?case by simp
qed

lemma find_sub_absent: "p \<noteq> [] \<Longrightarrow> hd p \<notin> set a \<Longrightarrow> find_sub p a = None"
proof (induction a)
  case Nil
  then show ?case by simp
next
  case (Cons c cs)
  then have "\<not> prefix p (c # cs)" by (cases p) auto
  with Cons show ?case by simp
qed

lemma find_sub_least:
  "find_sub p s = Some i \<Longrightarrow> j < i \<Longrightarrow> \<not> prefix p (drop j s)"
proof (induction s arbitrary: i j)
  case Nil
  then show ?case by (auto split: if_splits)
next
  case (Cons c cs)
  then show ?case by (cases j) (auto split: if_splits)
qed

lemma find_from_0 [simp]: "find_from p s 0 = find_sub p s"
  by (cases "find_sub p s") (simp_all add: find_from_def)

section \<open>Association lists as \<open>std::unordered_map\<close>\<close>

text \<open>
  \<open>emplace\<close> keeps the entry that is already there. The list order stands for an iteration
  order of the map; lookups by key do not depend on it.
\<close>

definition emplace :: "'k \<Rightarrow> 'v \<Rightarrow> ('k \<times> 'v) list \<Rightarrow> ('k \<times> 'v) list" where
  "emplace k v m = (if k \<in> fst ` set m then m else m @ [(k, v)])"

lemma map_of_emplace:
  "map_of (emplace k v m) = (case map_of m k of None \<Rightarrow> (map_of m)(k \<mapsto> v) | Some _ \<Rightarrow> map_of m)"
proof (cases "k \<in> fst ` set m")
  case True
  then obtain v' where "map_of m k = Some v'" by (metis map_of_eq_None_iff not_None_eq)
  with True show ?thesis by (simp add: emplace_def)
next
  case False
  then have "map_of m k = None" by (simp add: map_of_eq_None_iff)
  with False show ?thesis by (auto simp: emplace_def map_add_def fun_eq_iff split: option.splits)
qed

lemma distinct_emplace [simp]: "distinct (map fst (emplace k v m)) = distinct (map fst m)"
  by (auto simp: emplace_def)

lemma emplace_fresh: "k \<notin> fst ` set m \<Longrightarrow> emplace k v m = m @ [(k, v)]"
  by (simp add: emplace_def)

section \<open>Decimal numbers\<close>

definition digit_char :: "nat \<Rightarrow> char" where
  "digit_char d = char_of (48 + d)"

fun to_string :: "nat \<Rightarrow> string" where
  "to_string n = (if n < 10 then [digit_char n] else to_string (n div 10) @ [digit_char (n mod 10)])"

declare to_string.simps [simp del]

definition digit_value :: "char \<Rightarrow> nat" where
  "digit_value c = code c - 48"

definition decimal :: "string \<Rightarrow> nat" where
  "decimal s = foldl (\<lambda>n c. 10 * n + digit_value c) 0 s"

lemma digit_value_digit_char [simp]: "d < 10 \<Longrightarrow> digit_value (digit_char d) = d"
  by (simp add: digit_value_def digit_char_def)

lemma is_digit_digit_char [simp]: "d < 10 \<Longrightarrow> is_digit_char (digit_char d)"
  by (simp add: is_digit_char_def digit_char_def)

lemma to_string_digits: "c \<in> set (to_string n) \<Longrightarrow> is_digit_char c"
proof (induction n rule: to_string.induct)
  case (1 n)
  then show ?case by (cases "n < 10") (auto simp: to_string.simps [of n])
qed

lemma to_string_nonempty [simp]: "to_string n \<noteq> []"
  by (simp add: to_string.simps [of n])

lemma decimal_to_string [simp]: "decimal (to_string n) = n"
proof (induction n rule: to_string.induct)
  case (1 n)
  show ?case
  proof (cases "n < 10")
    case True
    then show ?thesis by (simp add: decimal_def to_string.simps [of n])
  next
    case False
    with 1 have "decimal (to_string (n div 10)) = n div 10" by simp
    with False show ?thesis by (simp add: decimal_def to_string.simps [of n])
  qed
qed

lemma to_string_inject [simp]: "to_string m = to_string n \<longleftrightarrow> m = n"
  by (metis decimal_to_string)

end
