(* ===== verification/Tokenizer.thy ===== *)
theory Tokenizer
  imports Prelude
begin

text \<open>
  \<open>src/search/Tokenizer.cpp\<close>: splitting text into lower-case tokens and removing stop words.
  \<open>tokenize\<close> is characterised by four facts: every token is a non-empty string of lower-case
  token characters, no token character is lost, a separator splits the work, and a run of token
  characters is one token.
\<close>

section \<open>Model\<close>

definition isTokenCharacter :: "char \<Rightarrow> bool" where
  "isTokenCharacter c \<longleftrightarrow> isalnum c \<or> c = CHR ''+'' \<or> c = CHR ''_''"

definition stopWords :: "string list" where
  "stopWords =
    [''a'', ''an'', ''and'', ''are'', ''as'', ''at'', ''be'', ''by'', ''for'', ''from'',
     ''in'', ''is'', ''of'', ''on'', ''or'', ''the'', ''to'', ''uses'', ''with'']"

text \<open>The loop of \<open>tokenize\<close>: the rest of the text, the tokens so far, the current token.\<close>

fun tokenize_loop :: "string \<Rightarrow> string list \<Rightarrow> string \<Rightarrow> string list" where
  "tokenize_loop [] tokens current = (if current \<noteq> [] then tokens @ [current] else tokens)"
| "tokenize_loop (c # cs) tokens current =
     (if isTokenCharacter c then tokenize_loop cs tokens (current @ [tolower c])
      else if current \<noteq> [] then tokenize_loop cs (tokens @ [current]) []
      else tokenize_loop cs tokens [])"

definition tokenize :: "string \<Rightarrow> string list" where
  "tokenize text = tokenize_loop text [] []"

definition analyzeTerms :: "string \<Rightarrow> string list" where
  "analyzeTerms text = filter (\<lambda>token. token \<notin> set stopWords) (tokenize text)"

section \<open>Lemmas\<close>

definition token_wf :: "string \<Rightarrow> bool" where
  "token_wf t \<longleftrightarrow> t \<noteq> [] \<and> (\<forall>c \<in> set t. isTokenCharacter c \<and> tolower c = c)"

lemma isTokenCharacter_tolower [simp]: "isTokenCharacter (tolower c) = isTokenCharacter c"
proof (cases "is_upper_char c")
  case True
  then have "isalnum c" by (simp add: isalnum_def)
  then show ?thesis by (simp add: isTokenCharacter_def)
next
  case False
  then show ?thesis by (simp add: tolower_fixed)
qed

lemma tokenize_loop_acc:
  "tokenize_loop cs (ts @ us) cur = ts @ tokenize_loop cs us cur"
  by (induction cs arbitrary: us cur) (simp_all del: append_assoc add: append_assoc [symmetric], simp)

lemma tokenize_loop_tokens: "tokenize_loop cs ts cur = ts @ tokenize_loop cs [] cur"
  using tokenize_loop_acc [of cs ts "[]"] by simp

lemma token_wf_snoc: "isTokenCharacter c \<Longrightarrow> cur = [] \<or> token_wf cur \<Longrightarrow> token_wf (cur @ [tolower c])"
  unfolding token_wf_def by (elim disjE) simp_all

lemma tokenize_loop_wf:
  "(\<forall>t \<in> set ts. token_wf t) \<Longrightarrow> cur = [] \<or> token_wf cur \<Longrightarrow>
    \<forall>t \<in> set (tokenize_loop cs ts cur). token_wf t"
proof (induction cs ts cur rule: tokenize_loop.induct)
  case (1 ts cur)
  then show ?case by (cases "cur = []") simp_all
next
  case (2 c cs ts cur)
  consider "isTokenCharacter c" | "\<not> isTokenCharacter c" "cur \<noteq> []" | "\<not> isTokenCharacter c" "cur = []"
    by blast
  then show ?case
  proof cases
    case 1
    then show ?thesis using "2.IH"(1) [OF 1 "2.prems"(1)] token_wf_snoc [OF 1 "2.prems"(2)] by simp
  next
    case 2
    then show ?thesis using "2.IH"(2) [OF 2] "2.prems" by simp
  next
    case 3
    then show ?thesis using "2.IH"(3) "2.prems" by simp
  qed
qed

lemma tokenize_loop_concat:
  "concat (tokenize_loop cs ts cur) =
    concat ts @ cur @ map tolower (filter isTokenCharacter cs)"
  by (induction cs ts cur rule: tokenize_loop.induct) auto

lemma tokenize_loop_word:
  "\<forall>c \<in> set w. isTokenCharacter c \<Longrightarrow>
    tokenize_loop (w @ cs) ts cur = tokenize_loop cs ts (cur @ map tolower w)"
  by (induction w arbitrary: cur) auto

lemma tokenize_loop_split:
  "\<not> isTokenCharacter c \<Longrightarrow>
    tokenize_loop (a @ c # b) ts cur = tokenize_loop a ts cur @ tokenize_loop b [] []"
proof (induction a ts cur rule: tokenize_loop.induct)
  case (1 ts cur)
  then show ?case using tokenize_loop_tokens [of b ts "[]"] tokenize_loop_tokens [of b "ts @ [cur]" "[]"]
    by auto
next
  case (2 d cs ts cur)
  then show ?case by simp
qed

lemma tokenize_Nil [simp]: "tokenize [] = []"
  by (simp add: tokenize_def)

lemma tokenize_wf: "t \<in> set (tokenize s) \<Longrightarrow> token_wf t"
  using tokenize_loop_wf [of "[]" "[]" s] by (simp add: tokenize_def)

lemma tokenize_concat: "concat (tokenize s) = map tolower (filter isTokenCharacter s)"
  by (simp add: tokenize_def tokenize_loop_concat)

lemma tokenize_separator:
  "\<not> isTokenCharacter c \<Longrightarrow> tokenize (a @ c # b) = tokenize a @ tokenize b"
  by (simp add: tokenize_def tokenize_loop_split)

lemma tokenize_word:
  assumes "w \<noteq> []" and "\<forall>c \<in> set w. isTokenCharacter c"
  shows "tokenize w = [map tolower w]"
  using assms tokenize_loop_word [of w "[]" "[]" "[]"] by (simp add: tokenize_def)

lemma tokenize_token: "token_wf t \<Longrightarrow> tokenize t = [t]"
proof -
  assume t: "token_wf t"
  then have "map tolower t = t" by (auto simp: token_wf_def map_idI)
  with t show ?thesis by (auto simp: token_wf_def tokenize_word)
qed

lemma tokenize_loop_tolower: "tokenize_loop (map tolower cs) ts cur = tokenize_loop cs ts cur"
  by (induction cs ts cur rule: tokenize_loop.induct) auto

lemma tokenize_tolower [simp]: "tokenize (map tolower s) = tokenize s"
  by (simp add: tokenize_def tokenize_loop_tolower)

lemma analyzeTerms_tolower: "analyzeTerms (map tolower s) = analyzeTerms s"
  by (simp add: analyzeTerms_def)

lemma not_token_space [simp]: "\<not> isTokenCharacter (CHR '' '')"
  by (simp add: isTokenCharacter_def char_simps)

text \<open>Joining tokens with a separator, to state the round trip.\<close>

fun join_with :: "string \<Rightarrow> string list \<Rightarrow> string" where
  "join_with sep [] = []"
| "join_with sep [t] = t"
| "join_with sep (t # u # ts) = t @ sep @ join_with sep (u # ts)"

lemma tokenize_join: "\<forall>t \<in> set ts. token_wf t \<Longrightarrow> tokenize (join_with '' '' ts) = ts"
proof (induction "'' ''" ts rule: join_with.induct)
  case 1
  then show ?case by simp
next
  case (2 t)
  then show ?case by (simp add: tokenize_token)
next
  case (3 t u ts)
  then have "tokenize (join_with '' '' (u # ts)) = u # ts" by simp
  moreover have "tokenize (t @ CHR '' '' # join_with '' '' (u # ts))
      = tokenize t @ tokenize (join_with '' '' (u # ts))"
    by (rule tokenize_separator) simp
  ultimately show ?case using 3 by (simp add: tokenize_token)
qed

section \<open>Reference: maximal runs of token characters\<close>

function runs :: "('a \<Rightarrow> bool) \<Rightarrow> 'a list \<Rightarrow> 'a list list" where
  "runs P s = (case dropWhile (\<lambda>c. \<not> P c) s of [] \<Rightarrow> []
     | c # cs \<Rightarrow> (c # takeWhile P cs) # runs P (dropWhile P cs))"
  by pat_completeness auto
termination
  by (relation "measure (\<lambda>(P, s). length s)")
     (auto dest!: length_dropWhile_less intro: le_less_trans [OF length_dropWhile_le])

declare runs.simps [simp del]

lemma tokenize_skip: "tokenize s = tokenize (dropWhile (\<lambda>c. \<not> isTokenCharacter c) s)"
proof (induction s)
  case Nil
  then show ?case by simp
next
  case (Cons c cs)
  then show ?case using tokenize_separator [of c "[]" cs] by (cases "isTokenCharacter c") simp_all
qed

lemma tokenize_run:
  assumes "w \<noteq> []" and "\<forall>c \<in> set w. isTokenCharacter c" and "r = [] \<or> \<not> isTokenCharacter (hd r)"
  shows "tokenize (w @ r) = map tolower w # tokenize r"
proof (cases r)
  case Nil
  with assms show ?thesis by (simp add: tokenize_word)
next
  case (Cons c cs)
  with assms have c: "\<not> isTokenCharacter c" by simp
  have "tokenize (w @ c # cs) = tokenize w @ tokenize cs" using c by (rule tokenize_separator)
  moreover have "tokenize (c # cs) = tokenize cs" using tokenize_separator [OF c, of "[]" cs] by simp
  ultimately show ?thesis using assms(1,2) Cons by (simp add: tokenize_word)
qed

lemma tokenize_eq_runs: "tokenize s = map (map tolower) (runs isTokenCharacter s)"
proof (induction "isTokenCharacter" s rule: runs.induct)
  case (1 s)
  let ?P = "isTokenCharacter"
  show ?case
  proof (cases "dropWhile (\<lambda>c. \<not> ?P c) s")
    case Nil
    have "tokenize s = []" by (simp only: tokenize_skip [of s] Nil tokenize_Nil)
    then show ?thesis by (simp only: runs.simps [of _ s] Nil list.case list.map)
  next
    case (Cons c cs)
    then have c: "?P c" by (metis hd_dropWhile list.distinct(1) list.sel(1))
    let ?w = "c # takeWhile ?P cs" and ?r = "dropWhile ?P cs"
    have "tokenize s = tokenize (?w @ ?r)" using tokenize_skip [of s] Cons by simp
    also have "\<dots> = map tolower ?w # tokenize ?r"
      using c hd_dropWhile [of ?P cs] by (intro tokenize_run) (auto dest: set_takeWhileD)
    also have "tokenize ?r = map (map tolower) (runs ?P ?r)" by (rule 1 [OF Cons])
    finally show ?thesis using Cons by (simp add: runs.simps [of _ s])
  qed
qed

section \<open>Properties\<close>

text \<open>C38: the tokens of a text are its maximal runs of letters, digits, \<open>+\<close> and
  \<open>_\<close>, in order and in lower case.\<close>
theorem tokenize_is_runs: "tokenize s = map (map tolower) (runs isTokenCharacter s)"
  by (rule tokenize_eq_runs)

text \<open>analysing is stable and blind to case: analysing the terms again, joined by spaces,
  gives the same terms, no term is a stop word, and upper and lower case text give the same terms
  (so a query and a document are normalised alike).\<close>
theorem analyzeTerms_stable:
  "analyzeTerms (join_with '' '' (analyzeTerms s)) = analyzeTerms s \<and>
   set (analyzeTerms s) \<inter> set stopWords = {} \<and>
   analyzeTerms (map tolower s) = analyzeTerms s"
proof (intro conjI)
  have "\<forall>t \<in> set (analyzeTerms s). token_wf t" by (auto simp: analyzeTerms_def dest: tokenize_wf)
  then have "tokenize (join_with '' '' (analyzeTerms s)) = analyzeTerms s" by (rule tokenize_join)
  then show "analyzeTerms (join_with '' '' (analyzeTerms s)) = analyzeTerms s"
    by (simp add: analyzeTerms_def)
  show "set (analyzeTerms s) \<inter> set stopWords = {}" by (auto simp: analyzeTerms_def)
  show "analyzeTerms (map tolower s) = analyzeTerms s" by (rule analyzeTerms_tolower)
qed

end
