(* ===== verification/HttpRequest.thy ===== *)
theory HttpRequest
  imports Tokenizer
begin

unbundle bit_operations_syntax

text \<open>
  \<open>src/http/HttpRequest.cpp\<close>: percent decoding, query strings, header fields, the request
  line. A cursor into a \<open>string_view\<close> is modelled by the suffix that starts at it. The maps
  of a request are association lists in an iteration order; \<open>emplace\<close> keeps the first value
  of a key. The lemmas give the round trip with a printer of requests, the exact failure condition
  of decoding, and the condition under which header lookup does not depend on the iteration order.
\<close>

section \<open>Model\<close>

record http_request =
  request_method :: string
  request_path :: string
  query_params :: dict
  headers :: dict

definition hexValue :: "char \<Rightarrow> int" where
  "hexValue c =
    (if 48 \<le> code c \<and> code c \<le> 57 then int (code c) - 48
     else if 97 \<le> code c \<and> code c \<le> 102 then int (code c) - 97 + 10
     else if 65 \<le> code c \<and> code c \<le> 70 then int (code c) - 65 + 10
     else -1)"

fun urlDecode :: "string \<Rightarrow> string option" where
  "urlDecode [] = Some []"
| "urlDecode (c # cs) =
    (if c = CHR ''+'' then map_option (Cons (CHR '' '')) (urlDecode cs)
     else if c \<noteq> CHR ''%'' then map_option (Cons c) (urlDecode cs)
     else (case cs of
         h # l # rest \<Rightarrow>
           if hexValue h < 0 \<or> hexValue l < 0 then None
           else map_option (Cons (char_of (nat (push_bit 4 (hexValue h) OR hexValue l)))) (urlDecode rest)
       | _ \<Rightarrow> None))"

text \<open>One item of the query string, and the loop over the items.\<close>

definition query_item :: "string \<Rightarrow> dict \<Rightarrow> dict option" where
  "query_item item params =
    (case find_char (CHR ''='') item of
       None \<Rightarrow> Some params
     | Some equal_pos \<Rightarrow>
         if equal_pos = 0 then Some params
         else (case (urlDecode (take equal_pos item), urlDecode (drop (equal_pos + 1) item)) of
             (Some key, Some val) \<Rightarrow> Some (emplace key val params)
           | _ \<Rightarrow> None))"

fun parseQueryString :: "string \<Rightarrow> dict \<Rightarrow> dict option" where
  "parseQueryString query params =
    (if query = [] then Some params
     else (case query_item (takeWhile (\<lambda>c. c \<noteq> CHR ''&'') query) params of
         None \<Rightarrow> None
       | Some params' \<Rightarrow>
           (case dropWhile (\<lambda>c. c \<noteq> CHR ''&'') query of
              [] \<Rightarrow> Some params'
            | amp # rest \<Rightarrow> parseQueryString rest params')))"

declare parseQueryString.simps [simp del]

fun equalsIgnoreCase :: "string \<Rightarrow> string \<Rightarrow> bool" where
  "equalsIgnoreCase [] [] = True"
| "equalsIgnoreCase (l # ls) (r # rs) = (tolower l = tolower r \<and> equalsIgnoreCase ls rs)"
| "equalsIgnoreCase _ _ = False"

definition crlf :: string where
  "crlf = [CHR 0x0D, CHR 0x0A]"

definition is_blank :: "char \<Rightarrow> bool" where
  "is_blank c \<longleftrightarrow> c = CHR '' '' \<or> c = CHR 0x09"

text \<open>The header loop of \<open>parseRequest\<close>, from the cursor on.\<close>

function parse_headers :: "string \<Rightarrow> dict \<Rightarrow> dict option" where
  "parse_headers raw hs =
    (if raw = [] then Some hs
     else (case find_sub crlf raw of
         None \<Rightarrow> None
       | Some header_end \<Rightarrow>
           let header_line = take header_end raw
           in if header_line = [] then Some hs
              else (case find_char (CHR '':'') header_line of
                  None \<Rightarrow> None
                | Some colon \<Rightarrow>
                    if colon = 0 then None
                    else parse_headers (drop (header_end + 2) raw)
                      (emplace (take colon header_line)
                        (dropWhile is_blank (drop (colon + 1) header_line)) hs))))"
  by pat_completeness auto
termination
  by (relation "measure (\<lambda>(raw, hs). length raw)") auto

declare parse_headers.simps [simp del]

definition parse_target :: "string \<Rightarrow> (string \<times> dict) option" where
  "parse_target target =
    (case find_char (CHR ''?'') target of
       None \<Rightarrow> Some (target, [])
     | Some query_start \<Rightarrow>
         map_option (\<lambda>params. (take query_start target, params))
           (parseQueryString (drop (query_start + 1) target) []))"

definition parseRequest :: "string \<Rightarrow> http_request option" where
  "parseRequest raw_request =
    (case find_sub crlf raw_request of
       None \<Rightarrow> None
     | Some line_end \<Rightarrow>
        let request_line = take line_end raw_request
        in case find_char (CHR '' '') request_line of
             None \<Rightarrow> None
           | Some first_space \<Rightarrow>
              let after = drop (first_space + 1) request_line
              in case find_char (CHR '' '') after of
                   None \<Rightarrow> None
                 | Some target_len \<Rightarrow>
                     (case parse_target (take target_len after) of
                        None \<Rightarrow> None
                      | Some (path, params) \<Rightarrow>
                          map_option (\<lambda>hs. \<lparr>request_method = take first_space request_line,
                              request_path = path, query_params = params, headers = hs\<rparr>)
                            (parse_headers (drop (line_end + 2) raw_request) [])))"

definition findQueryParam :: "http_request \<Rightarrow> string \<Rightarrow> string option" where
  "findQueryParam request key = map_of (query_params request) key"

definition findHeader :: "http_request \<Rightarrow> string \<Rightarrow> string option" where
  "findHeader request name =
    map_option snd (find (\<lambda>kv. equalsIgnoreCase (fst kv) name) (headers request))"

definition shouldCloseConnection :: "http_request \<Rightarrow> bool" where
  "shouldCloseConnection request =
    (case findHeader request ''Connection'' of
       None \<Rightarrow> False
     | Some connection \<Rightarrow> equalsIgnoreCase connection ''close'')"

section \<open>Percent encoding\<close>

definition hex_digit :: "nat \<Rightarrow> char" where
  "hex_digit d = char_of (if d < 10 then 48 + d else 55 + d)"

definition url_encode_char :: "char \<Rightarrow> string" where
  "url_encode_char c =
    (if isalnum c then [c] else [CHR ''%'', hex_digit (code c div 16), hex_digit (code c mod 16)])"

definition url_encode :: "string \<Rightarrow> string" where
  "url_encode s = concat (map url_encode_char s)"

lemma hexValue_hex_digit [simp]: "d < 16 \<Longrightarrow> hexValue (hex_digit d) = int d"
  by (auto simp: hexValue_def hex_digit_def)

lemma nibbles: "a < 16 \<Longrightarrow> b < 16 \<Longrightarrow> push_bit 4 (int a) OR int b = int (16 * a + b)"
proof -
  assume ab: "a < 16" "b < 16"
  have b: "take_bit 4 (int b) = int b" using ab(2) by (simp add: take_bit_int_eq_self)
  have "push_bit 4 (int a) OR int b = concat_bit 4 (int b) (int a)"
    by (simp add: concat_bit_def b or.commute)
  also have "\<dots> = int b + push_bit 4 (int a)" by (simp add: concat_bit_eq b)
  finally show ?thesis by (simp add: push_bit_eq_mult)
qed

lemma code_nibbles_less: "code c div 16 < 16" "code c mod 16 < 16"
  using less_mult_imp_div_less [of "code c" 16 16] by simp_all

lemma code_nibbles: "char_of (16 * (code c div 16) + code c mod 16) = c"
  by simp

lemma not_isalnum_plus: "isalnum c \<Longrightarrow> c \<noteq> CHR ''+'' \<and> c \<noteq> CHR ''%''"
  by (auto simp: char_simps)

lemma urlDecode_encode_char:
  "urlDecode (url_encode_char c @ s) = map_option (Cons c) (urlDecode s)"
proof (cases "isalnum c")
  case True
  then show ?thesis using not_isalnum_plus [OF True] by (simp add: url_encode_char_def)
next
  case False
  note d = code_nibbles_less [of c]
  have "nat (push_bit 4 (int (code c div 16)) OR int (code c mod 16)) = code c"
    by (simp add: nibbles [OF d])
  then show ?thesis using False d by (simp add: url_encode_char_def)
qed

lemma urlDecode_encode_append:
  "urlDecode (url_encode s @ t) = map_option (append s) (urlDecode t)"
proof (induction s)
  case Nil
  then show ?case by (simp add: url_encode_def option.map_ident)
next
  case (Cons c s)
  have "urlDecode (url_encode (c # s) @ t) = urlDecode (url_encode_char c @ (url_encode s @ t))"
    by (simp add: url_encode_def)
  then show ?case by (simp add: urlDecode_encode_char Cons option.map_comp comp_def)
qed

lemma urlDecode_encode [simp]: "urlDecode (url_encode s) = Some s"
  using urlDecode_encode_append [of s "[]"] by simp

text \<open>Decoding fails exactly on a \<open>%\<close> that two hexadecimal digits do not follow.\<close>

fun escapes_ok :: "string \<Rightarrow> bool" where
  "escapes_ok [] = True"
| "escapes_ok (c # cs) =
    (if c = CHR ''%'' then
       (case cs of h # l # rest \<Rightarrow> 0 \<le> hexValue h \<and> 0 \<le> hexValue l \<and> escapes_ok rest | _ \<Rightarrow> False)
     else escapes_ok cs)"

lemma urlDecode_None_iff: "urlDecode s = None \<longleftrightarrow> \<not> escapes_ok s"
  by (induction s rule: urlDecode.induct) (auto split: list.splits)

lemma urlDecode_length: "urlDecode s = Some d \<Longrightarrow> length d \<le> length s"
proof (induction s arbitrary: d rule: urlDecode.induct)
  case 1
  then show ?case by simp
next
  case (2 c cs)
  then show ?case
    by (auto split: if_splits list.splits) (meson le_Suc_eq le_trans lessI nat_less_le)+
qed

lemma urlDecode_plain:
  "CHR ''+'' \<notin> set s \<Longrightarrow> CHR ''%'' \<notin> set s \<Longrightarrow> urlDecode s = Some s"
  by (induction s) auto

section \<open>Printing a request\<close>

definition render_param :: "string \<times> string \<Rightarrow> string" where
  "render_param kv = url_encode (fst kv) @ ''='' @ url_encode (snd kv)"

definition render_target :: "string \<Rightarrow> dict \<Rightarrow> string" where
  "render_target path params =
    path @ (if params = [] then [] else ''?'' @ join_with ''&'' (map render_param params))"

definition render_header :: "string \<times> string \<Rightarrow> string" where
  "render_header kv = fst kv @ '': '' @ snd kv @ crlf"

definition render_headers :: "dict \<Rightarrow> string" where
  "render_headers hs = concat (map render_header hs) @ crlf"

definition render_request :: "http_request \<Rightarrow> string" where
  "render_request r =
    request_method r @ '' '' @ render_target (request_path r) (query_params r) @ '' HTTP/1.1'' @ crlf
      @ render_headers (headers r)"

abbreviation cr :: char where
  "cr \<equiv> CHR 0x0D"

definition header_wf :: "string \<times> string \<Rightarrow> bool" where
  "header_wf kv \<longleftrightarrow> fst kv \<noteq> [] \<and> CHR '':'' \<notin> set (fst kv) \<and> cr \<notin> set (fst kv)
     \<and> cr \<notin> set (snd kv) \<and> (snd kv = [] \<or> \<not> is_blank (hd (snd kv)))"

definition request_wf :: "http_request \<Rightarrow> bool" where
  "request_wf r \<longleftrightarrow>
     CHR '' '' \<notin> set (request_method r) \<and> cr \<notin> set (request_method r) \<and>
     CHR '' '' \<notin> set (request_path r) \<and> cr \<notin> set (request_path r) \<and>
     CHR ''?'' \<notin> set (request_path r) \<and>
     distinct (map fst (query_params r)) \<and> list_all (\<lambda>kv. fst kv \<noteq> []) (query_params r) \<and>
     distinct (map fst (headers r)) \<and> list_all header_wf (headers r)"

lemma url_encode_chars:
  "x \<in> set (url_encode s) \<Longrightarrow> isalnum x \<or> x = CHR ''%''"
proof -
  assume "x \<in> set (url_encode s)"
  then obtain c where "x \<in> set (url_encode_char c)" by (auto simp: url_encode_def)
  moreover have "isalnum (hex_digit d)" if "d < 16" for d
    using that by (auto simp: hex_digit_def char_simps)
  moreover note code_nibbles_less [of c]
  ultimately show ?thesis by (auto simp: url_encode_char_def split: if_splits)
qed

lemma url_encode_free:
  assumes "\<not> isalnum x" and "x \<noteq> CHR ''%''"
  shows "x \<notin> set (url_encode s)"
  using url_encode_chars assms by blast

lemma url_encode_Nil_iff [simp]: "url_encode s = [] \<longleftrightarrow> s = []"
  by (cases s) (auto simp: url_encode_def url_encode_char_def)

lemma not_isalnum_separators [simp]:
  "\<not> isalnum (CHR ''='')" "\<not> isalnum (CHR ''&'')" "\<not> isalnum (CHR '' '')" "\<not> isalnum cr"
  by (simp_all add: char_simps)

lemma render_param_free:
  "CHR ''&'' \<notin> set (render_param kv)" "CHR '' '' \<notin> set (render_param kv)" "cr \<notin> set (render_param kv)"
  by (simp_all add: render_param_def url_encode_free)

lemma query_item_render:
  assumes "fst kv \<noteq> []"
  shows "query_item (render_param kv) params = Some (emplace (fst kv) (snd kv) params)"
proof -
  have "find_char (CHR ''='') (render_param kv) = Some (length (url_encode (fst kv)))"
    by (simp add: render_param_def url_encode_free)
  with assms show ?thesis by (simp add: query_item_def render_param_def)
qed

lemma parseQueryString_render:
  assumes "list_all (\<lambda>kv. fst kv \<noteq> []) kvs" and "kvs \<noteq> []"
  shows "parseQueryString (join_with ''&'' (map render_param kvs)) params =
    Some (fold (\<lambda>kv. emplace (fst kv) (snd kv)) kvs params)"
  using assms
proof (induction kvs arbitrary: params)
  case Nil
  then show ?case by simp
next
  case (Cons kv kvs)
  have amp: "CHR ''&'' \<notin> set (render_param kv)" by (rule render_param_free)
  have ne: "render_param kv \<noteq> []" by (simp add: render_param_def)
  from Cons.prems have item: "query_item (render_param kv) params = Some (emplace (fst kv) (snd kv) params)"
    by (simp add: query_item_render)
  show ?case
  proof (cases kvs)
    case Nil
    with ne item show ?thesis
      by (simp add: parseQueryString.simps [of "render_param kv"] takeWhile_absent [OF amp]
          dropWhile_absent [OF amp])
  next
    case (Cons kv2 kvs2)
    let ?rest = "join_with ''&'' (map render_param kvs)"
    have q: "join_with ''&'' (map render_param (kv # kvs)) = render_param kv @ CHR ''&'' # ?rest"
      using Cons by simp
    have "takeWhile (\<lambda>c. c \<noteq> CHR ''&'') (render_param kv @ CHR ''&'' # ?rest) = render_param kv"
      "dropWhile (\<lambda>c. c \<noteq> CHR ''&'') (render_param kv @ CHR ''&'' # ?rest) = CHR ''&'' # ?rest"
      using amp by (rule takeWhile_neq, rule dropWhile_neq)
    moreover have "parseQueryString ?rest (emplace (fst kv) (snd kv) params) =
        Some (fold (\<lambda>kv. emplace (fst kv) (snd kv)) kvs (emplace (fst kv) (snd kv) params))"
      using Cons.prems Cons by (intro Cons.IH) simp_all
    ultimately show ?thesis unfolding q by (simp add: parseQueryString.simps [of "_ @ _"] item)
  qed
qed

lemma fold_emplace_distinct:
  "distinct (map fst (m @ kvs)) \<Longrightarrow> fold (\<lambda>kv. emplace (fst kv) (snd kv)) kvs m = m @ kvs"
proof (induction kvs arbitrary: m)
  case Nil
  then show ?case by simp
next
  case (Cons kv kvs)
  then have "emplace (fst kv) (snd kv) m = m @ [kv]" by (simp add: emplace_fresh)
  with Cons show ?case by simp
qed

lemma join_with_free: "\<forall>t \<in> set ts. x \<notin> set t \<Longrightarrow> x \<notin> set sep \<Longrightarrow> x \<notin> set (join_with sep ts)"
  by (induction sep ts rule: join_with.induct) auto

lemma render_target_free:
  assumes "x \<notin> set path" and "x = CHR '' '' \<or> x = cr"
  shows "x \<notin> set (render_target path params)"
proof -
  have "\<forall>t \<in> set (map render_param params). x \<notin> set t"
    using assms(2) render_param_free(2,3) by auto
  then have "x \<notin> set (join_with ''&'' (map render_param params))"
    by (rule join_with_free) (use assms(2) in auto)
  with assms show ?thesis by (auto simp: render_target_def)
qed

lemma parse_target_render:
  assumes "CHR ''?'' \<notin> set path" and "distinct (map fst params)" and "list_all (\<lambda>kv. fst kv \<noteq> []) params"
  shows "parse_target (render_target path params) = Some (path, params)"
proof (cases "params = []")
  case True
  with assms(1) show ?thesis by (simp add: parse_target_def render_target_def)
next
  case False
  have "fold (\<lambda>kv. emplace (fst kv) (snd kv)) params [] = params"
    using fold_emplace_distinct [of "[]" params] assms(2) by simp
  with False assms show ?thesis
    by (simp add: parse_target_def render_target_def parseQueryString_render)
qed

section \<open>Header fields\<close>

lemma find_crlf: "cr \<notin> set a \<Longrightarrow> find_sub crlf (a @ crlf @ b) = Some (length a)"
  by (rule find_sub_append) (simp_all add: crlf_def)

lemma parse_headers_end: "parse_headers (crlf @ b) hs = Some hs"
proof -
  have "find_sub crlf (crlf @ b) = Some 0" using find_crlf [of "[]" b] by simp
  then show ?thesis by (subst parse_headers.simps) (simp add: crlf_def)
qed

lemma drop_line: "drop (length line + 2) (line @ crlf @ b) = b"
  by (simp add: crlf_def)

lemma parse_headers_step:
  assumes "cr \<notin> set line" and "line \<noteq> []" and "find_char (CHR '':'') line = Some colon" and "colon \<noteq> 0"
  shows "parse_headers (line @ crlf @ b) hs =
    parse_headers b (emplace (take colon line) (dropWhile is_blank (drop (colon + 1) line)) hs)"
  using assms find_crlf [OF assms(1), of b] drop_line [of line b]
  by (subst parse_headers.simps) simp

lemma parse_headers_line:
  assumes "header_wf kv"
  shows "parse_headers (render_header kv @ b) hs = parse_headers b (emplace (fst kv) (snd kv) hs)"
proof -
  let ?line = "fst kv @ '': '' @ snd kv"
  have free: "cr \<notin> set ?line" and key: "fst kv \<noteq> []" "CHR '':'' \<notin> set (fst kv)"
    using assms by (auto simp: header_wf_def)
  have colon: "find_char (CHR '':'') ?line = Some (length (fst kv))" using key by simp
  have blank: "dropWhile is_blank (CHR '' '' # snd kv) = snd kv"
    using assms by (cases "snd kv") (auto simp: header_wf_def is_blank_def)
  have "parse_headers (?line @ crlf @ b) hs = parse_headers b
      (emplace (take (length (fst kv)) ?line) (dropWhile is_blank (drop (length (fst kv) + 1) ?line)) hs)"
    by (rule parse_headers_step) (use free key colon in simp_all)
  then show ?thesis using blank by (simp add: render_header_def)
qed

lemma parse_headers_render:
  "list_all header_wf kvs \<Longrightarrow> distinct (map fst (hs @ kvs)) \<Longrightarrow>
    parse_headers (render_headers kvs @ b) hs = Some (hs @ kvs)"
proof (induction kvs arbitrary: hs)
  case Nil
  then show ?case using parse_headers_end [of b hs] by (simp add: render_headers_def)
next
  case (Cons kv kvs)
  then have "emplace (fst kv) (snd kv) hs = hs @ [kv]" by (simp add: emplace_fresh)
  moreover have "render_headers (kv # kvs) @ b = render_header kv @ (render_headers kvs @ b)"
    by (simp add: render_headers_def)
  ultimately show ?case using Cons by (simp add: parse_headers_line)
qed

lemma parseRequest_parts:
  assumes line: "line = m @ CHR '' '' # t @ CHR '' '' # v"
    and free: "cr \<notin> set line" "CHR '' '' \<notin> set m" "CHR '' '' \<notin> set t"
    and target: "parse_target t = Some (p, ps)"
    and hs: "parse_headers rest [] = Some hs"
  shows "parseRequest (line @ crlf @ rest) =
    Some \<lparr>request_method = m, request_path = p, query_params = ps, headers = hs\<rparr>"
proof -
  have "find_char (CHR '' '') line = Some (length m)" using free(2) line by simp
  moreover have "find_char (CHR '' '') (drop (length m + 1) line) = Some (length t)"
    using free(3) line by simp
  moreover have "take (length m) line = m" "take (length t) (drop (length m + 1) line) = t"
    using line by simp_all
  ultimately show ?thesis
    using find_crlf [OF free(1), of rest] drop_line [of line rest] target hs
    by (simp add: parseRequest_def Let_def)
qed

lemma parseRequest_render:
  assumes "request_wf r"
  shows "parseRequest (render_request r @ b) = Some r"
proof -
  let ?t = "render_target (request_path r) (query_params r)"
  let ?line = "request_method r @ CHR '' '' # ?t @ CHR '' '' # ''HTTP/1.1''"
  have wf: "CHR '' '' \<notin> set (request_method r)" "cr \<notin> set (request_method r)"
      "CHR '' '' \<notin> set ?t" "cr \<notin> set ?t"
    using assms by (simp_all add: request_wf_def render_target_free)
  have target: "parse_target ?t = Some (request_path r, query_params r)"
    using assms by (intro parse_target_render) (simp_all add: request_wf_def)
  have hs: "parse_headers (render_headers (headers r) @ b) [] = Some (headers r)"
    using assms by (simp add: parse_headers_render request_wf_def)
  have "parseRequest (?line @ crlf @ render_headers (headers r) @ b) = Some r"
    using parseRequest_parts [of ?line _ ?t "''HTTP/1.1''", OF refl _ wf(1,3) target hs] wf by simp
  then show ?thesis by (simp add: render_request_def)
qed

section \<open>Looking fields up\<close>

lemma equalsIgnoreCase_iff: "equalsIgnoreCase l r \<longleftrightarrow> map tolower l = map tolower r"
  by (induction l r rule: equalsIgnoreCase.induct) auto

definition header_names_distinct :: "http_request \<Rightarrow> bool" where
  "header_names_distinct r \<longleftrightarrow> distinct (map (map tolower \<circ> fst) (headers r))"

lemma findHeader_tolower:
  "findHeader r name = map_option snd (find (\<lambda>kv. (map tolower \<circ> fst) kv = map tolower name) (headers r))"
  by (simp add: findHeader_def equalsIgnoreCase_iff)

lemma findHeader_order:
  assumes "header_names_distinct r" and "mset (headers r) = mset hs"
  shows "findHeader (r\<lparr>headers := hs\<rparr>) name = findHeader r name"
  using find_perm [OF _ assms(2), of "map tolower \<circ> fst" "map tolower name"] assms(1)
  by (simp add: findHeader_tolower header_names_distinct_def)

text \<open>
  Two fields whose names differ in case only are two keys of the map: which one decides about
  closing depends on the iteration order of the \<open>unordered_map\<close>.
\<close>

definition ambiguous_headers :: dict where
  "ambiguous_headers = [(''Connection'', ''keep-alive''), (''connection'', ''close'')]"

lemma ambiguous_connection:
  "shouldCloseConnection \<lparr>request_method = ''GET'', request_path = ''/'', query_params = [],
      headers = ambiguous_headers\<rparr> \<noteq>
   shouldCloseConnection \<lparr>request_method = ''GET'', request_path = ''/'', query_params = [],
      headers = rev ambiguous_headers\<rparr>"
  by code_simp

text \<open>A request whose header section was cut before the blank line parses all the same.\<close>

lemma parse_without_blank_line:
  "map_option request_path (parseRequest (''GET /search HTTP/1.1'' @ crlf @ ''Host: x'' @ crlf)) = Some ''/search''"
  by code_simp

section \<open>Properties\<close>

definition sample_request :: http_request where
  "sample_request = \<lparr>request_method = ''GET'', request_path = ''/search'',
    query_params = [(''q'', ''event loop''), (''language'', ''C++'')],
    headers = [(''Host'', ''localhost''), (''connection'', ''CLOSE'')]\<rparr>"

text \<open>C20: parsing inverts printing: a request whose method, path and header fields hold no
  separator, with any bytes in its query parameters, is read back field by field from its printed
  form, whatever bytes follow it.\<close>
theorem parse_print_request:
  "request_wf r \<Longrightarrow> parseRequest (render_request r @ rest) = Some r"
  by (rule parseRequest_render)

theorem parse_print_request_witness:
  "request_wf sample_request \<and> parseRequest (render_request sample_request @ ''GET'') = Some sample_request"
proof -
  have "request_wf sample_request" by code_simp
  from this parse_print_request [OF this] show ?thesis by blast
qed

text \<open>percent decoding inverts percent encoding of any byte string, and it fails exactly when
  some \<open>%\<close> is not followed by two hexadecimal digits.\<close>
theorem urlDecode_correct:
  "urlDecode (url_encode s) = Some s \<and> (urlDecode t = None) = (\<not> escapes_ok t)"
  by (simp add: urlDecode_None_iff)

text \<open>when no two header names are equal up to case, looking a header up by name, and with it
  the decision to close the connection, does not depend on the iteration order of the header map.\<close>
theorem header_lookup_order_independent:
  assumes "header_names_distinct r" and "mset (headers r) = mset hs"
  shows "findHeader (r\<lparr>headers := hs\<rparr>) name = findHeader r name \<and>
    shouldCloseConnection (r\<lparr>headers := hs\<rparr>) = shouldCloseConnection r"
  using findHeader_order [OF assms] by (simp add: shouldCloseConnection_def)

theorem header_lookup_order_independent_witness:
  "shouldCloseConnection (sample_request\<lparr>headers := rev (headers sample_request)\<rparr>) = True"
proof -
  have 1: "header_names_distinct sample_request" by code_simp
  have 2: "mset (headers sample_request) = mset (rev (headers sample_request))" by simp
  have "shouldCloseConnection sample_request" by code_simp
  with header_lookup_order_independent [OF 1 2, of "''Connection''"] show ?thesis by blast
qed

end
