(* ===== verification/HttpResponse.thy ===== *)
theory HttpResponse
  imports HttpRequest
begin

text \<open>
  \<open>src/http/HttpResponse.cpp\<close>: the five response builders. \<open>read_response\<close> is a reference
  client that reads header lines up to the blank line and then as many bytes of body as
  \<open>Content-Length\<close> says; it recovers what was put in, whatever follows on the connection.
\<close>

section \<open>Model\<close>

definition response :: "string \<Rightarrow> string \<Rightarrow> string \<Rightarrow> bool \<Rightarrow> string" where
  "response status content_type body close_connection =
    ''HTTP/1.1 '' @ status @ crlf
      @ ''Content-Type: '' @ content_type @ crlf
      @ ''Content-Length: '' @ to_string (length body) @ crlf
      @ ''Connection: '' @ (if close_connection then ''close'' else ''keep-alive'') @ crlf
      @ crlf
      @ body"

definition text_plain :: string where
  "text_plain = ''text/plain; charset=utf-8''"

definition newline_char :: char where
  "newline_char = CHR 0x0A"

definition okText :: "string \<Rightarrow> bool \<Rightarrow> string" where
  "okText body close_connection = response ''200 OK'' text_plain body close_connection"

definition okJson :: "string \<Rightarrow> bool \<Rightarrow> string" where
  "okJson body close_connection =
    response ''200 OK'' ''application/json; charset=utf-8'' body close_connection"

definition notFound :: "bool \<Rightarrow> string" where
  "notFound close_connection =
    response ''404 Not Found'' text_plain (''Not Found'' @ [newline_char]) close_connection"

definition badRequest :: "string \<Rightarrow> bool \<Rightarrow> string" where
  "badRequest body close_connection = response ''400 Bad Request'' text_plain body close_connection"

definition internalServerError :: "bool \<Rightarrow> string" where
  "internalServerError close_connection =
    response ''500 Internal Server Error'' text_plain
      (''Internal Server Error'' @ [newline_char]) close_connection"

section \<open>A reference client\<close>

function read_lines :: "string \<Rightarrow> (string list \<times> string) option" where
  "read_lines raw =
    (case find_sub crlf raw of
       None \<Rightarrow> None
     | Some e \<Rightarrow>
         if e = 0 then Some ([], drop 2 raw)
         else map_option (\<lambda>(ls, rest). (take e raw # ls, rest)) (read_lines (drop (e + 2) raw)))"
  by pat_completeness auto
termination
  by (relation "measure length") (auto simp: crlf_def dest: find_sub_bound)

declare read_lines.simps [simp del]

fun content_length :: "string list \<Rightarrow> nat option" where
  "content_length [] = None"
| "content_length (l # ls) =
    (if prefix ''Content-Length: '' l then Some (decimal (drop 16 l)) else content_length ls)"

record reply =
  reply_status :: string
  reply_fields :: "string list"
  reply_body :: string
  reply_rest :: string

definition read_response :: "string \<Rightarrow> reply option" where
  "read_response raw =
    (case read_lines raw of
       Some (status # flds, rest) \<Rightarrow>
         (case content_length flds of
            Some n \<Rightarrow> Some \<lparr>reply_status = status, reply_fields = flds,
                             reply_body = take n rest, reply_rest = drop n rest\<rparr>
          | None \<Rightarrow> None)
     | _ \<Rightarrow> None)"

lemma read_lines_blank: "read_lines (crlf @ rest) = Some ([], rest)"
  using find_crlf [of "[]" rest] by (subst read_lines.simps) (simp add: crlf_def)

lemma read_lines_line:
  assumes "cr \<notin> set l" and "l \<noteq> []"
  shows "read_lines (l @ crlf @ raw) = map_option (\<lambda>(ls, rest). (l # ls, rest)) (read_lines raw)"
  using assms find_crlf [OF assms(1), of raw] drop_line [of l raw]
  by (subst read_lines.simps) simp

lemma digits_no_cr: "cr \<notin> set (to_string n)"
  using to_string_digits [of cr n] by (auto simp: is_digit_char_def)

lemma read_response_response:
  assumes "cr \<notin> set status" and "cr \<notin> set content_type"
  shows "read_response (response status content_type body close_connection @ rest) =
    Some \<lparr>reply_status = ''HTTP/1.1 '' @ status,
      reply_fields = [''Content-Type: '' @ content_type, ''Content-Length: '' @ to_string (length body),
        ''Connection: '' @ (if close_connection then ''close'' else ''keep-alive'')],
      reply_body = body, reply_rest = rest\<rparr>"
proof -
  let ?s = "''HTTP/1.1 '' @ status" and ?t = "''Content-Type: '' @ content_type"
    and ?n = "''Content-Length: '' @ to_string (length body)"
    and ?c = "''Connection: '' @ (if close_connection then ''close'' else ''keep-alive'')"
  have raw: "response status content_type body close_connection @ rest =
      ?s @ crlf @ ?t @ crlf @ ?n @ crlf @ ?c @ crlf @ crlf @ body @ rest"
    by (simp add: response_def)
  have s: "cr \<notin> set ?s" and t: "cr \<notin> set ?t" and n: "cr \<notin> set ?n" and c: "cr \<notin> set ?c"
    using assms digits_no_cr [of "length body"] by simp_all
  have "read_lines (response status content_type body close_connection @ rest) =
      Some ([?s, ?t, ?n, ?c], body @ rest)"
    unfolding raw
    by (simp only: read_lines_line [OF s] read_lines_line [OF t] read_lines_line [OF n]
        read_lines_line [OF c] read_lines_blank append_is_Nil_conv list.distinct simp_thms
        option.map prod.case)
  moreover have "content_length [?t, ?n, ?c] = Some (length body)" by simp
  ultimately show ?thesis by (simp only: read_response_def option.case prod.case list.case) simp
qed

section \<open>Properties\<close>

text \<open>every response the server builds is framed correctly: a client that reads the header
  block and then the announced number of bytes gets the status, the body, byte for byte, and the
  bytes that follow on the connection, for all five kinds of response.\<close>
theorem responses_well_framed:
  "map_option (\<lambda>r. (reply_status r, reply_body r, reply_rest r)) (read_response (okText body c @ rest))
     = Some (''HTTP/1.1 200 OK'', body, rest) \<and>
   map_option (\<lambda>r. (reply_status r, reply_body r, reply_rest r)) (read_response (okJson body c @ rest))
     = Some (''HTTP/1.1 200 OK'', body, rest) \<and>
   map_option (\<lambda>r. (reply_status r, reply_body r, reply_rest r)) (read_response (badRequest body c @ rest))
     = Some (''HTTP/1.1 400 Bad Request'', body, rest) \<and>
   map_option (\<lambda>r. (reply_status r, reply_rest r)) (read_response (notFound c @ rest))
     = Some (''HTTP/1.1 404 Not Found'', rest) \<and>
   map_option (\<lambda>r. (reply_status r, reply_rest r)) (read_response (internalServerError c @ rest))
     = Some (''HTTP/1.1 500 Internal Server Error'', rest)"
  by (simp add: okText_def okJson_def badRequest_def notFound_def internalServerError_def
      read_response_response text_plain_def)

end
