(* ===== verification/MarkdownChunker.thy ===== *)
theory MarkdownChunker
  imports Tokenizer
begin

text \<open>
  \<open>src/search/MarkdownChunker.cpp\<close> and \<open>src/search/DocumentChunk.h\<close>: cutting a Markdown
  document into citeable sections. The state of the loop in \<open>chunkMarkdown\<close> (the chunks
  emitted so far, the document title, the stack of headings and the body under the current
  heading) is a record; a line is one step on it. The lemmas show that the ids are consecutive,
  that no text is lost, that every chunk is trimmed and non-empty, and that the heading stack is
  the chain of enclosing headings when levels are not skipped.
\<close>

section \<open>Model\<close>

record document_chunk =
  chunk_id :: nat
  source_path :: string
  category :: string
  title :: string
  heading_path :: string
  raw_text :: string

abbreviation newline :: char where
  "newline \<equiv> CHR 0x0A"

definition headingLevel :: "string \<Rightarrow> nat" where
  "headingLevel line =
    (let level = length (takeWhile (\<lambda>c. c = CHR ''#'') line)
     in if level = 0 \<or> level > 6 \<or> level = length line \<or> line ! level \<noteq> CHR '' '' then 0 else level)"

definition trim :: "string \<Rightarrow> string" where
  "trim value = rev (dropWhile isspace (rev (dropWhile isspace value)))"

fun joinHeadings_loop :: "string list \<Rightarrow> string \<Rightarrow> string" where
  "joinHeadings_loop [] path = path"
| "joinHeadings_loop (heading # hs) path =
     (if heading = [] then joinHeadings_loop hs path
      else joinHeadings_loop hs ((if path \<noteq> [] then path @ '' > '' else path) @ heading))"

definition joinHeadings :: "string list \<Rightarrow> string" where
  "joinHeadings headings = joinHeadings_loop headings []"

definition plainTextTitle :: "string \<Rightarrow> string" where
  "plainTextTitle path =
    (let name_begin = (case find_last_of (CHR ''/'') path of None \<Rightarrow> 0 | Some slash \<Rightarrow> slash + 1);
         name_end = (case find_last_of (CHR ''.'') path of
             None \<Rightarrow> length path
           | Some dot \<Rightarrow> if dot < name_begin then length path else dot)
     in substr path name_begin (name_end - name_begin))"

text \<open>\<open>std::getline\<close> until the stream is exhausted: a final line without newline counts.\<close>

fun getlines :: "string \<Rightarrow> string \<Rightarrow> string list" where
  "getlines [] line = (if line = [] then [] else [line])"
| "getlines (c # cs) line = (if c = newline then line # getlines cs [] else getlines cs (line @ [c]))"

record chunker =
  chunks :: "document_chunk list"
  document_title :: string
  headings :: "string list"
  current_body :: string

definition chunker_init :: chunker where
  "chunker_init = \<lparr>chunks = [], document_title = [], headings = [], current_body = []\<rparr>"

definition flushCurrent :: "string \<Rightarrow> string \<Rightarrow> nat \<Rightarrow> chunker \<Rightarrow> chunker" where
  "flushCurrent path cat first_id st0 =
    (let st = st0\<lparr>current_body := trim (current_body st0)\<rparr>
     in if current_body st = [] \<or> headings st = [] then st
        else st\<lparr>chunks := chunks st @
              [\<lparr>chunk_id = first_id + length (chunks st), source_path = path, category = cat,
                title = document_title st, heading_path = joinHeadings (headings st),
                raw_text = current_body st\<rparr>],
              current_body := []\<rparr>)"

definition chunk_line :: "string \<Rightarrow> string \<Rightarrow> nat \<Rightarrow> string \<Rightarrow> chunker \<Rightarrow> chunker" where
  "chunk_line path cat first_id line st =
    (let level = headingLevel line
     in if level = 0 then st\<lparr>current_body := current_body st @ line @ [newline]\<rparr>
        else
          let st1 = flushCurrent path cat first_id st;
              heading = trim (drop (level + 1) line);
              hs = (if length (headings st1) \<ge> level then take (level - 1) (headings st1)
                    else headings st1)
          in st1\<lparr>headings := hs @ [heading],
                 document_title := if level = 1 then heading else document_title st1\<rparr>)"

definition chunk_lines :: "string \<Rightarrow> string \<Rightarrow> nat \<Rightarrow> string list \<Rightarrow> chunker" where
  "chunk_lines path cat first_id lines = fold (chunk_line path cat first_id) lines chunker_init"

definition chunkMarkdown :: "string \<Rightarrow> string \<Rightarrow> string \<Rightarrow> nat \<Rightarrow> document_chunk list" where
  "chunkMarkdown path cat content first_id =
    (let st = flushCurrent path cat first_id (chunk_lines path cat first_id (getlines content []))
     in if headings st = [] then
          (let body = trim (current_body st)
           in if body \<noteq> [] then
                chunks st @ [\<lparr>chunk_id = first_id, source_path = path, category = cat,
                  title = plainTextTitle path, heading_path = plainTextTitle path, raw_text = body\<rparr>]
              else chunks st)
        else chunks st)"

section \<open>Trimming\<close>

abbreviation visible :: "string \<Rightarrow> string" where
  "visible \<equiv> filter (\<lambda>c. \<not> isspace c)"

lemma filter_dropWhile_neg: "filter (\<lambda>c. \<not> P c) (dropWhile P s) = filter (\<lambda>c. \<not> P c) s"
  by (induction s) auto

lemma visible_trim [simp]: "visible (trim s) = visible s"
proof -
  have "visible (trim s) = rev (visible (dropWhile isspace (rev (dropWhile isspace s))))"
    by (simp add: trim_def rev_filter)
  also have "\<dots> = visible s"
    by (simp add: filter_dropWhile_neg rev_filter [symmetric])
  finally show ?thesis .
qed

lemma visible_newline [simp]: "isspace newline"
  by (simp add: isspace_def)

lemma dropWhile_idem: "dropWhile P (dropWhile P s) = dropWhile P s"
  by (induction s) auto

lemma dropWhile_rev_dropWhile:
  "dropWhile P (rev (dropWhile P (rev (dropWhile P s)))) = rev (dropWhile P (rev (dropWhile P s)))"
proof (cases "dropWhile P s")
  case Nil
  show ?thesis by (simp only: Nil rev.simps dropWhile.simps)
next
  case (Cons c cs)
  then have c: "\<not> P c" by (metis hd_dropWhile list.distinct(1) list.sel(1))
  then have "dropWhile P (rev (c # cs)) = dropWhile P (rev cs) @ [c]"
    by (simp add: dropWhile_append3)
  with c Cons show ?thesis by simp
qed

lemma trim_idem [simp]: "trim (trim s) = trim s"
  unfolding trim_def by (simp only: dropWhile_rev_dropWhile rev_rev_ident dropWhile_idem)

lemma trim_eq_Nil: "trim s = [] \<longleftrightarrow> visible s = []"
  by (auto simp: trim_def dropWhile_eq_Nil_conv filter_empty_conv dest: set_dropWhileD)
     (metis hd_dropWhile dropWhile_eq_Nil_conv hd_in_set set_dropWhileD)

section \<open>The invariant of the loop\<close>

definition body_line :: "string \<Rightarrow> bool" where
  "body_line line \<longleftrightarrow> headingLevel line = 0"

definition chunk_ok :: "string \<Rightarrow> string \<Rightarrow> document_chunk \<Rightarrow> bool" where
  "chunk_ok path cat c \<longleftrightarrow>
     source_path c = path \<and> category c = cat \<and> raw_text c \<noteq> [] \<and> trim (raw_text c) = raw_text c"

definition chunker_inv :: "string \<Rightarrow> string \<Rightarrow> nat \<Rightarrow> string list \<Rightarrow> chunker \<Rightarrow> bool" where
  "chunker_inv path cat n ls st \<longleftrightarrow>
     map chunk_id (chunks st) = [n ..< n + length (chunks st)] \<and>
     list_all (chunk_ok path cat) (chunks st) \<and>
     (headings st = [] \<longrightarrow> chunks st = []) \<and>
     visible (concat (map raw_text (chunks st)) @ current_body st) =
       visible (concat (filter body_line ls))"

lemma chunker_inv_init: "chunker_inv path cat n [] chunker_init"
  by (simp add: chunker_inv_def chunker_init_def)

lemma headings_flush [simp]: "headings (flushCurrent path cat n st) = headings st"
  by (simp add: flushCurrent_def Let_def)

lemma chunker_inv_flush:
  "chunker_inv path cat n ls st \<Longrightarrow> chunker_inv path cat n ls (flushCurrent path cat n st)"
  by (auto simp: chunker_inv_def flushCurrent_def chunk_ok_def Let_def)

lemma flush_body: "headings st \<noteq> [] \<Longrightarrow> current_body (flushCurrent path cat n st) = []"
  by (simp add: flushCurrent_def Let_def)

lemma chunker_inv_line:
  assumes "chunker_inv path cat n ls st"
  shows "chunker_inv path cat n (ls @ [line]) (chunk_line path cat n line st)"
proof (cases "headingLevel line = 0")
  case True
  with assms show ?thesis by (auto simp: chunker_inv_def chunk_line_def body_line_def)
next
  case False
  from chunker_inv_flush [OF assms] False show ?thesis
    by (simp add: chunker_inv_def chunk_line_def body_line_def Let_def)
qed

lemma chunk_lines_snoc:
  "chunk_lines path cat n (ls @ [l]) = chunk_line path cat n l (chunk_lines path cat n ls)"
  by (simp add: chunk_lines_def)

lemma chunker_inv_lines: "chunker_inv path cat n ls (chunk_lines path cat n ls)"
proof (induction ls rule: rev_induct)
  case Nil
  then show ?case using chunker_inv_init by (simp add: chunk_lines_def)
next
  case (snoc l ls)
  then show ?case by (simp add: chunk_lines_snoc chunker_inv_line)
qed

text \<open>What the invariant says of the whole function.\<close>

lemma chunkMarkdown_facts:
  fixes path cat content n
  defines "cs \<equiv> chunkMarkdown path cat content n"
  shows "map chunk_id cs = [n ..< n + length cs]"
    and "list_all (chunk_ok path cat) cs"
    and "visible (concat (map raw_text cs)) = visible (concat (filter body_line (getlines content [])))"
proof -
  let ?st = "flushCurrent path cat n (chunk_lines path cat n (getlines content []))"
  have inv: "chunker_inv path cat n (getlines content []) ?st"
    by (intro chunker_inv_flush chunker_inv_lines)
  have body: "headings ?st \<noteq> [] \<Longrightarrow> current_body ?st = []"
    by (rule flush_body) simp
  have cs: "cs = (if headings ?st = [] \<and> trim (current_body ?st) \<noteq> [] then
      [\<lparr>chunk_id = n, source_path = path, category = cat, title = plainTextTitle path,
        heading_path = plainTextTitle path, raw_text = trim (current_body ?st)\<rparr>] else chunks ?st)"
    using inv by (simp add: cs_def chunkMarkdown_def chunker_inv_def Let_def)
  show "map chunk_id cs = [n ..< n + length cs]"
    using inv by (simp add: cs chunker_inv_def)
  show "list_all (chunk_ok path cat) cs"
    using inv by (simp add: cs chunker_inv_def chunk_ok_def)
  show "visible (concat (map raw_text cs)) = visible (concat (filter body_line (getlines content [])))"
    using inv body by (auto simp: cs chunker_inv_def trim_eq_Nil)
qed

section \<open>The heading stack\<close>

text \<open>
  The heading lines of a document, in order, with their levels; \<open>ancestors b hs\<close> walks them
  backwards and keeps, below the bound \<open>b\<close>, each heading of a smaller level than every one
  kept after it: the chain of enclosing sections. The stack of the code is that chain as long as no
  heading skips a level (\<open>levels_nested\<close>).
\<close>

definition heading_of :: "string \<Rightarrow> nat \<times> string" where
  "heading_of line = (headingLevel line, trim (drop (headingLevel line + 1) line))"

definition heading_lines :: "string list \<Rightarrow> (nat \<times> string) list" where
  "heading_lines ls = map heading_of (filter (\<lambda>l. \<not> body_line l) ls)"

fun ancestors :: "nat \<Rightarrow> (nat \<times> string) list \<Rightarrow> string list" where
  "ancestors b [] = []"
| "ancestors b ((l, h) # rest) = (if l < b then ancestors l rest @ [h] else ancestors b rest)"

fun levels_nested :: "nat \<Rightarrow> (nat \<times> string) list \<Rightarrow> bool" where
  "levels_nested depth [] = True"
| "levels_nested depth ((l, h) # rest) = (0 < l \<and> l \<le> depth + 1 \<and> levels_nested l rest)"

lemma headingLevel_le_6: "headingLevel line \<le> 6"
  by (simp add: headingLevel_def Let_def)

lemma headings_chunk_line:
  "headings (chunk_line path cat n line st) =
    (if body_line line then headings st
     else (if length (headings st) \<ge> headingLevel line
           then take (headingLevel line - 1) (headings st) else headings st)
          @ [snd (heading_of line)])"
  by (simp add: chunk_line_def body_line_def heading_of_def Let_def)

lemma levels_nested_snoc:
  "levels_nested d (hs @ [(l, h)]) \<longleftrightarrow>
    levels_nested d hs \<and> 0 < l \<and> l \<le> (if hs = [] then d else fst (last hs)) + 1"
  by (induction d hs rule: levels_nested.induct) auto

text \<open>Cutting a nested chain at a smaller bound drops its tail.\<close>

lemma ancestors_take:
  assumes "levels_nested 0 hs" and "\<forall>x \<in> set hs. fst x < 7"
  shows "length (ancestors 7 (rev hs)) = (if hs = [] then 0 else fst (last hs)) \<and>
    (\<forall>b > 0. ancestors b (rev hs) = take (b - 1) (ancestors 7 (rev hs)))"
  using assms
proof (induction hs rule: rev_induct)
  case Nil
  then show ?case by simp
next
  case (snoc x hs)
  obtain l h where x: "x = (l, h)" by (cases x)
  let ?anc = "ancestors 7 (rev hs)"
  from snoc.prems(2) x have small: "\<forall>x \<in> set hs. fst x < 7" and l7: "l < 7" by simp_all
  from snoc.prems(1) have "levels_nested 0 (hs @ [(l, h)])" by (simp only: x)
  then have nest: "levels_nested 0 hs" and l0: "0 < l"
    and le: "l \<le> (if hs = [] then 0 else fst (last hs)) + 1"
    by (simp_all only: levels_nested_snoc)
  note hs = nest small and l = l0 l7
  from snoc.IH [OF hs] have len: "length ?anc = (if hs = [] then 0 else fst (last hs))"
    and cut: "\<And>b. 0 < b \<Longrightarrow> ancestors b (rev hs) = take (b - 1) ?anc" by blast+
  have new: "ancestors 7 (rev (hs @ [x])) = take (l - 1) ?anc @ [h]"
    using l cut [OF l(1)] by (simp add: x)
  have len': "length (take (l - 1) ?anc) = l - 1"
    using len le by auto
  have "ancestors b (rev (hs @ [x])) = take (b - 1) (take (l - 1) ?anc @ [h])" if b: "0 < b" for b
  proof (cases "l < b")
    case True
    then have "ancestors b (rev (hs @ [x])) = take (l - 1) ?anc @ [h]"
      using cut [OF l(1)] by (simp add: x)
    moreover have "length (take (l - 1) ?anc @ [h]) \<le> b - 1" using len' l(1) True by simp
    ultimately show ?thesis by (simp only: take_all)
  next
    case False
    then have "b - 1 \<le> l - 1" by simp
    moreover have "ancestors b (rev (hs @ [x])) = take (b - 1) ?anc"
      using False cut [OF b] by (simp add: x)
    ultimately show ?thesis using len' by (simp add: min_absorb1)
  qed
  moreover have "length (take (l - 1) ?anc @ [h]) = l" using len' l(1) by simp
  ultimately show ?case using new by (simp add: x)
qed

lemma heading_lines_snoc:
  "heading_lines (ls @ [l]) = heading_lines ls @ (if body_line l then [] else [heading_of l])"
  by (simp add: heading_lines_def)

lemma heading_lines_small: "x \<in> set (heading_lines ls) \<Longrightarrow> fst x < 7"
proof -
  assume "x \<in> set (heading_lines ls)"
  then obtain l where "x = heading_of l" by (auto simp: heading_lines_def)
  then show "fst x < 7" using headingLevel_le_6 [of l] by (simp add: heading_of_def)
qed

lemma headings_chunk_lines:
  "levels_nested 0 (heading_lines ls) \<Longrightarrow>
    headings (chunk_lines path cat n ls) = ancestors 7 (rev (heading_lines ls))"
proof (induction ls rule: rev_induct)
  case Nil
  then show ?case by (simp add: chunk_lines_def chunker_init_def heading_lines_def)
next
  case (snoc l ls)
  let ?hs = "heading_lines ls" and ?anc = "ancestors 7 (rev (heading_lines ls))"
  show ?case
  proof (cases "body_line l")
    case True
    with snoc show ?thesis by (simp add: chunk_lines_snoc headings_chunk_line heading_lines_snoc)
  next
    case False
    with snoc.prems have "levels_nested 0 (?hs @ [(headingLevel l, snd (heading_of l))])"
      by (simp add: heading_lines_snoc heading_of_def)
    then have nest: "levels_nested 0 ?hs"
      and pos: "0 < headingLevel l"
      and le: "headingLevel l \<le> (if ?hs = [] then 0 else fst (last ?hs)) + 1"
      unfolding levels_nested_snoc by blast+
    have IH: "headings (chunk_lines path cat n ls) = ?anc" using snoc.IH nest by simp
    have len: "length ?anc = (if ?hs = [] then 0 else fst (last ?hs))"
      and cut: "ancestors (headingLevel l) (rev ?hs) = take (headingLevel l - 1) ?anc"
      using ancestors_take [OF nest] heading_lines_small pos by blast+
    have "headings (chunk_lines path cat n (ls @ [l])) =
        take (headingLevel l - 1) ?anc @ [snd (heading_of l)]"
      using False IH le len by (simp add: chunk_lines_snoc headings_chunk_line)
    also have "\<dots> = ancestors 7 (heading_of l # rev ?hs)"
      using cut headingLevel_le_6 [of l] by (simp add: heading_of_def)
    finally show ?thesis using False by (simp add: heading_lines_snoc)
  qed
qed

section \<open>Two surprises, evaluated\<close>

text \<open>
  When a document skips a heading level, a later heading of the same level is nested under its
  sibling: the second \<open>###\<close> below gets the path \<open>A > C > D\<close>. Text before the first
  heading is not flushed (there is no heading to attach it to) and not cleared: it is trimmed and
  stays in front of the first section's body, glued to its first word.
\<close>

definition sample_skipped :: string where
  "sample_skipped = ''# A'' @ [newline] @ ''### C'' @ [newline] @ ''x'' @ [newline]
     @ ''### D'' @ [newline] @ ''y'' @ [newline]"

definition sample_preamble :: string where
  "sample_preamble = ''intro'' @ [newline] @ ''# A'' @ [newline] @ ''body'' @ [newline]"

lemma skipped_level_nests_sibling:
  "map heading_path (chunkMarkdown ''a.md'' ''n'' sample_skipped 0) = [''A > C'', ''A > C > D'']"
  by code_simp

lemma preamble_glued_to_first_section:
  "map raw_text (chunkMarkdown ''a.md'' ''n'' sample_preamble 0) = [''introbody'']"
  by code_simp

section \<open>Properties\<close>

text \<open>cutting a document numbers its chunks consecutively from the given first id, and every
  chunk carries the document's path and category and a non-empty, trimmed text.\<close>
theorem chunkMarkdown_ids_and_fields:
  "map chunk_id (chunkMarkdown path cat content n) =
      [n ..< n + length (chunkMarkdown path cat content n)] \<and>
   list_all (chunk_ok path cat) (chunkMarkdown path cat content n)"
  using chunkMarkdown_facts(1,2) by blast

text \<open>C36: no text is lost or duplicated: the visible characters of all chunk texts, in order, are
  exactly the visible characters of the lines of the document that are not headings.\<close>
theorem chunkMarkdown_keeps_text:
  "visible (concat (map raw_text (chunkMarkdown path cat content n))) =
     visible (concat (filter body_line (getlines content [])))"
  by (rule chunkMarkdown_facts(3))

text \<open>C37: when no heading skips a level, the heading stack after any prefix of the lines is the
  chain of headings that enclose the current position.\<close>
theorem heading_stack_is_ancestors:
  "levels_nested 0 (heading_lines ls) \<Longrightarrow>
    headings (chunk_lines path cat n ls) = ancestors 7 (rev (heading_lines ls))"
  by (rule headings_chunk_lines)

theorem heading_stack_is_ancestors_witness:
  "headings (chunk_lines ''p.md'' ''p'' 0 [''# A'', ''## B'', ''text'', ''### C'', ''## D'']) = [''A'', ''D'']"
proof -
  let ?ls = "[''# A'', ''## B'', ''text'', ''### C'', ''## D'']"
  have "levels_nested 0 (heading_lines ?ls)" by code_simp
  from heading_stack_is_ancestors [OF this]
  have "headings (chunk_lines ''p.md'' ''p'' 0 ?ls) = ancestors 7 (rev (heading_lines ?ls))" .
  also have "\<dots> = [''A'', ''D'']" by code_simp
  finally show ?thesis .
qed

end
