(* ===== verification/DocumentLoader.thy ===== *)
theory DocumentLoader
  imports MarkdownChunker
begin

text \<open>
  \<open>src/search/DocumentLoader.cpp\<close>: reading every supported file below the documents root. What
  the file system shows is data: the root is missing, cannot be listed (it is no directory, or may not be
  read), or is listed: the entries in the order the iterator yields them, and whether a call in the loop
  (advancing the iterator, \<open>is_regular_file\<close>, \<open>relative\<close>) then raised, which ends the loading. An entry
  has the path it is listed under and the one that \<open>std::filesystem::relative\<close> gives for it, in which
  symbolic links are resolved, each as a list of components below the root; whether it is, or links to, a
  regular file; and what reading it gives (\<open>None\<close> when it cannot be opened). The chunks of all documents
  are numbered from 0.
\<close>

section \<open>Model\<close>

record dir_entry =
  entry_path :: "string list"
  relative_path :: "string list"
  is_regular_file :: bool
  file_content :: "string option"

datatype documents_root = Missing | Not_directory | Directory "dir_entry list" bool

datatype fs_error = Filesystem_error

text \<open>\<open>std::filesystem::path::extension\<close> of a file name.\<close>

definition extension :: "string \<Rightarrow> string" where
  "extension name =
    (if name = ''.'' \<or> name = ''..'' then []
     else (case find_last_of (CHR ''.'') name of
         None \<Rightarrow> []
       | Some i \<Rightarrow> if i = 0 then [] else drop i name))"

definition file_name :: "string list \<Rightarrow> string" where
  "file_name path = (if path = [] then [] else last path)"

definition isSupportedDocument :: "string list \<Rightarrow> bool" where
  "isSupportedDocument path \<longleftrightarrow>
     extension (file_name path) = ''.md'' \<or> extension (file_name path) = ''.txt''"

definition readFile :: "dir_entry \<Rightarrow> string" where
  "readFile entry = (case file_content entry of None \<Rightarrow> [] | Some s \<Rightarrow> s)"

definition generic_string :: "string list \<Rightarrow> string" where
  "generic_string path = join_with ''/'' path"

definition category_of :: "string list \<Rightarrow> string" where
  "category_of path = (if length path > 1 then hd path else ''uncategorized'')"

text \<open>The loop over the entries: the chunks so far and the next chunk id.\<close>

fun load_entries :: "dir_entry list \<Rightarrow> nat \<Rightarrow> document_chunk list \<Rightarrow> document_chunk list" where
  "load_entries [] next_chunk_id cs = cs"
| "load_entries (entry # entries) next_chunk_id cs =
    (if \<not> is_regular_file entry \<or> \<not> isSupportedDocument (entry_path entry)
     then load_entries entries next_chunk_id cs
     else
       let content = readFile entry
       in if content = [] then load_entries entries next_chunk_id cs
          else
            let document_chunks = chunkMarkdown (generic_string (relative_path entry))
                  (category_of (relative_path entry)) content next_chunk_id
            in load_entries entries (next_chunk_id + length document_chunks) (cs @ document_chunks))"

definition loadDocuments :: "documents_root \<Rightarrow> fs_error + document_chunk list" where
  "loadDocuments root =
    (case root of
       Missing \<Rightarrow> Inr []
     | Not_directory \<Rightarrow> Inl Filesystem_error
     | Directory entries raised \<Rightarrow>
         (if raised then Inl Filesystem_error else Inr (load_entries entries 0 [])))"

section \<open>Lemmas\<close>

definition indexable :: "dir_entry \<Rightarrow> bool" where
  "indexable entry \<longleftrightarrow>
     is_regular_file entry \<and> isSupportedDocument (entry_path entry) \<and> readFile entry \<noteq> []"

definition entry_chunks :: "nat \<Rightarrow> dir_entry \<Rightarrow> document_chunk list" where
  "entry_chunks n entry =
    chunkMarkdown (generic_string (relative_path entry)) (category_of (relative_path entry)) (readFile entry) n"

lemma load_entries_Cons:
  "load_entries (entry # entries) n cs =
    (if indexable entry
     then load_entries entries (n + length (entry_chunks n entry)) (cs @ entry_chunks n entry)
     else load_entries entries n cs)"
  by (auto simp: indexable_def entry_chunks_def Let_def)

declare load_entries.simps(2) [simp del]

lemma upt_append_length: "i \<le> j \<Longrightarrow> [i..<j] @ [j..<j + k] = [i..<j + k]"
  by (metis upt_add_eq_append)

lemma load_entries_ids:
  "map chunk_id cs = [0..<n] \<Longrightarrow>
    map chunk_id (load_entries entries n cs) = [0..<length (load_entries entries n cs)]"
proof (induction entries arbitrary: n cs)
  case Nil
  then have "length cs = n" by (metis length_map length_upt minus_nat.diff_0)
  with Nil show ?case by simp
next
  case (Cons entry entries)
  have "map chunk_id (entry_chunks n entry) = [n ..< n + length (entry_chunks n entry)]"
    unfolding entry_chunks_def by (rule chunkMarkdown_facts(1))
  then have "map chunk_id (cs @ entry_chunks n entry) = [0 ..< n + length (entry_chunks n entry)]"
    using Cons.prems by (simp add: upt_append_length)
  with Cons show ?case by (simp add: load_entries_Cons)
qed

definition origin :: "document_chunk \<Rightarrow> string \<times> string" where
  "origin c = (source_path c, category c)"

definition entry_origin :: "dir_entry \<Rightarrow> string \<times> string" where
  "entry_origin entry = (generic_string (relative_path entry), category_of (relative_path entry))"

lemma entry_chunks_origin: "c \<in> set (entry_chunks n entry) \<Longrightarrow> origin c = entry_origin entry"
  using chunkMarkdown_facts(2) [of "generic_string (relative_path entry)" "category_of (relative_path entry)"
      "readFile entry" n]
  by (auto simp: entry_chunks_def origin_def entry_origin_def list_all_iff chunk_ok_def)

definition entry_text :: "dir_entry \<Rightarrow> string" where
  "entry_text entry = visible (concat (filter body_line (getlines (readFile entry) [])))"

lemma entry_chunks_text: "visible (concat (map raw_text (entry_chunks n entry))) = entry_text entry"
  unfolding entry_chunks_def entry_text_def by (rule chunkMarkdown_facts(3))

text \<open>What the chunks of one file are: its chunker's, all with its origin, and with all its text.\<close>

definition chunks_of_file :: "document_chunk list \<Rightarrow> dir_entry \<Rightarrow> bool" where
  "chunks_of_file cs entry \<longleftrightarrow>
     (\<exists>n. cs = entry_chunks n entry) \<and> (\<forall>c \<in> set cs. origin c = entry_origin entry) \<and>
     visible (concat (map raw_text cs)) = entry_text entry"

lemma load_entries_files:
  "\<exists>css. load_entries entries n cs = cs @ concat css \<and> list_all2 chunks_of_file css (filter indexable entries)"
proof (induction entries arbitrary: n cs)
  case (Cons entry entries)
  show ?case
  proof (cases "indexable entry")
    case True
    let ?new = "entry_chunks n entry"
    have "chunks_of_file ?new entry"
      using entry_chunks_origin entry_chunks_text by (auto simp: chunks_of_file_def)
    moreover obtain css where "load_entries entries (n + length ?new) (cs @ ?new) = (cs @ ?new) @ concat css"
      "list_all2 chunks_of_file css (filter indexable entries)" using Cons by blast
    ultimately show ?thesis using True by (intro exI [of _ "?new # css"]) (simp add: load_entries_Cons)
  next
    case False
    with Cons show ?thesis by (simp add: load_entries_Cons)
  qed
qed simp

text \<open>A \<open>.txt\<close> file goes through the same chunker: its \<open>#\<close> lines are headings.\<close>

lemma txt_file_is_chunked:
  "map heading_path (load_entries
     [\<lparr>entry_path = [''notes'', ''todo.txt''], relative_path = [''notes'', ''todo.txt''], is_regular_file = True,
        file_content = Some (''# buy'' @ [newline] @ ''milk'')\<rparr>] 0 []) = [''buy'']"
  by code_simp

text \<open>A link that leads out of the root is loaded under a path, and with a category, that go up.\<close>

lemma link_out_of_root:
  "map origin (load_entries
     [\<lparr>entry_path = [''link.md''], relative_path = [''..'', ''other'', ''a.txt''], is_regular_file = True,
        file_content = Some (''# A'' @ [newline] @ ''x'')\<rparr>] 0 []) = [(''../other/a.txt'', ''..'')]"
  by code_simp

section \<open>Properties\<close>

text \<open>C35: Loading gives exactly the chunks of the indexable files (regular, not empty, with extension
  \<open>.md\<close> or \<open>.txt\<close>), file by file in the order they are listed: for each of them the chunks that the chunker
  makes of its content, every one with the relative path of that very file and its category (first
  directory, or \<open>uncategorized\<close>), and with all its visible text outside headings; and the chunks are
  numbered 0, 1, 2, ... across files.\<close>
theorem loadDocuments_complete:
  "\<exists>css. loadDocuments (Directory entries False) = Inr (concat css) \<and>
     list_all2 (\<lambda>cs entry. (\<exists>n. cs = entry_chunks n entry) \<and> list_all (\<lambda>c. origin c = entry_origin entry) cs \<and>
       visible (concat (map raw_text cs)) = entry_text entry) css (filter indexable entries) \<and>
     map chunk_id (concat css) = [0 ..< length (concat css)]"
proof -
  obtain css where css: "load_entries entries 0 [] = concat css"
    "list_all2 chunks_of_file css (filter indexable entries)" using load_entries_files [of entries 0 "[]"] by auto
  have "map chunk_id (concat css) = [0 ..< length (concat css)]"
    using load_entries_ids [of "[]" 0 entries] unfolding css(1) by simp
  moreover have "loadDocuments (Directory entries False) = Inr (concat css)"
    by (simp add: loadDocuments_def css(1))
  ultimately show ?thesis
    using css(2) unfolding chunks_of_file_def Ball_set by blast
qed

end
