(* ===== verification/InvertedIndex.thy ===== *)
theory InvertedIndex
  imports MarkdownChunker "HOL-Library.Multiset"
begin

text \<open>
  \<open>src/search/InvertedIndex.cpp\<close>: from terms to posting lists. The per-chunk frequency table is
  an association list; the index is a finite map. The interface \<open>term_index\<close> states what a
  client may rely on (a lookup after an insertion), and derives from it the posting list of any term
  after indexing a list of chunks; the code's index is an interpretation.
\<close>

section \<open>Model\<close>

record posting =
  posting_chunk :: nat
  term_frequency :: nat

type_synonym inverted_index = "string \<rightharpoonup> posting list"

text \<open>\<open>++term_frequencies[token]\<close>\<close>

fun bump :: "string \<Rightarrow> (string \<times> nat) list \<Rightarrow> (string \<times> nat) list" where
  "bump token [] = [(token, 1)]"
| "bump token ((k, n) # m) = (if k = token then (k, n + 1) # m else (k, n) # bump token m)"

definition term_frequencies :: "string list \<Rightarrow> (string \<times> nat) list" where
  "term_frequencies tokens = fold bump tokens []"

definition push_posting :: "nat \<Rightarrow> string \<times> nat \<Rightarrow> inverted_index \<Rightarrow> inverted_index" where
  "push_posting cid pair index =
    index(fst pair \<mapsto> (case index (fst pair) of None \<Rightarrow> [] | Some ps \<Rightarrow> ps)
       @ [\<lparr>posting_chunk = cid, term_frequency = snd pair\<rparr>])"

definition addChunk :: "document_chunk \<Rightarrow> inverted_index \<Rightarrow> inverted_index" where
  "addChunk chunk index =
    fold (push_posting (chunk_id chunk)) (term_frequencies (analyzeTerms (raw_text chunk))) index"

definition findTerm :: "inverted_index \<Rightarrow> string \<Rightarrow> posting list option" where
  "findTerm index normalized_term = index normalized_term"

definition empty_index :: inverted_index where
  "empty_index = Map.empty"

section \<open>The interface\<close>

definition chunk_terms :: "document_chunk \<Rightarrow> string list" where
  "chunk_terms c = analyzeTerms (raw_text c)"

definition posting_of :: "string \<Rightarrow> document_chunk \<Rightarrow> posting" where
  "posting_of t c = \<lparr>posting_chunk = chunk_id c, term_frequency = count_list (chunk_terms c) t\<rparr>"

definition postings_spec :: "document_chunk list \<Rightarrow> string \<Rightarrow> posting list" where
  "postings_spec cs t = map (posting_of t) (filter (\<lambda>c. t \<in> set (chunk_terms c)) cs)"

locale term_index =
  fixes empty :: 'i
    and add :: "document_chunk \<Rightarrow> 'i \<Rightarrow> 'i"
    and lookup :: "'i \<Rightarrow> string \<Rightarrow> posting list option"
  assumes lookup_empty: "lookup empty t = None"
    and lookup_add: "lookup (add c i) t =
      (if t \<in> set (chunk_terms c)
       then Some ((case lookup i t of None \<Rightarrow> [] | Some ps \<Rightarrow> ps) @ [posting_of t c])
       else lookup i t)"
begin

lemma lookup_fold:
  "lookup (fold add cs i) t =
    (if postings_spec cs t = [] then lookup i t
     else Some ((case lookup i t of None \<Rightarrow> [] | Some ps \<Rightarrow> ps) @ postings_spec cs t))"
proof (induction cs arbitrary: i)
  case Nil
  then show ?case by (simp add: postings_spec_def)
next
  case (Cons c cs)
  then show ?case by (auto simp: lookup_add postings_spec_def split: option.splits)
qed

lemma lookup_build:
  "lookup (fold add cs empty) t =
    (if postings_spec cs t = [] then None else Some (postings_spec cs t))"
  by (simp add: lookup_fold lookup_empty)

end

section \<open>The code's index provides it\<close>

lemma map_of_bump: "map_of (bump t m) = (map_of m)(t \<mapsto> (case map_of m t of None \<Rightarrow> 1 | Some n \<Rightarrow> n + 1))"
  by (induction t m rule: bump.induct) (auto simp: fun_eq_iff)

lemma keys_bump: "map fst (bump t m) = (if t \<in> fst ` set m then map fst m else map fst m @ [t])"
  by (induction t m rule: bump.induct) auto

lemma distinct_bump: "distinct (map fst m) \<Longrightarrow> distinct (map fst (bump t m))"
  by (auto simp: keys_bump)

lemma fold_bump:
  "distinct (map fst m) \<Longrightarrow>
    distinct (map fst (fold bump ts m)) \<and>
    map_of (fold bump ts m) t =
      (if t \<in> set ts then Some (count_list ts t + (case map_of m t of None \<Rightarrow> 0 | Some n \<Rightarrow> n))
       else map_of m t)"
proof (induction ts arbitrary: m)
  case Nil
  then show ?case by simp
next
  case (Cons u ts)
  from Cons.IH [OF distinct_bump [OF Cons.prems, of u]] show ?case
    by (auto simp: map_of_bump count_list_0_iff split: option.splits)
qed

lemma term_frequencies_map:
  "map_of (term_frequencies ts) t = (if t \<in> set ts then Some (count_list ts t) else None)"
  using fold_bump [of "[]" ts t] by (simp add: term_frequencies_def)

lemma term_frequencies_distinct: "distinct (map fst (term_frequencies ts))"
  using fold_bump [of "[]" ts] by (simp add: term_frequencies_def)

lemma fold_push_posting:
  "distinct (map fst tfs) \<Longrightarrow>
    fold (push_posting cid) tfs index t =
      (case map_of tfs t of
         None \<Rightarrow> index t
       | Some n \<Rightarrow> Some ((case index t of None \<Rightarrow> [] | Some ps \<Rightarrow> ps)
            @ [\<lparr>posting_chunk = cid, term_frequency = n\<rparr>]))"
proof (induction tfs arbitrary: index)
  case Nil
  then show ?case by simp
next
  case (Cons tf tfs)
  then have "map_of tfs (fst tf) = None" by (simp add: map_of_eq_None_iff)
  with Cons show ?case by (cases tf) (auto simp: push_posting_def split: option.splits)
qed

lemma findTerm_addChunk:
  "findTerm (addChunk c index) t =
    (if t \<in> set (chunk_terms c)
     then Some ((case findTerm index t of None \<Rightarrow> [] | Some ps \<Rightarrow> ps) @ [posting_of t c])
     else findTerm index t)"
  by (simp add: findTerm_def addChunk_def fold_push_posting term_frequencies_distinct
      term_frequencies_map chunk_terms_def posting_of_def)

interpretation inverted: term_index empty_index addChunk findTerm
  by unfold_locales (simp_all add: findTerm_addChunk, simp add: findTerm_def empty_index_def)

text \<open>The frequency table is an \<open>unordered_map\<close>: its iteration order does not matter.\<close>

lemma addChunk_any_order:
  assumes "mset tfs = mset (term_frequencies (analyzeTerms (raw_text c)))"
  shows "fold (push_posting (chunk_id c)) tfs index = addChunk c index"
proof
  fix t
  let ?tfs = "term_frequencies (analyzeTerms (raw_text c))"
  have "mset (map fst tfs) = mset (map fst ?tfs)" using assms by simp
  then have d: "distinct (map fst tfs)" using term_frequencies_distinct mset_eq_imp_distinct_iff by blast
  have "map_of tfs = map_of ?tfs"
    using d term_frequencies_distinct mset_eq_setD [OF assms] by (intro map_of_inject_set [THEN iffD2]) auto
  then show "fold (push_posting (chunk_id c)) tfs index t = addChunk c index t"
    by (simp add: addChunk_def fold_push_posting d term_frequencies_distinct)
qed

section \<open>Properties\<close>

text \<open>C25: after indexing any list of chunks, looking a term up gives one posting for every chunk
  whose analysed text holds the term, in indexing order, with the number of its occurrences there,
  and nothing when no chunk holds it.\<close>
theorem index_lookup:
  "findTerm (fold addChunk cs empty_index) t =
    (if postings_spec cs t = [] then None else Some (postings_spec cs t))"
  by (rule inverted.lookup_build)

text \<open>the iteration order of the per-chunk frequency table is irrelevant: pushing the postings
  of a chunk in any order gives the same index.\<close>
theorem addChunk_order_independent:
  assumes "mset tfs = mset (term_frequencies (analyzeTerms (raw_text c)))"
  shows "fold (push_posting (chunk_id c)) tfs index = addChunk c index"
  by (rule addChunk_any_order [OF assms])

definition sample_chunk :: "nat \<Rightarrow> string \<Rightarrow> document_chunk" where
  "sample_chunk i text = \<lparr>chunk_id = i, source_path = ''a.md'', category = ''a'', title = ''A'',
     heading_path = ''A'', raw_text = text\<rparr>"

theorem addChunk_order_independent_witness:
  "fold (push_posting 7) [(''epoll'', 1), (''loop'', 2)] empty_index =
     addChunk (sample_chunk 7 ''Loop the epoll loop'') empty_index"
proof -
  let ?c = "sample_chunk 7 ''Loop the epoll loop''"
  have "term_frequencies (analyzeTerms (raw_text ?c)) = [(''loop'', 2), (''epoll'', 1)]" by code_simp
  then have "mset [(''epoll'', 1), (''loop'', 2)] = mset (term_frequencies (analyzeTerms (raw_text ?c)))"
    by simp
  from addChunk_order_independent [OF this] show ?thesis by (simp add: sample_chunk_def)
qed

end
