(* ===== verification/SearchService.thy ===== *)
theory SearchService
  imports InvertedIndex
begin

text \<open>
  \<open>src/search/SearchService.cpp\<close>: multi-keyword retrieval and TopK ranking. Floating-point
  arithmetic is a parameter: a record of the operations of \<open>double\<close> the code calls, over a score
  type with a linear order (the values of \<open>double\<close> other than NaN, under its comparison). The
  iteration order of the \<open>unordered_set\<close> of query terms, which fixes the order in which scores
  are added up, is a parameter too. The main lemma equates the candidate accumulation over posting
  lists with a scan of all chunks.
\<close>

section \<open>Model\<close>

record 's fp_ops =
  fp_of_nat :: "nat \<Rightarrow> 's"
  fp_add :: "'s \<Rightarrow> 's \<Rightarrow> 's"
  fp_mul :: "'s \<Rightarrow> 's \<Rightarrow> 's"
  fp_div :: "'s \<Rightarrow> 's \<Rightarrow> 's"
  fp_log :: "'s \<Rightarrow> 's"
  fp_log1p :: "'s \<Rightarrow> 's"
  fp_fixed6 :: "'s \<Rightarrow> string"

record 's candidate =
  matched_terms :: nat
  cand_score :: 's

record 's search_result =
  result_chunk :: document_chunk
  result_matched :: nat
  result_score :: 's

definition ranksHigher :: "('s :: linorder) search_result \<Rightarrow> 's search_result \<Rightarrow> bool" where
  "ranksHigher left right =
    (if result_matched left \<noteq> result_matched right then result_matched left > result_matched right
     else if result_score left \<noteq> result_score right then result_score left > result_score right
     else chunk_id (result_chunk left) < chunk_id (result_chunk right))"

record search_service =
  service_index :: inverted_index
  chunks_by_id :: "(nat \<times> document_chunk) list"
  document_count :: nat

definition SearchService :: "document_chunk list \<Rightarrow> inverted_index \<Rightarrow> search_service" where
  "SearchService cs index =
    \<lparr>service_index = index,
     chunks_by_id = fold (\<lambda>c. emplace (chunk_id c) c) cs [],
     document_count = length cs\<rparr>"

definition idf :: "'s fp_ops \<Rightarrow> nat \<Rightarrow> nat \<Rightarrow> 's" where
  "idf fp n_docs df =
    fp_add fp
      (fp_log fp (fp_div fp (fp_add fp (fp_of_nat fp n_docs) (fp_of_nat fp 1))
                            (fp_add fp (fp_of_nat fp df) (fp_of_nat fp 1))))
      (fp_of_nat fp 1)"

definition zero_candidate :: "'s fp_ops \<Rightarrow> 's candidate" where
  "zero_candidate fp = \<lparr>matched_terms = 0, cand_score = fp_of_nat fp 0\<rparr>"

definition touch :: "'s fp_ops \<Rightarrow> 's \<Rightarrow> 's candidate \<Rightarrow> 's candidate" where
  "touch fp w c = c\<lparr>matched_terms := matched_terms c + 1, cand_score := fp_add fp (cand_score c) w\<rparr>"

text \<open>\<open>auto& candidate = candidates[posting.chunk_id]\<close> and the two updates of it.\<close>

fun update_candidate :: "'s fp_ops \<Rightarrow> nat \<Rightarrow> 's \<Rightarrow> (nat \<times> 's candidate) list \<Rightarrow> (nat \<times> 's candidate) list" where
  "update_candidate fp cid w [] = [(cid, touch fp w (zero_candidate fp))]"
| "update_candidate fp cid w ((k, c) # m) =
    (if k = cid then (k, touch fp w c) # m else (k, c) # update_candidate fp cid w m)"

definition term_weight :: "'s fp_ops \<Rightarrow> nat \<Rightarrow> 's \<Rightarrow> 's" where
  "term_weight fp tf term_idf = fp_mul fp (fp_log1p fp (fp_of_nat fp tf)) term_idf"

definition score_term ::
    "'s fp_ops \<Rightarrow> search_service \<Rightarrow> string \<Rightarrow> (nat \<times> 's candidate) list \<Rightarrow> (nat \<times> 's candidate) list" where
  "score_term fp svc t candidates =
    (case findTerm (service_index svc) t of
       None \<Rightarrow> candidates
     | Some postings \<Rightarrow>
         let term_idf = idf fp (document_count svc) (length postings)
         in fold (\<lambda>p. update_candidate fp (posting_chunk p) (term_weight fp (term_frequency p) term_idf))
              postings candidates)"

definition collect :: "search_service \<Rightarrow> (nat \<times> 's candidate) list \<Rightarrow> 's search_result list" where
  "collect svc candidates =
    concat (map (\<lambda>(cid, cand).
      (case map_of (chunks_by_id svc) cid of
         None \<Rightarrow> []
       | Some c \<Rightarrow> [\<lparr>result_chunk = c, result_matched = matched_terms cand,
                     result_score = cand_score cand\<rparr>])) candidates)"

section \<open>The ranking as a linear order\<close>

datatype 's rank = Rank nat 's nat

instantiation rank :: (linorder) linorder
begin

fun less_rank :: "'a rank \<Rightarrow> 'a rank \<Rightarrow> bool" where
  "less_rank (Rank m s i) (Rank m' s' i') \<longleftrightarrow> m' < m \<or> m = m' \<and> (s' < s \<or> s = s' \<and> i < i')"

definition less_eq_rank :: "'a rank \<Rightarrow> 'a rank \<Rightarrow> bool" where
  "less_eq_rank x y \<longleftrightarrow> x < y \<or> x = y"

instance
proof
  fix x y z :: "'a rank"
  show "(x < y) = (x \<le> y \<and> \<not> y \<le> x)"
    by (cases x; cases y) (auto simp: less_eq_rank_def)
  show "x \<le> x" by (simp add: less_eq_rank_def)
  show "x \<le> y \<Longrightarrow> y \<le> z \<Longrightarrow> x \<le> z"
    by (cases x; cases y; cases z) (auto simp: less_eq_rank_def)
  show "x \<le> y \<Longrightarrow> y \<le> x \<Longrightarrow> x = y"
    by (cases x; cases y) (auto simp: less_eq_rank_def)
  show "x \<le> y \<or> y \<le> x"
    by (cases x; cases y) (auto simp: less_eq_rank_def)
qed

end

definition rank_key :: "'s search_result \<Rightarrow> 's rank" where
  "rank_key r = Rank (result_matched r) (result_score r) (chunk_id (result_chunk r))"

lemma ranksHigher_rank_key: "ranksHigher l r \<longleftrightarrow> rank_key l < rank_key r"
  by (auto simp: ranksHigher_def rank_key_def)

lemma ranksHigher_fun: "ranksHigher = (\<lambda>l r. rank_key l < rank_key r)"
  by (intro ext) (rule ranksHigher_rank_key)

text \<open>
  \<open>std::sort\<close> by \<open>ranksHigher\<close>, and \<open>std::partial_sort\<close> followed by \<open>resize\<close>. The
  order is total on results of different chunks, so any sorting algorithm gives the same list
  (\<open>rank_unique\<close> below).
\<close>

definition rank_results :: "('s :: linorder) search_result list \<Rightarrow> nat \<Rightarrow> 's search_result list" where
  "rank_results results top_k =
    (if length results > top_k then take top_k (sort_key rank_key results)
     else sort_key rank_key results)"

definition search ::
    "('s :: linorder) fp_ops \<Rightarrow> (string list \<Rightarrow> string list) \<Rightarrow> search_service \<Rightarrow> string \<Rightarrow> nat
      \<Rightarrow> 's search_result list" where
  "search fp order svc query top_k =
    (if top_k = 0 \<or> document_count svc = 0 then []
     else
       let unique_terms = order (analyzeTerms query);
           candidates = fold (score_term fp svc) unique_terms []
       in rank_results (collect svc candidates) top_k)"

definition build_index :: "document_chunk list \<Rightarrow> inverted_index" where
  "build_index cs = fold addChunk cs empty_index"

section \<open>Accumulating candidates\<close>

lemma map_of_update_candidate:
  "map_of (update_candidate fp cid w m) =
    (map_of m)(cid \<mapsto> touch fp w (case map_of m cid of None \<Rightarrow> zero_candidate fp | Some c \<Rightarrow> c))"
  by (induction fp cid w m rule: update_candidate.induct) (auto simp: fun_eq_iff)

lemma keys_update_candidate:
  "map fst (update_candidate fp cid w m) = (if cid \<in> fst ` set m then map fst m else map fst m @ [cid])"
  by (induction fp cid w m rule: update_candidate.induct) auto

lemma distinct_update_candidate:
  "distinct (map fst m) \<Longrightarrow> distinct (map fst (update_candidate fp cid w m))"
  by (auto simp: keys_update_candidate)

definition touch_opt :: "'s fp_ops \<Rightarrow> 's \<Rightarrow> 's candidate option \<Rightarrow> 's candidate option" where
  "touch_opt fp w oc = Some (touch fp w (case oc of None \<Rightarrow> zero_candidate fp | Some c \<Rightarrow> c))"

lemma fold_update_candidate:
  "distinct (map posting_chunk ps) \<Longrightarrow>
    map_of (fold (\<lambda>p. update_candidate fp (posting_chunk p) (w p)) ps m) cid =
      (case find (\<lambda>p. posting_chunk p = cid) ps of
         None \<Rightarrow> map_of m cid
       | Some p \<Rightarrow> touch_opt fp (w p) (map_of m cid))"
proof (induction ps arbitrary: m)
  case Nil
  then show ?case by simp
next
  case (Cons p ps)
  show ?case
  proof (cases "posting_chunk p = cid")
    case True
    then have "find (\<lambda>p. posting_chunk p = cid) ps = None"
      using Cons.prems by (simp add: find_None_iff) (metis imageI)
    with Cons True show ?thesis by (simp add: map_of_update_candidate touch_opt_def)
  next
    case False
    with Cons show ?thesis by (simp add: map_of_update_candidate split: option.split)
  qed
qed

lemma fold_update_distinct:
  "distinct (map fst m) \<Longrightarrow>
    distinct (map fst (fold (\<lambda>p. update_candidate fp (posting_chunk p) (w p)) ps m))"
  by (induction ps arbitrary: m) (simp_all add: distinct_update_candidate)

lemma distinct_ids_eq:
  "distinct (map chunk_id cs) \<Longrightarrow> c \<in> set cs \<Longrightarrow> d \<in> set cs \<Longrightarrow> chunk_id c = chunk_id d \<Longrightarrow> c = d"
  by (auto simp: distinct_map dest: inj_onD)

lemma postings_spec_distinct:
  "distinct (map chunk_id cs) \<Longrightarrow> distinct (map posting_chunk (postings_spec cs t))"
  by (auto simp: postings_spec_def posting_of_def comp_def distinct_map inj_on_def)

lemma postings_spec_find:
  assumes "distinct (map chunk_id cs)" and "c \<in> set cs"
  shows "find (\<lambda>p. posting_chunk p = chunk_id c) (postings_spec cs t) =
    (if t \<in> set (chunk_terms c) then Some (posting_of t c) else None)"
proof (cases "t \<in> set (chunk_terms c)")
  case True
  then have "posting_of t c \<in> set (postings_spec cs t)" using assms(2) by (auto simp: postings_spec_def)
  then have "find (\<lambda>p. posting_chunk p = chunk_id c) (postings_spec cs t) = Some (posting_of t c)"
    by (rule find_unique [OF postings_spec_distinct [OF assms(1)]]) (simp add: posting_of_def)
  with True show ?thesis by simp
next
  case False
  have "x = c" if "x \<in> set cs" "chunk_id x = chunk_id c" for x
    using distinct_ids_eq [OF assms(1) that(1) assms(2) that(2)] .
  with False show ?thesis by (auto simp: find_None_iff postings_spec_def posting_of_def)
qed

section \<open>The candidates of a query are a scan of the chunks\<close>

definition hits :: "string \<Rightarrow> document_chunk \<Rightarrow> nat" where
  "hits query c = card (set (analyzeTerms query) \<inter> set (chunk_terms c))"

text \<open>The weight of a term in a chunk, and the result a scan gives for a chunk.\<close>

definition scan_weight :: "'s fp_ops \<Rightarrow> document_chunk list \<Rightarrow> document_chunk \<Rightarrow> string \<Rightarrow> 's" where
  "scan_weight fp cs c t =
    term_weight fp (count_list (chunk_terms c) t) (idf fp (length cs) (length (postings_spec cs t)))"

definition scan_weights :: "'s fp_ops \<Rightarrow> document_chunk list \<Rightarrow> string list \<Rightarrow> document_chunk \<Rightarrow> 's list" where
  "scan_weights fp cs ts c = map (scan_weight fp cs c) (filter (\<lambda>t. t \<in> set (chunk_terms c)) ts)"

definition scan_result :: "'s fp_ops \<Rightarrow> document_chunk list \<Rightarrow> string list \<Rightarrow> document_chunk \<Rightarrow> 's search_result" where
  "scan_result fp cs ts c =
    (let ws = scan_weights fp cs ts c
     in \<lparr>result_chunk = c, result_matched = length ws,
         result_score = foldl (fp_add fp) (fp_of_nat fp 0) ws\<rparr>)"

abbreviation service_of :: "document_chunk list \<Rightarrow> search_service" where
  "service_of cs \<equiv> SearchService cs (build_index cs)"

lemma service_fields:
  "service_index (service_of cs) = build_index cs" "document_count (service_of cs) = length cs"
  by (simp_all add: SearchService_def)

lemma findTerm_build:
  "findTerm (build_index cs) t = (if postings_spec cs t = [] then None else Some (postings_spec cs t))"
  unfolding build_index_def by (rule inverted.lookup_build)

lemma score_term_service:
  "score_term fp (service_of cs) t m =
    fold (\<lambda>p. update_candidate fp (posting_chunk p)
        (term_weight fp (term_frequency p) (idf fp (length cs) (length (postings_spec cs t)))))
      (postings_spec cs t) m"
  by (simp add: score_term_def service_fields findTerm_build)

lemma score_term_chunk:
  assumes "distinct (map chunk_id cs)" and "c \<in> set cs"
  shows "map_of (score_term fp (service_of cs) t m) (chunk_id c) =
    (if t \<in> set (chunk_terms c) then touch_opt fp (scan_weight fp cs c t) (map_of m (chunk_id c))
     else map_of m (chunk_id c))"
  by (simp add: score_term_service fold_update_candidate postings_spec_distinct postings_spec_find assms
      scan_weight_def posting_of_def)

lemma fold_score_term_chunk:
  assumes "distinct (map chunk_id cs)" and "c \<in> set cs"
  shows "map_of (fold (score_term fp (service_of cs)) ts m) (chunk_id c) =
    fold (touch_opt fp) (scan_weights fp cs ts c) (map_of m (chunk_id c))"
proof (induction ts arbitrary: m)
  case Nil
  then show ?case by (simp add: scan_weights_def)
next
  case (Cons t ts)
  have "map_of (fold (score_term fp (service_of cs)) (t # ts) m) (chunk_id c) =
      fold (touch_opt fp) (scan_weights fp cs ts c) (map_of (score_term fp (service_of cs) t m) (chunk_id c))"
    by (simp add: Cons)
  then show ?case by (simp add: score_term_chunk [OF assms] scan_weights_def)
qed

lemma fold_touch_fields:
  "matched_terms (fold (touch fp) ws c) = matched_terms c + length ws"
  "cand_score (fold (touch fp) ws c) = foldl (fp_add fp) (cand_score c) ws"
  by (induction ws arbitrary: c) (simp_all add: touch_def)

lemma fold_touch_opt_Some: "fold (touch_opt fp) ws (Some c) = Some (fold (touch fp) ws c)"
  by (induction ws arbitrary: c) (simp_all add: touch_opt_def)

lemma fold_touch_opt:
  "fold (touch_opt fp) ws None = (if ws = [] then None else Some (fold (touch fp) ws (zero_candidate fp)))"
  by (cases ws) (simp_all add: touch_opt_def fold_touch_opt_Some)

text \<open>Keys of the candidate table: distinct, and ids of chunks only.\<close>

lemma set_keys_update: "fst ` set (update_candidate fp k w m) = insert k (fst ` set m)"
proof -
  have "set (map fst (update_candidate fp k w m)) = insert k (set (map fst m))"
    unfolding keys_update_candidate by auto
  then show ?thesis by simp
qed

lemma set_keys_fold_update:
  "fst ` set (fold (\<lambda>p. update_candidate fp (posting_chunk p) (w p)) ps m) =
    fst ` set m \<union> posting_chunk ` set ps"
  by (induction ps arbitrary: m) (simp_all add: set_keys_update)

lemma score_term_keys:
  assumes "distinct (map fst m)" and "fst ` set m \<subseteq> chunk_id ` set cs"
  shows "distinct (map fst (score_term fp (service_of cs) t m)) \<and>
    fst ` set (score_term fp (service_of cs) t m) \<subseteq> chunk_id ` set cs"
proof
  show "distinct (map fst (score_term fp (service_of cs) t m))"
    unfolding score_term_service by (rule fold_update_distinct [OF assms(1)])
  have "posting_chunk ` set (postings_spec cs t) \<subseteq> chunk_id ` set cs"
    by (auto simp: postings_spec_def posting_of_def)
  with assms(2) show "fst ` set (score_term fp (service_of cs) t m) \<subseteq> chunk_id ` set cs"
    unfolding score_term_service set_keys_fold_update by simp
qed

lemma fold_score_term_keys:
  "distinct (map fst m) \<Longrightarrow> fst ` set m \<subseteq> chunk_id ` set cs \<Longrightarrow>
    distinct (map fst (fold (score_term fp (service_of cs)) ts m)) \<and>
    fst ` set (fold (score_term fp (service_of cs)) ts m) \<subseteq> chunk_id ` set cs"
proof (induction ts arbitrary: m)
  case Nil
  then show ?case by simp
next
  case (Cons t ts)
  from score_term_keys [OF Cons.prems] show ?case using Cons.IH by simp
qed

section \<open>Collecting and ranking\<close>

lemma chunks_by_id_service:
  assumes "distinct (map chunk_id cs)"
  shows "map_of (chunks_by_id (service_of cs)) cid = find (\<lambda>c. chunk_id c = cid) cs"
proof -
  have "distinct (map fst (m @ map (\<lambda>c. (chunk_id c, c)) cs)) \<Longrightarrow>
      fold (\<lambda>c. emplace (chunk_id c) c) cs m = m @ map (\<lambda>c. (chunk_id c, c)) cs" for m
    by (induction cs arbitrary: m) (simp_all add: emplace_fresh)
  from this [of "[]"] assms
  have "chunks_by_id (service_of cs) = map (\<lambda>c. (chunk_id c, c)) cs"
    by (simp add: SearchService_def comp_def)
  moreover have "map_of (map (\<lambda>c. (chunk_id c, c)) ds) cid = find (\<lambda>c. chunk_id c = cid) ds" for ds
    by (induction ds) auto
  ultimately show ?thesis by simp
qed

lemma length_scan_weights:
  assumes "distinct ts" and "set ts = set (analyzeTerms query)"
  shows "length (scan_weights fp cs ts c) = hits query c"
proof -
  have "length (scan_weights fp cs ts c) = card (set (filter (\<lambda>t. t \<in> set (chunk_terms c)) ts))"
    using assms(1) by (simp add: scan_weights_def distinct_card [symmetric])
  also have "set (filter (\<lambda>t. t \<in> set (chunk_terms c)) ts) = set (analyzeTerms query) \<inter> set (chunk_terms c)"
    using assms(2) by auto
  finally show ?thesis by (simp add: hits_def)
qed

lemma scan_weights_Nil_iff:
  assumes "distinct ts" and "set ts = set (analyzeTerms query)"
  shows "scan_weights fp cs ts c = [] \<longleftrightarrow> hits query c = 0"
  using length_scan_weights [OF assms, of fp cs c] by (metis length_0_conv)

text \<open>The collected results as a multiset.\<close>

lemma mset_concat_map_cong:
  assumes "mset xs = mset ys"
  shows "mset (concat (map f xs)) = mset (concat (map f ys))"
proof -
  have "mset (concat (map f zs)) = sum_mset (image_mset (\<lambda>z. mset (f z)) (mset zs))" for zs
    by (induction zs) simp_all
  with assms show ?thesis by simp
qed

lemma assoc_list_mset:
  assumes "distinct (map fst m)" and "distinct (map fst m')" and "map_of m = map_of m'"
  shows "mset m = mset m'"
proof -
  have "set m = set m'" using map_of_inject_set [OF assms(1,2)] assms(3) by simp
  moreover have "distinct m" "distinct m'" using assms(1,2) by (simp_all add: distinct_map)
  ultimately show ?thesis by (simp add: set_eq_iff_mset_eq_distinct)
qed

lemma map_of_filtered_ids:
  assumes "distinct (map chunk_id cs)"
  shows "map_of (map (\<lambda>c. (chunk_id c, f c)) (filter P cs)) cid =
    (case find (\<lambda>c. chunk_id c = cid) cs of None \<Rightarrow> None | Some c \<Rightarrow> if P c then Some (f c) else None)"
  using assms
proof (induction cs)
  case Nil
  then show ?case by simp
next
  case (Cons a cs)
  show ?case
  proof (cases "chunk_id a = cid")
    case True
    then have "find (\<lambda>c. chunk_id c = cid) cs = None"
      using Cons.prems by (simp add: find_None_iff) (metis imageI)
    with Cons True show ?thesis by simp
  next
    case False
    with Cons show ?thesis by simp
  qed
qed

lemma collect_known:
  assumes "distinct (map chunk_id cs)" and "set ds \<subseteq> set cs"
  shows "collect (service_of cs) (map (\<lambda>c. (chunk_id c, cd c)) ds) =
    map (\<lambda>c. \<lparr>result_chunk = c, result_matched = matched_terms (cd c), result_score = cand_score (cd c)\<rparr>) ds"
proof -
  have "map_of (chunks_by_id (service_of cs)) (chunk_id c) = Some c" if "c \<in> set cs" for c
    using that find_unique [OF assms(1) that refl] by (simp add: chunks_by_id_service [OF assms(1)])
  with assms(2) show ?thesis by (induction ds) (simp_all add: collect_def)
qed

lemma collect_mset:
  assumes ids: "distinct (map chunk_id cs)"
    and keys: "distinct (map fst m)" "fst ` set m \<subseteq> chunk_id ` set cs"
    and cand: "\<And>c. c \<in> set cs \<Longrightarrow> map_of m (chunk_id c) = (if P c then Some (cd c) else None)"
  shows "mset (collect (service_of cs) m) =
    mset (map (\<lambda>c. \<lparr>result_chunk = c, result_matched = matched_terms (cd c),
                     result_score = cand_score (cd c)\<rparr>) (filter P cs))"
proof -
  let ?m = "map (\<lambda>c. (chunk_id c, cd c)) (filter P cs)"
  have "map_of m cid = map_of ?m cid" for cid
  proof (cases "find (\<lambda>c. chunk_id c = cid) cs")
    case None
    then have "cid \<notin> chunk_id ` set cs" by (auto simp: find_None_iff)
    then have "map_of m cid = None" using keys(2) by (auto simp: map_of_eq_None_iff)
    with None show ?thesis by (simp only: map_of_filtered_ids [OF ids] option.case)
  next
    case (Some c)
    then have "c \<in> set cs" "cid = chunk_id c" by (auto simp: find_Some_iff)
    then show ?thesis using cand Some by (simp only: map_of_filtered_ids [OF ids] option.case)
  qed
  moreover have "distinct (map fst ?m)" using ids by (auto simp: distinct_map inj_on_def)
  ultimately have "mset m = mset ?m" using keys(1) by (intro assoc_list_mset ext)
  then have "mset (collect (service_of cs) m) = mset (collect (service_of cs) ?m)"
    unfolding collect_def by (rule mset_concat_map_cong)
  then show ?thesis by (simp only: collect_known [OF ids filter_is_subset])
qed

lemma rank_key_inj:
  assumes "distinct (map chunk_id (map result_chunk rs))"
  shows "inj_on rank_key (set rs)"
  using assms by (auto simp: inj_on_def rank_key_def distinct_map)

lemma rank_results_eq_take: "rank_results rs k = take k (sort_key rank_key rs)"
  by (simp add: rank_results_def)

text \<open>Any list with the same results that is sorted by \<open>ranksHigher\<close> is the sorted list.\<close>

lemma rank_unique:
  assumes "mset ys = mset rs" and "sorted_wrt ranksHigher ys"
  shows "sort_key rank_key rs = ys"
proof -
  have "sorted_wrt (<) (map rank_key ys)"
    using assms(2) by (simp add: sorted_wrt_map ranksHigher_fun)
  then have "sorted (map rank_key ys)" and "distinct (map rank_key ys)"
    by (simp_all add: strict_sorted_iff)
  then have inj: "inj_on rank_key (set ys)" by (simp add: distinct_map)
  have "inj_on rank_key (set rs)" using inj mset_eq_setD [OF assms(1)] by simp
  with assms(1) \<open>sorted (map rank_key ys)\<close> show ?thesis
    by (intro sort_key_inj_key_eq) simp_all
qed

lemma sort_rank_sorted:
  assumes "distinct (map chunk_id (map result_chunk rs))"
  shows "sorted_wrt ranksHigher (sort_key rank_key rs)"
proof -
  have "inj_on rank_key (set rs)" and "distinct rs"
    using rank_key_inj [OF assms] assms by (simp_all add: distinct_map)
  then have "distinct (map rank_key (sort_key rank_key rs))" by (simp add: distinct_map)
  then have "sorted_wrt (<) (map rank_key (sort_key rank_key rs))" by (simp add: strict_sorted_iff)
  then show ?thesis by (simp add: sorted_wrt_map ranksHigher_fun)
qed

definition set_iteration :: "(string list \<Rightarrow> string list) \<Rightarrow> bool" where
  "set_iteration order \<longleftrightarrow> (\<forall>ts. distinct (order ts) \<and> set (order ts) = set ts)"

definition scan_all ::
    "('s :: linorder) fp_ops \<Rightarrow> (string list \<Rightarrow> string list) \<Rightarrow> document_chunk list \<Rightarrow> string \<Rightarrow> 's search_result list" where
  "scan_all fp order cs query =
    map (scan_result fp cs (order (analyzeTerms query))) (filter (\<lambda>c. 0 < hits query c) cs)"

lemma scan_all_chunks: "map result_chunk (scan_all fp order cs query) = filter (\<lambda>c. 0 < hits query c) cs"
  by (simp add: scan_all_def scan_result_def Let_def comp_def)

lemma scan_all_distinct:
  "distinct (map chunk_id cs) \<Longrightarrow>
    distinct (map chunk_id (map result_chunk (scan_all fp order cs query)))"
  unfolding scan_all_chunks by (auto simp: distinct_map inj_on_def)

lemma search_scan:
  assumes order: "set_iteration order" and ids: "distinct (map chunk_id cs)"
  shows "search fp order (service_of cs) query k = take k (sort_key rank_key (scan_all fp order cs query))"
proof (cases "k = 0 \<or> cs = []")
  case True
  then show ?thesis by (auto simp: search_def service_fields scan_all_def)
next
  case False
  let ?ts = "order (analyzeTerms query)"
  let ?m = "fold (score_term fp (service_of cs)) ?ts []"
  let ?cd = "\<lambda>c. fold (touch fp) (scan_weights fp cs ?ts c) (zero_candidate fp)"
  have ts: "distinct ?ts" "set ?ts = set (analyzeTerms query)"
    using order by (simp_all add: set_iteration_def)
  have keys: "distinct (map fst ?m)" "fst ` set ?m \<subseteq> chunk_id ` set cs"
    using fold_score_term_keys [of "[]" cs fp ?ts] by simp_all
  have cand: "map_of ?m (chunk_id c) = (if 0 < hits query c then Some (?cd c) else None)"
    if "c \<in> set cs" for c
    using fold_score_term_chunk [OF ids that, of fp ?ts "[]"]
    by (simp add: fold_touch_opt scan_weights_Nil_iff [OF ts])
  have "mset (collect (service_of cs) ?m) = mset (scan_all fp order cs query)"
    using collect_mset [OF ids keys cand]
    by (simp add: scan_all_def scan_result_def [abs_def] Let_def fold_touch_fields zero_candidate_def)
  then have "sort_key rank_key (scan_all fp order cs query) = sort_key rank_key (collect (service_of cs) ?m)"
    using sort_rank_sorted [OF scan_all_distinct [OF ids], of fp order query]
    by (intro rank_unique [symmetric]) simp_all
  with False show ?thesis
    by (simp add: search_def service_fields rank_results_eq_take Let_def)
qed

section \<open>Properties\<close>

text \<open>C9: searching through the inverted index gives what scanning every chunk would: the chunks
  that hold at least one query term, with the number of distinct query terms they hold and their
  score, ranked and cut to the best \<open>k\<close>.\<close>
theorem search_equals_scan:
  assumes "set_iteration order" and "distinct (map chunk_id cs)"
  shows "search fp order (service_of cs) query k =
    take k (sort_key rank_key (scan_all fp order cs query))"
  by (rule search_scan [OF assms])

text \<open>C15: the results are strictly ranked (more matched terms first, then the higher score, then the
  smaller id), there are exactly as many as there are matching chunks or \<open>k\<close>, every result
  matches the query and reports the right number of matched terms, and every matching chunk that is
  left out is outranked by every result.\<close>
theorem search_ranks_best:
  assumes "set_iteration order" and "distinct (map chunk_id cs)"
  shows "let rs = search fp order (service_of cs) query k in
    sorted_wrt ranksHigher rs \<and>
    length rs = min k (length (filter (\<lambda>c. 0 < hits query c) cs)) \<and>
    (\<forall>r \<in> set rs. result_chunk r \<in> set cs \<and> result_matched r = hits query (result_chunk r) \<and>
       0 < result_matched r) \<and>
    (\<forall>u \<in> set (scan_all fp order cs query). u \<notin> set rs \<longrightarrow> (\<forall>r \<in> set rs. ranksHigher r u))"
proof -
  let ?all = "scan_all fp order cs query"
  let ?sorted = "sort_key rank_key ?all"
  have sorted: "sorted_wrt ranksHigher ?sorted"
    by (rule sort_rank_sorted [OF scan_all_distinct [OF assms(2)]])
  have ts: "distinct (order (analyzeTerms query))" "set (order (analyzeTerms query)) = set (analyzeTerms query)"
    using assms(1) by (simp_all add: set_iteration_def)
  have all: "result_chunk r \<in> set cs \<and> result_matched r = hits query (result_chunk r) \<and> 0 < result_matched r"
    if "r \<in> set (take k ?sorted)" for r
    using in_set_takeD [OF that]
    by (auto simp: scan_all_def scan_result_def Let_def length_scan_weights [OF ts]
        scan_weights_Nil_iff [OF ts])
  have split: "sorted_wrt ranksHigher (take k ?sorted @ drop k ?sorted)" using sorted by simp
  have rest: "u \<in> set (drop k ?sorted)" if "u \<in> set ?all" "u \<notin> set (take k ?sorted)" for u
    using that set_append [of "take k ?sorted" "drop k ?sorted"] by auto
  have out: "ranksHigher r u" if "u \<in> set ?all" "u \<notin> set (take k ?sorted)" "r \<in> set (take k ?sorted)" for u r
    using rest [OF that(1,2)] that(3) split unfolding sorted_wrt_append by blast
  have len: "length (take k ?sorted) = min k (length (filter (\<lambda>c. 0 < hits query c) cs))"
    by (simp add: scan_all_def)
  show ?thesis unfolding search_scan [OF assms] Let_def
    using sorted_wrt_take [OF sorted] len all out by blast
qed

text \<open>the ranking does not depend on the sorting algorithm: any arrangement of the collected
  results that is in order for \<open>ranksHigher\<close> starts with the results the model returns.\<close>
theorem ranking_unique:
  assumes "mset ys = mset results" and "sorted_wrt ranksHigher ys"
  shows "rank_results results k = take k ys"
  unfolding rank_results_eq_take by (simp only: rank_unique [OF assms])

text \<open>Concrete data for the witnesses: integer arithmetic in place of \<open>double\<close>.\<close>

definition int_ops :: "int fp_ops" where
  "int_ops = \<lparr>fp_of_nat = int, fp_add = (+), fp_mul = (*), fp_div = (div), fp_log = (\<lambda>x. x),
     fp_log1p = (\<lambda>x. x + 1), fp_fixed6 = (\<lambda>x. to_string (nat x) @ ''.000000'')\<rparr>"

definition sample_chunks :: "document_chunk list" where
  "sample_chunks = [sample_chunk 0 ''x'', sample_chunk 1 ''z'', sample_chunk 2 ''y x'']"

lemma set_iteration_remdups: "set_iteration remdups"
  by (simp add: set_iteration_def)

lemma sample_chunks_distinct: "distinct (map chunk_id sample_chunks)"
  by code_simp

theorem search_equals_scan_witness:
  "map (\<lambda>r. (chunk_id (result_chunk r), result_matched r))
     (search int_ops remdups (service_of sample_chunks) ''x y'' 10) = [(2, 2), (0, 1)]"
proof -
  have "map (\<lambda>r. (chunk_id (result_chunk r), result_matched r))
      (take 10 (sort_key rank_key (scan_all int_ops remdups sample_chunks ''x y'')))
      = [(2, 2), (0, 1)]" by code_simp
  then show ?thesis
    by (simp only: search_equals_scan [OF set_iteration_remdups sample_chunks_distinct])
qed

theorem search_ranks_best_witness:
  "length (search int_ops remdups (service_of sample_chunks) ''x y'' 1) = 1"
proof -
  have "length (filter (\<lambda>c. 0 < hits ''x y'' c) sample_chunks) = 2" by code_simp
  then show ?thesis
    using search_ranks_best [OF set_iteration_remdups sample_chunks_distinct, of int_ops "''x y''" 1]
    by (simp add: Let_def)
qed

definition sample_result :: "nat \<Rightarrow> nat \<Rightarrow> int \<Rightarrow> int search_result" where
  "sample_result i m s =
    \<lparr>result_chunk = sample_chunk i ''x'', result_matched = m, result_score = s\<rparr>"

theorem ranking_unique_witness:
  "rank_results [sample_result 5 1 9, sample_result 1 2 3, sample_result 0 1 9] 2 =
     [sample_result 1 2 3, sample_result 0 1 9]"
proof -
  let ?ys = "[sample_result 1 2 3, sample_result 0 1 9, sample_result 5 1 9]"
  have 1: "mset ?ys = mset [sample_result 5 1 9, sample_result 1 2 3, sample_result 0 1 9]" by simp
  have 2: "sorted_wrt ranksHigher ?ys" by code_simp
  from ranking_unique [OF 1 2, of 2] show ?thesis by simp
qed

end
