(* ===== verification/LruCache.thy ===== *)
theory LruCache
  imports Prelude "HOL-Library.AList"
begin

text \<open>
  \<open>src/search/LruCache.h\<close>, \<open>src/search/LruCache.cc\<close>: the worker-local cache with a
  capacity and a time to live. The recency list is a list of nodes; an iterator into it is the
  identity of a node, so an entry's \<open>lru_position\<close> can dangle and the invariant has to say it
  does not. The clock is an argument. The mutex makes each operation one atomic step. The cache
  refines a list of (key, value, expiry) triples, most recently used first.
\<close>

section \<open>Model\<close>

record lru_entry =
  entry_value :: string
  lru_position :: nat
  expires_at :: time_point

record lru_stats =
  hit_count :: u64
  miss_count :: u64
  expiration_count :: u64
  eviction_count :: u64

record lru_cache =
  capacity :: nat
  ttl :: int
  lru_keys :: "(nat \<times> string) list"
  next_node :: nat
  entries :: "(string \<times> lru_entry) list"
  stats :: lru_stats

datatype invalid_argument = Invalid_argument string

definition zero_stats :: lru_stats where
  "zero_stats = \<lparr>hit_count = 0, miss_count = 0, expiration_count = 0, eviction_count = 0\<rparr>"

definition LruCache :: "nat \<Rightarrow> int \<Rightarrow> invalid_argument + lru_cache" where
  "LruCache cap ttl_ms =
    (if cap = 0 then Inl (Invalid_argument ''LRU cache capacity must be positive'')
     else if ttl_ms \<le> 0 then Inl (Invalid_argument ''LRU cache TTL must be positive'')
     else Inr \<lparr>capacity = cap, ttl = ttl_ms, lru_keys = [], next_node = 0, entries = [],
               stats = zero_stats\<rparr>)"

text \<open>\<open>std::list::erase\<close> and \<open>std::list::splice\<close> to the front, of the node with a given identity.\<close>

definition erase_node :: "nat \<Rightarrow> (nat \<times> string) list \<Rightarrow> (nat \<times> string) list" where
  "erase_node p keys = filter (\<lambda>n. fst n \<noteq> p) keys"

definition splice_front :: "nat \<Rightarrow> (nat \<times> string) list \<Rightarrow> (nat \<times> string) list" where
  "splice_front p keys = filter (\<lambda>n. fst n = p) keys @ erase_node p keys"

definition add_hit :: "lru_stats \<Rightarrow> lru_stats" where
  "add_hit s = s\<lparr>hit_count := hit_count s + 1\<rparr>"

definition add_miss :: "lru_stats \<Rightarrow> lru_stats" where
  "add_miss s = s\<lparr>miss_count := miss_count s + 1\<rparr>"

definition add_expiration :: "lru_stats \<Rightarrow> lru_stats" where
  "add_expiration s = s\<lparr>expiration_count := expiration_count s + 1\<rparr>"

definition add_eviction :: "lru_stats \<Rightarrow> lru_stats" where
  "add_eviction s = s\<lparr>eviction_count := eviction_count s + 1\<rparr>"

definition lru_get :: "time_point \<Rightarrow> string \<Rightarrow> lru_cache \<Rightarrow> string option \<times> lru_cache" where
  "lru_get now key c =
    (case map_of (entries c) key of
       None \<Rightarrow> (None, c\<lparr>stats := add_miss (stats c)\<rparr>)
     | Some entry \<Rightarrow>
         if now \<ge> expires_at entry then
           (None, c\<lparr>lru_keys := erase_node (lru_position entry) (lru_keys c),
                    entries := AList.delete key (entries c),
                    stats := add_expiration (add_miss (stats c))\<rparr>)
         else
           (Some (entry_value entry),
            c\<lparr>lru_keys := splice_front (lru_position entry) (lru_keys c),
              stats := add_hit (stats c)\<rparr>))"

text \<open>Time points are nanoseconds, the time to live is milliseconds.\<close>

definition expiry :: "time_point \<Rightarrow> lru_cache \<Rightarrow> time_point" where
  "expiry now c = now + ttl c * 1000000"

definition lru_put :: "time_point \<Rightarrow> string \<Rightarrow> string \<Rightarrow> lru_cache \<Rightarrow> lru_cache" where
  "lru_put now key val c =
    (case map_of (entries c) key of
       Some entry \<Rightarrow>
         c\<lparr>entries := AList.update key (entry\<lparr>entry_value := val, expires_at := expiry now c\<rparr>) (entries c),
           lru_keys := splice_front (lru_position entry) (lru_keys c)\<rparr>
     | None \<Rightarrow>
         let c1 = c\<lparr>lru_keys := (next_node c, key) # lru_keys c,
                    next_node := next_node c + 1,
                    entries := emplace key \<lparr>entry_value = val, lru_position = next_node c,
                                            expires_at = expiry now c\<rparr> (entries c)\<rparr>
         in if length (entries c1) > capacity c1 then
              c1\<lparr>entries := AList.delete (snd (last (lru_keys c1))) (entries c1),
                 lru_keys := butlast (lru_keys c1),
                 stats := add_eviction (stats c1)\<rparr>
            else c1)"

section \<open>The interface of a value cache\<close>

text \<open>
  What a client of a cache relies on: if every stored pair satisfies a predicate (and so does every
  pair the environment may deliver), then a value that is found does, and storing a pair that does
  keeps it so; and when the cache is usable, no operation raises.
\<close>

definition memo ::
    "('t \<Rightarrow> 'k \<Rightarrow> 's \<Rightarrow> 'e + ('v option \<times> 's)) \<Rightarrow> ('t \<Rightarrow> 'k \<Rightarrow> 'v \<Rightarrow> 's \<Rightarrow> 'e + 's) \<Rightarrow>
      ('k \<Rightarrow> 'v) \<Rightarrow> 't \<Rightarrow> 'k \<Rightarrow> 's \<Rightarrow> 'e + ('v \<times> 's)" where
  "memo get put f t k s =
    (case get t k s of
       Inl e \<Rightarrow> Inl e
     | Inr (Some v, s') \<Rightarrow> Inr (v, s')
     | Inr (None, s') \<Rightarrow> (case put t k (f k) s' of Inl e \<Rightarrow> Inl e | Inr s'' \<Rightarrow> Inr (f k, s'')))"

locale value_cache =
  fixes usable :: "'s \<Rightarrow> bool"
    and sound :: "('k \<Rightarrow> 'v \<Rightarrow> bool) \<Rightarrow> 's \<Rightarrow> bool"
    and env_sound :: "('k \<Rightarrow> 'v \<Rightarrow> bool) \<Rightarrow> 't \<Rightarrow> bool"
    and get :: "'t \<Rightarrow> 'k \<Rightarrow> 's \<Rightarrow> 'e + ('v option \<times> 's)"
    and put :: "'t \<Rightarrow> 'k \<Rightarrow> 'v \<Rightarrow> 's \<Rightarrow> 'e + 's"
  assumes get_sound: "sound P s \<Longrightarrow> env_sound P t \<Longrightarrow> get t k s = Inr (r, s') \<Longrightarrow>
      sound P s' \<and> (\<forall>v. r = Some v \<longrightarrow> P k v)"
    and put_sound: "sound P s \<Longrightarrow> P k v \<Longrightarrow> put t k v s = Inr s' \<Longrightarrow> sound P s'"
    and get_usable: "usable s \<Longrightarrow> \<exists>r s'. get t k s = Inr (r, s') \<and> usable s'"
    and put_usable: "usable s \<Longrightarrow> \<exists>s'. put t k v s = Inr s' \<and> usable s'"
begin

lemma memo_transparent:
  assumes "usable s" and "sound P s" and "env_sound P t" and "\<And>v. P k v \<longleftrightarrow> v = f k"
  shows "\<exists>s'. memo get put f t k s = Inr (f k, s') \<and> usable s' \<and> sound P s'"
proof -
  obtain r s1 where get: "get t k s = Inr (r, s1)" "usable s1" using get_usable [OF assms(1)] by blast
  note s1 = get_sound [OF assms(2,3) get(1)]
  obtain s2 where put: "put t k (f k) s1 = Inr s2" "usable s2" using put_usable [OF get(2)] by blast
  have "sound P s2" using put_sound [OF _ _ put(1)] s1 assms(4) by blast
  with get put s1 assms(4) show ?thesis by (cases r) (simp_all add: memo_def)
qed

end

section \<open>The invariant\<close>

definition lru_inv :: "lru_cache \<Rightarrow> bool" where
  "lru_inv c \<longleftrightarrow>
     0 < capacity c \<and>
     distinct (map fst (lru_keys c)) \<and> distinct (map snd (lru_keys c)) \<and>
     (\<forall>n \<in> set (lru_keys c). fst n < next_node c) \<and>
     distinct (map fst (entries c)) \<and>
     fst ` set (entries c) = snd ` set (lru_keys c) \<and>
     (\<forall>(k, e) \<in> set (entries c). (lru_position e, k) \<in> set (lru_keys c)) \<and>
     length (lru_keys c) \<le> capacity c"

lemma lru_inv_length: "lru_inv c \<Longrightarrow> length (entries c) = length (lru_keys c)"
  unfolding lru_inv_def by (metis distinct_card length_map list.set_map)

lemma lru_inv_position:
  "lru_inv c \<Longrightarrow> map_of (entries c) k = Some e \<Longrightarrow> (lru_position e, k) \<in> set (lru_keys c)"
  by (auto simp: lru_inv_def dest!: map_of_SomeD)

lemma lru_inv_lookup: "lru_inv c \<Longrightarrow> map_of (entries c) k = None \<longleftrightarrow> k \<notin> snd ` set (lru_keys c)"
  by (simp add: lru_inv_def map_of_eq_None_iff)

text \<open>In a list of nodes with distinct identities and distinct keys, selecting by the identity of a
  node is selecting by its key.\<close>

lemma node_by_key:
  assumes "distinct (map fst keys)" and "distinct (map snd keys)" and "(p, k) \<in> set keys" and "n \<in> set keys"
  shows "fst n = p \<longleftrightarrow> snd n = k"
  using assms by (metis distinct_map fst_conv inj_onD snd_conv)

lemma erase_node_by_key:
  assumes "distinct (map fst keys)" and "distinct (map snd keys)" and "(p, k) \<in> set keys"
  shows "erase_node p keys = filter (\<lambda>n. snd n \<noteq> k) keys"
  unfolding erase_node_def using node_by_key [OF assms] by (intro filter_cong) auto

lemma position_unique:
  assumes "distinct (map fst keys)" and "distinct (map snd keys)" and "(p, k) \<in> set keys"
  shows "(p :: nat) \<notin> fst ` set (filter (\<lambda>n. snd n \<noteq> (k :: string)) keys)"
  unfolding erase_node_by_key [OF assms, symmetric] by (auto simp: erase_node_def)

lemma splice_front_by_key:
  assumes "distinct (map fst keys)" and "distinct (map snd keys)" and "(p, k) \<in> set keys"
  shows "splice_front p keys = (p, k) # filter (\<lambda>n. snd n \<noteq> k) keys"
proof -
  have "filter (\<lambda>n. fst n = p) keys = [(p, k)]"
    using assms(1,3) by (induction keys) (auto simp: filter_empty_conv rev_image_eqI)
  then show ?thesis by (simp add: splice_front_def erase_node_by_key [OF assms])
qed

text \<open>The same invariant on lookups, which is how the operations are described.\<close>

definition nodes_ok :: "(string \<Rightarrow> lru_entry option) \<Rightarrow> (nat \<times> string) list \<Rightarrow> nat \<Rightarrow> bool" where
  "nodes_ok m ns nx \<longleftrightarrow>
     distinct (map fst ns) \<and> distinct (map snd ns) \<and> (\<forall>n \<in> set ns. fst n < nx) \<and>
     dom m = snd ` set ns \<and> (\<forall>k e. m k = Some e \<longrightarrow> (lru_position e, k) \<in> set ns)"

lemma lru_inv_iff:
  "lru_inv c \<longleftrightarrow>
     0 < capacity c \<and> nodes_ok (map_of (entries c)) (lru_keys c) (next_node c) \<and>
     distinct (map fst (entries c)) \<and> length (lru_keys c) \<le> capacity c"
  unfolding lru_inv_def nodes_ok_def dom_map_of_conv_image_fst
  by (auto dest!: map_of_SomeD)

lemma nodes_ok_erase:
  assumes "nodes_ok m ns nx" and "m k = Some e"
  shows "nodes_ok (m(k := None)) (filter (\<lambda>n. snd n \<noteq> k) ns) nx"
  using assms unfolding nodes_ok_def by (auto simp: distinct_map_filter)

lemma nodes_ok_front:
  assumes ok: "nodes_ok m ns nx" and m: "m k = Some e"
  shows "nodes_ok m ((lru_position e, k) # filter (\<lambda>n. snd n \<noteq> k) ns) nx"
proof -
  have pos: "(lru_position e, k) \<in> set ns" using assms by (simp add: nodes_ok_def)
  have d: "distinct (map fst ns)" "distinct (map snd ns)" using ok by (simp_all add: nodes_ok_def)
  have "dom m = snd ` set ((lru_position e, k) # filter (\<lambda>n. snd n \<noteq> k) ns)"
    using ok pos by (fastforce simp: nodes_ok_def image_iff)
  moreover have "(lru_position e', k') \<in> set ((lru_position e, k) # filter (\<lambda>n. snd n \<noteq> k) ns)"
    if "m k' = Some e'" for k' e'
    using ok m that by (cases "k' = k") (auto simp: nodes_ok_def)
  moreover have "distinct (map snd ((lru_position e, k) # filter (\<lambda>n. snd n \<noteq> k) ns))"
    using d by (auto simp: distinct_map_filter)
  moreover have "distinct (map fst ((lru_position e, k) # filter (\<lambda>n. snd n \<noteq> k) ns))"
    using position_unique [OF d pos] d by (auto simp: distinct_map_filter)
  moreover have "\<forall>n \<in> set ((lru_position e, k) # filter (\<lambda>n. snd n \<noteq> k) ns). fst n < nx"
    using ok pos by (auto simp: nodes_ok_def)
  ultimately show ?thesis by (simp only: nodes_ok_def) simp
qed

lemma nodes_ok_value:
  assumes "nodes_ok m ns nx" and "m k = Some e" and "lru_position e' = lru_position e"
  shows "nodes_ok (m(k \<mapsto> e')) ns nx"
  using assms unfolding nodes_ok_def by (auto simp: dom_def)

lemma nodes_ok_fresh:
  assumes ok: "nodes_ok m ns nx" and m: "m k = None" and e: "lru_position e = nx"
  shows "nodes_ok (m(k \<mapsto> e)) ((nx, k) # ns) (nx + 1)"
proof -
  have "k \<notin> snd ` set ns" using ok m by (auto simp: nodes_ok_def)
  moreover have "nx \<notin> fst ` set ns" using ok by (auto simp: nodes_ok_def)
  moreover have "dom (m(k \<mapsto> e)) = snd ` set ((nx, k) # ns)" using ok by (auto simp: nodes_ok_def)
  moreover have "(lru_position e', k') \<in> set ((nx, k) # ns)" if "(m(k \<mapsto> e)) k' = Some e'" for k' e'
    using ok e that by (auto simp: nodes_ok_def split: if_splits)
  moreover have "\<forall>n \<in> set ((nx, k) # ns). fst n < nx + 1" using ok by (auto simp: nodes_ok_def less_Suc_eq)
  ultimately show ?thesis using ok by (auto simp: nodes_ok_def simp del: fun_upd_apply dom_fun_upd)
qed

section \<open>The abstract cache\<close>

definition lru_abs :: "lru_cache \<Rightarrow> (string \<times> string \<times> time_point) list" where
  "lru_abs c =
    map (\<lambda>n. (snd n, case map_of (entries c) (snd n) of
                       Some e \<Rightarrow> (entry_value e, expires_at e) | None \<Rightarrow> ([], 0)))
      (lru_keys c)"

definition spec_get ::
    "time_point \<Rightarrow> string \<Rightarrow> (string \<times> string \<times> time_point) list \<Rightarrow>
      string option \<times> (string \<times> string \<times> time_point) list" where
  "spec_get now key xs =
    (case map_of xs key of
       None \<Rightarrow> (None, xs)
     | Some (v, t) \<Rightarrow>
         if t \<le> now then (None, filter (\<lambda>x. fst x \<noteq> key) xs)
         else (Some v, (key, v, t) # filter (\<lambda>x. fst x \<noteq> key) xs))"

definition spec_put ::
    "nat \<Rightarrow> time_point \<Rightarrow> string \<Rightarrow> string \<Rightarrow> (string \<times> string \<times> time_point) list \<Rightarrow>
      (string \<times> string \<times> time_point) list" where
  "spec_put cap t key v xs = take cap ((key, v, t) # filter (\<lambda>x. fst x \<noteq> key) xs)"

definition tagged :: "(string \<Rightarrow> lru_entry option) \<Rightarrow> nat \<times> string \<Rightarrow> string \<times> string \<times> time_point" where
  "tagged m n = (snd n, case m (snd n) of Some e \<Rightarrow> (entry_value e, expires_at e) | None \<Rightarrow> ([], 0))"

lemma lru_abs_tagged: "lru_abs c = map (tagged (map_of (entries c))) (lru_keys c)"
  by (simp add: lru_abs_def tagged_def)

lemma tagged_upd [simp]: "snd n \<noteq> k \<Longrightarrow> tagged (m(k := e)) n = tagged m n"
  by (simp add: tagged_def)

lemma fst_tagged [simp]: "fst (tagged m n) = snd n"
  by (simp add: tagged_def)

lemma filter_tagged:
  "filter (\<lambda>x. fst x \<noteq> k) (map (tagged m) ns) = map (tagged m) (filter (\<lambda>n. snd n \<noteq> k) ns)"
  by (simp add: filter_map comp_def)

lemma map_tagged_upd:
  "map (tagged (m(k := e))) (filter (\<lambda>n. snd n \<noteq> k) ns) = map (tagged m) (filter (\<lambda>n. snd n \<noteq> k) ns)"
  by (rule map_cong) auto

lemma map_of_tagged:
  "map_of (map (tagged m) ns) k =
     (if k \<in> snd ` set ns then Some (case m k of Some e \<Rightarrow> (entry_value e, expires_at e) | None \<Rightarrow> ([], 0))
      else None)"
  by (induction ns) (auto simp: tagged_def)

lemma map_of_lru_abs:
  "lru_inv c \<Longrightarrow> map_of (lru_abs c) k = map_option (\<lambda>e. (entry_value e, expires_at e)) (map_of (entries c) k)"
  by (cases "map_of (entries c) k")
    (auto simp: lru_abs_tagged map_of_tagged lru_inv_lookup dest: lru_inv_position intro: rev_image_eqI)

section \<open>Refinement\<close>

lemma splice_front_inv:
  assumes "lru_inv c" and "map_of (entries c) k = Some e"
  shows "splice_front (lru_position e) (lru_keys c) =
      (lru_position e, k) # filter (\<lambda>n. snd n \<noteq> k) (lru_keys c)"
    and "erase_node (lru_position e) (lru_keys c) = filter (\<lambda>n. snd n \<noteq> k) (lru_keys c)"
  using splice_front_by_key [of "lru_keys c" "lru_position e" k]
    erase_node_by_key [of "lru_keys c" "lru_position e" k] lru_inv_position [OF assms] assms(1)
  by (auto simp: lru_inv_def)

lemma filter_length_less: "x \<in> set xs \<Longrightarrow> \<not> P x \<Longrightarrow> length (filter P xs) < length xs"
  by (rule length_filter_less)

lemma stats_irrelevant [simp]:
  "lru_inv (c\<lparr>stats := s\<rparr>) = lru_inv c"
  "lru_abs (c\<lparr>stats := s\<rparr>) = lru_abs c"
  by (simp_all add: lru_inv_def lru_abs_def)

lemma lru_get_refines:
  assumes inv: "lru_inv c" and get: "lru_get now key c = (r, c')"
  shows "lru_inv c' \<and> spec_get now key (lru_abs c) = (r, lru_abs c')"
proof (cases "map_of (entries c) key")
  case None
  then have "map_of (lru_abs c) key = None" by (simp add: map_of_lru_abs [OF inv])
  with None inv get show ?thesis by (auto simp: lru_get_def spec_get_def)
next
  case (Some e)
  note pos = lru_inv_position [OF inv Some] and moved = splice_front_inv [OF inv Some]
  have found: "map_of (lru_abs c) key = Some (entry_value e, expires_at e)"
    using Some by (simp add: map_of_lru_abs [OF inv])
  have len: "length (filter (\<lambda>n. snd n \<noteq> key) (lru_keys c)) < capacity c"
    using inv filter_length_less [OF pos, of "\<lambda>n. snd n \<noteq> key"] by (auto simp: lru_inv_def)
  show ?thesis
  proof (cases "expires_at e \<le> now")
    case True
    with Some get have c': "r = None" "c' = c\<lparr>lru_keys := filter (\<lambda>n. snd n \<noteq> key) (lru_keys c),
        entries := AList.delete key (entries c), stats := add_expiration (add_miss (stats c))\<rparr>"
      by (auto simp: lru_get_def moved)
    have "lru_inv c'"
      using inv len nodes_ok_erase [where m = "map_of (entries c)", OF _ Some] unfolding lru_inv_iff c'
      by (simp add: delete_conv' AList.distinct_delete)
    moreover have "spec_get now key (lru_abs c) = (r, lru_abs c')"
      unfolding spec_get_def found using True
      by (simp add: c' lru_abs_tagged filter_tagged delete_conv' map_tagged_upd)
    ultimately show ?thesis ..
  next
    case False
    with Some get have c': "r = Some (entry_value e)" "c' = c\<lparr>lru_keys :=
        (lru_position e, key) # filter (\<lambda>n. snd n \<noteq> key) (lru_keys c), stats := add_hit (stats c)\<rparr>"
      by (auto simp: lru_get_def moved)
    have "lru_inv c'"
      using inv len nodes_ok_front [where m = "map_of (entries c)", OF _ Some] unfolding lru_inv_iff c' by simp
    moreover have "spec_get now key (lru_abs c) = (r, lru_abs c')"
      unfolding spec_get_def found using Some False
      by (simp add: c' lru_abs_tagged filter_tagged) (simp add: tagged_def)
    ultimately show ?thesis ..
  qed
qed

lemma emplace_upd: "map_of m k = None \<Longrightarrow> map_of (emplace k v m) = (map_of m)(k \<mapsto> v)"
  by (simp add: map_of_emplace)

lemma filter_all_neq: "k \<notin> snd ` set ns \<Longrightarrow> filter (\<lambda>n. snd n \<noteq> k) ns = ns"
  by (rule filter_True) auto

text \<open>A fresh node in front, before the capacity is looked at.\<close>

definition push_fresh :: "time_point \<Rightarrow> string \<Rightarrow> string \<Rightarrow> lru_cache \<Rightarrow> lru_cache" where
  "push_fresh now key val c = c\<lparr>lru_keys := (next_node c, key) # lru_keys c,
     next_node := next_node c + 1,
     entries := emplace key \<lparr>entry_value = val, lru_position = next_node c,
                             expires_at = expiry now c\<rparr> (entries c)\<rparr>"

lemma push_fresh_abs:
  assumes "lru_inv c" and "map_of (entries c) key = None"
  shows "lru_abs (push_fresh now key val c) = (key, val, expiry now c) # lru_abs c"
proof -
  have "key \<notin> snd ` set (lru_keys c)" using assms lru_inv_lookup by blast
  then have "map (tagged ((map_of (entries c))(key := x))) (lru_keys c) = map (tagged (map_of (entries c))) (lru_keys c)"
    for x using map_tagged_upd [of "map_of (entries c)" key x "lru_keys c"] by (simp add: filter_all_neq)
  then show ?thesis
    by (simp add: push_fresh_def lru_abs_tagged emplace_upd [OF assms(2)]) (simp add: tagged_def)
qed

lemma push_fresh_inv:
  assumes "lru_inv c" and "map_of (entries c) key = None"
    and "length (lru_keys c) < capacity c"
  shows "lru_inv (push_fresh now key val c)"
  using assms nodes_ok_fresh [where m = "map_of (entries c)", OF _ assms(2)] unfolding lru_inv_iff
  by (simp add: push_fresh_def emplace_upd [OF assms(2)])

lemma last_node:
  assumes "distinct (map snd (ns @ [n]))"
  shows "filter (\<lambda>m. snd m \<noteq> snd n) (ns @ [n]) = ns"
  using assms by (auto intro!: filter_True simp: rev_image_eqI)

lemma lru_put_new:
  assumes "map_of (entries c) key = None"
  shows "lru_put now key val c =
    (let c1 = push_fresh now key val c
     in if length (entries c1) > capacity c1 then
          c1\<lparr>entries := AList.delete (snd (last (lru_keys c1))) (entries c1),
             lru_keys := butlast (lru_keys c1), stats := add_eviction (stats c1)\<rparr>
        else c1)"
  using assms by (simp add: lru_put_def push_fresh_def)

lemma lru_put_existing:
  assumes inv: "lru_inv c" and e: "map_of (entries c) key = Some e"
  shows "lru_inv (lru_put now key val c) \<and>
    lru_abs (lru_put now key val c) = spec_put (capacity c) (expiry now c) key val (lru_abs c)"
proof -
  define e' where "e' = e\<lparr>entry_value := val, expires_at := expiry now c\<rparr>"
  define ns where "ns = filter (\<lambda>n. snd n \<noteq> key) (lru_keys c)"
  have c': "lru_put now key val c = c\<lparr>entries := AList.update key e' (entries c),
      lru_keys := (lru_position e, key) # ns\<rparr>"
    using e by (simp add: lru_put_def splice_front_inv [OF inv e] e'_def ns_def)
  have len: "length ns < capacity c"
    using inv filter_length_less [OF lru_inv_position [OF inv e], of "\<lambda>n. snd n \<noteq> key"]
    by (auto simp: lru_inv_def ns_def)
  have "nodes_ok ((map_of (entries c))(key \<mapsto> e')) ((lru_position e, key) # ns) (next_node c)"
    using nodes_ok_value [OF nodes_ok_front, of "map_of (entries c)" "lru_keys c" "next_node c" key e key e e'] inv e
    by (simp add: lru_inv_iff e'_def ns_def)
  then have "lru_inv (lru_put now key val c)"
    using inv len by (simp add: lru_inv_iff c' update_conv' AList.distinct_update)
  moreover have "lru_abs (lru_put now key val c) = (key, val, expiry now c) # filter (\<lambda>x. fst x \<noteq> key) (lru_abs c)"
    by (simp add: c' lru_abs_tagged update_conv' filter_tagged ns_def map_tagged_upd) (simp add: tagged_def e'_def)
  moreover have "length (filter (\<lambda>x. fst x \<noteq> key) (lru_abs c)) < capacity c"
    using len by (simp add: lru_abs_tagged filter_tagged ns_def)
  ultimately show ?thesis by (simp add: spec_put_def)
qed

lemma abs_absent:
  "lru_inv c \<Longrightarrow> map_of (entries c) key = None \<Longrightarrow> filter (\<lambda>x. fst x \<noteq> key) (lru_abs c) = lru_abs c"
  by (simp add: lru_abs_tagged filter_tagged filter_all_neq lru_inv_lookup)

lemma lru_put_fresh:
  assumes inv: "lru_inv c" and e: "map_of (entries c) key = None"
  shows "lru_inv (lru_put now key val c) \<and>
    lru_abs (lru_put now key val c) = spec_put (capacity c) (expiry now c) key val (lru_abs c)"
proof (cases "length (lru_keys c) < capacity c")
  case True
  let ?c1 = "push_fresh now key val c"
  have "length (entries ?c1) = Suc (length (lru_keys c))"
    using lru_inv_length [OF push_fresh_inv [OF inv e True]] by (simp add: push_fresh_def)
  then have "lru_put now key val c = ?c1"
    using True by (simp add: lru_put_new [OF e] push_fresh_def)
  moreover have "filter (\<lambda>x. fst x \<noteq> key) (lru_abs c) = lru_abs c"
    by (rule abs_absent [OF inv e])
  moreover have "length (lru_abs c) < capacity c" using True by (simp add: lru_abs_def)
  ultimately show ?thesis
    using push_fresh_inv [OF inv e True] push_fresh_abs [OF inv e] by (simp add: spec_put_def)
next
  case False
  let ?c1 = "push_fresh now key val c"
  have full: "length (lru_keys c) = capacity c" "0 < capacity c" using False inv by (auto simp: lru_inv_def)
  then obtain ns n where ns: "lru_keys c = ns @ [n]" by (metis length_greater_0_conv rev_exhaust)
  have ok: "nodes_ok (map_of (entries ?c1)) ((next_node c, key) # ns @ [n]) (next_node c + 1)"
    using nodes_ok_fresh [of "map_of (entries c)" "lru_keys c" "next_node c" key] inv e
    by (simp add: push_fresh_def emplace_upd lru_inv_iff ns)
  have keyn: "key \<noteq> snd n" "snd n \<notin> snd ` set ns" using ok by (auto simp: nodes_ok_def)
  have "length (entries ?c1) = Suc (length (entries c))"
    using e by (simp add: push_fresh_def emplace_fresh map_of_eq_None_iff)
  then have c': "lru_put now key val c = ?c1\<lparr>entries := AList.delete (snd n) (entries ?c1),
      lru_keys := (next_node c, key) # ns, stats := add_eviction (stats ?c1)\<rparr>"
    using full lru_inv_length [OF inv] by (simp add: lru_put_new [OF e] push_fresh_def ns)
  obtain en where en: "map_of (entries ?c1) (snd n) = Some en"
    using ok unfolding nodes_ok_def by (metis domD image_eqI list.set_intros(1,2) in_set_conv_decomp)
  have "nodes_ok ((map_of (entries ?c1))(snd n := None)) ((next_node c, key) # ns) (next_node c + 1)"
    using nodes_ok_erase [OF ok en] keyn filter_all_neq [OF keyn(2)] by simp
  then have "lru_inv (lru_put now key val c)"
    using inv full ns by (simp add: lru_inv_iff c' delete_conv')
      (simp add: push_fresh_def AList.distinct_delete)
  moreover have "lru_abs (lru_put now key val c) = butlast (lru_abs ?c1)"
    using keyn filter_all_neq [OF keyn(2)] map_tagged_upd [of "map_of (entries ?c1)" "snd n" None ns]
    by (simp add: c' lru_abs_tagged delete_conv') (simp add: push_fresh_def ns)
  moreover have "filter (\<lambda>x. fst x \<noteq> key) (lru_abs c) = lru_abs c"
    by (rule abs_absent [OF inv e])
  moreover have "butlast (x # lru_abs c) = take (capacity c) (x # lru_abs c)" for x
    using full by (simp add: butlast_conv_take lru_abs_def)
  ultimately show ?thesis by (simp only: push_fresh_abs [OF inv e] spec_put_def)
qed

lemma lru_put_refines:
  assumes "lru_inv c"
  shows "lru_inv (lru_put now key val c) \<and>
    lru_abs (lru_put now key val c) = spec_put (capacity c) (expiry now c) key val (lru_abs c)"
  using lru_put_existing [OF assms] lru_put_fresh [OF assms] by (cases "map_of (entries c) key") blast+

section \<open>Histories\<close>

datatype lru_op = Get time_point string | Put time_point string string

fun lru_run :: "lru_op list \<Rightarrow> lru_cache \<Rightarrow> string option list \<times> lru_cache" where
  "lru_run [] c = ([], c)"
| "lru_run (Get now k # ops) c =
     (let (r, c1) = lru_get now k c; (rs, c2) = lru_run ops c1 in (r # rs, c2))"
| "lru_run (Put now k v # ops) c = lru_run ops (lru_put now k v c)"

fun spec_run :: "nat \<Rightarrow> int \<Rightarrow> lru_op list \<Rightarrow> (string \<times> string \<times> time_point) list \<Rightarrow>
    string option list \<times> (string \<times> string \<times> time_point) list" where
  "spec_run cap life [] xs = ([], xs)"
| "spec_run cap life (Get now k # ops) xs =
     (let (r, xs1) = spec_get now k xs; (rs, xs2) = spec_run cap life ops xs1 in (r # rs, xs2))"
| "spec_run cap life (Put now k v # ops) xs =
     spec_run cap life ops (spec_put cap (now + life) k v xs)"

lemma lru_get_config: "lru_get now k c = (r, c') \<Longrightarrow> capacity c' = capacity c \<and> ttl c' = ttl c"
  by (auto simp: lru_get_def split: option.splits if_splits)

lemma lru_put_config: "capacity (lru_put now k v c) = capacity c \<and> ttl (lru_put now k v c) = ttl c"
  by (simp add: lru_put_def Let_def split: option.split)

lemma lru_run_refines:
  "lru_inv c \<Longrightarrow> lru_run ops c = (rs, c') \<Longrightarrow>
    lru_inv c' \<and> capacity c' = capacity c \<and>
    spec_run (capacity c) (ttl c * 1000000) ops (lru_abs c) = (rs, lru_abs c')"
proof (induction ops c arbitrary: rs c' rule: lru_run.induct)
  case (1 c)
  then show ?case by simp
next
  case (2 now k ops c)
  obtain r c1 where get: "lru_get now k c = (r, c1)" by (meson prod.exhaust)
  obtain rs1 where rest: "lru_run ops c1 = (rs1, c')" "rs = r # rs1"
    using "2.prems"(2) get by (auto split: prod.splits)
  note step = lru_get_refines [OF "2.prems"(1) get] lru_get_config [OF get]
  have "lru_inv c' \<and> capacity c' = capacity c1 \<and>
      spec_run (capacity c1) (ttl c1 * 1000000) ops (lru_abs c1) = (rs1, lru_abs c')"
    using "2.IH" [OF get [symmetric] refl _ rest(1)] step by blast
  then show ?case using step rest(2) by auto
next
  case (3 now k v ops c)
  note put = lru_put_refines [OF "3.prems"(1), of now k v] lru_put_config [of now k v c]
  have "lru_run ops (lru_put now k v c) = (rs, c')" using "3.prems"(2) by simp
  from "3.IH" [OF _ this] put show ?case unfolding expiry_def by (metis spec_run.simps(3))
qed

lemma lru_run_ttl: "lru_run ops c = (rs, c') \<Longrightarrow> ttl c' = ttl c"
proof (induction ops c arbitrary: rs c' rule: lru_run.induct)
  case (2 now k ops c)
  obtain r c1 where get: "lru_get now k c = (r, c1)" by (meson prod.exhaust)
  then show ?case using 2 lru_get_config [OF get] by (auto split: prod.splits)
qed (auto simp: lru_put_config)

lemma LruCache_Inr:
  "LruCache cap life = Inr c \<Longrightarrow>
    lru_inv c \<and> capacity c = cap \<and> ttl c = life \<and> lru_abs c = [] \<and> stats c = zero_stats \<and> 0 < life"
  by (auto simp: LruCache_def lru_inv_def lru_abs_def split: if_splits)

text \<open>The last value stored under a key, with the time of the store.\<close>

fun last_put :: "string \<Rightarrow> lru_op list \<Rightarrow> (time_point \<times> string) option" where
  "last_put k [] = None"
| "last_put k (Get now k' # ops) = last_put k ops"
| "last_put k (Put now k' v # ops) =
     (case last_put k ops of Some x \<Rightarrow> Some x | None \<Rightarrow> if k' = k then Some (now, v) else None)"

fun op_key :: "lru_op \<Rightarrow> string" where
  "op_key (Get now k) = k"
| "op_key (Put now k v) = k"

lemma last_put_append:
  "last_put k (a @ b) = (case last_put k b of Some x \<Rightarrow> Some x | None \<Rightarrow> last_put k a)"
  by (induction k a rule: last_put.induct) (auto split: option.splits)

lemma spec_run_append:
  "spec_run cap life (a @ b) xs =
     (let (r1, xs1) = spec_run cap life a xs; (r2, xs2) = spec_run cap life b xs1 in (r1 @ r2, xs2))"
  by (induction cap life a xs rule: spec_run.induct) (auto simp: Let_def split: prod.splits)

definition recorded :: "int \<Rightarrow> lru_op list \<Rightarrow> (string \<times> string \<times> time_point) list \<Rightarrow> bool" where
  "recorded life ops xs \<longleftrightarrow> (\<forall>k v e. (k, v, e) \<in> set xs \<longrightarrow> last_put k ops = Some (e - life, v))"

lemma set_spec_get: "spec_get now k xs = (r, xs') \<Longrightarrow> set xs' \<subseteq> set xs"
  by (auto simp: spec_get_def dest!: map_of_SomeD split: option.splits if_splits)

lemma recorded_get:
  "recorded life ops xs \<Longrightarrow> spec_get now k xs = (r, xs') \<Longrightarrow> recorded life (ops @ [Get now k]) xs'"
  unfolding recorded_def using set_spec_get by (fastforce simp: last_put_append)

lemma recorded_put:
  "recorded life ops xs \<Longrightarrow> recorded life (ops @ [Put now k v]) (spec_put cap (now + life) k v xs)"
  unfolding recorded_def spec_put_def by (auto simp: last_put_append dest!: in_set_takeD)

lemma recorded_run:
  "recorded life pre xs \<Longrightarrow> spec_run cap life ops xs = (rs, xs') \<Longrightarrow> recorded life (pre @ ops) xs'"
proof (induction cap life ops xs arbitrary: pre rs xs' rule: spec_run.induct)
  case (1 cap life xs)
  then show ?case by simp
next
  case (2 cap life now k ops xs)
  obtain r xs1 where get: "spec_get now k xs = (r, xs1)" by (meson prod.exhaust)
  obtain rs1 where rest: "spec_run cap life ops xs1 = (rs1, xs')"
    using "2.prems"(2) get by (auto split: prod.splits)
  show ?case
    using "2.IH" [OF get [symmetric] refl recorded_get [OF "2.prems"(1) get] rest] by simp
next
  case (3 cap life now k v ops xs)
  then show ?case using recorded_put [of life pre xs now k v cap] by fastforce
qed

text \<open>C14: The cache with its list of nodes, iterators and entries behaves as the abstract one: for
  every sequence of operations on a new cache the answers are those of a list of (key, value,
  expiry) triples, most recently used first, where a hit moves its triple to the front, an expired
  triple is dropped when it is looked up, a store puts its triple in front and the list is cut to
  the capacity. The links between entries and nodes stay intact and the size never exceeds the
  capacity.\<close>

theorem lru_cache_refines_list:
  assumes "LruCache cap life = Inr c" and "lru_run ops c = (rs, c')"
  shows "spec_run cap (life * 1000000) ops [] = (rs, lru_abs c') \<and> lru_inv c' \<and>
    length (entries c') \<le> cap"
  using lru_run_refines [of c ops rs c'] LruCache_Inr [OF assms(1)] assms(2)
    lru_inv_length [of c'] by (auto simp: lru_inv_def)

text \<open>C24: A value the cache returns is never stale and never invented: it is the value of the last
  store under that key in the whole history, and less than the time to live has passed since that
  store.\<close>

theorem lru_never_stale:
  assumes "LruCache cap life = Inr c" and "lru_run ops c = (rs, c')"
    and "lru_get now k c' = (Some v, c'')"
  shows "\<exists>t. last_put k ops = Some (t, v) \<and> now < t + life * 1000000"
proof -
  note c = LruCache_Inr [OF assms(1)]
  have run: "spec_run cap (life * 1000000) ops [] = (rs, lru_abs c')" and inv: "lru_inv c'"
    using lru_run_refines [OF _ assms(2)] c by auto
  have "recorded (life * 1000000) ops (lru_abs c')"
    using recorded_run [OF _ run, of "[]"] by (simp add: recorded_def)
  moreover have "spec_get now k (lru_abs c') = (Some v, lru_abs c'')"
    using lru_get_refines [OF inv assms(3)] by blast
  ultimately show ?thesis
    by (force simp: spec_get_def recorded_def dest!: map_of_SomeD split: option.splits if_splits)
qed

text \<open>After a store, the triple stays within reach as long as fewer other keys than the capacity
  have been touched.\<close>

definition retained :: "string \<Rightarrow> string \<Rightarrow> time_point \<Rightarrow> string set \<Rightarrow> (string \<times> string \<times> time_point) list \<Rightarrow> bool" where
  "retained k v e others xs \<longleftrightarrow>
    distinct (map fst xs) \<and> (\<exists>pre post. xs = pre @ (k, v, e) # post \<and> fst ` set pre \<subseteq> others)"

lemma retained_mono: "retained k v e A xs \<Longrightarrow> A \<subseteq> B \<Longrightarrow> retained k v e B xs"
  unfolding retained_def by (elim conjE exE) (intro conjI exI, assumption+, blast)

lemma retained_lookup: "retained k v e others xs \<Longrightarrow> map_of xs k = Some (v, e)"
  by (auto simp: retained_def map_of_append map_add_def map_of_eq_None_iff split: option.split)

lemma retained_remove:
  assumes "retained k v e others xs" and "k' \<noteq> k"
  shows "retained k v e others (filter (\<lambda>x. fst x \<noteq> k') xs)"
proof -
  obtain pre post where xs: "xs = pre @ (k, v, e) # post" "fst ` set pre \<subseteq> others"
    using assms by (auto simp: retained_def)
  have "filter (\<lambda>x. fst x \<noteq> k') xs =
      filter (\<lambda>x. fst x \<noteq> k') pre @ (k, v, e) # filter (\<lambda>x. fst x \<noteq> k') post" using xs assms(2) by simp
  moreover have "fst ` set (filter (\<lambda>x. fst x \<noteq> k') pre) \<subseteq> others" using xs by auto
  ultimately show ?thesis using assms(1) unfolding retained_def by (metis distinct_map_filter)
qed

lemma retained_push:
  assumes "retained k v e others xs" and "k' \<in> others" and "k' \<notin> fst ` set xs"
  shows "retained k v e others ((k', y) # xs)"
proof -
  obtain pre post where "xs = pre @ (k, v, e) # post" "fst ` set pre \<subseteq> others"
    using assms by (auto simp: retained_def)
  then have "(k', y) # xs = ((k', y) # pre) @ (k, v, e) # post \<and> fst ` set ((k', y) # pre) \<subseteq> others"
    using assms by simp
  then show ?thesis using assms unfolding retained_def by (metis distinct.simps(2) fst_conv list.set_map list.simps(9))
qed

lemma retained_take:
  assumes "retained k v e others xs" and "finite others" and "card others < cap"
  shows "retained k v e others (take cap xs)"
proof -
  obtain pre post where xs: "xs = pre @ (k, v, e) # post" "fst ` set pre \<subseteq> others"
    using assms by (auto simp: retained_def)
  have "length pre = card (fst ` set pre)"
    using assms(1) xs(1) distinct_card [of "map fst pre"] by (simp add: retained_def)
  then have "length pre < cap" using card_mono [OF assms(2) xs(2)] assms(3) by simp
  then have "take cap xs = pre @ (k, v, e) # take (cap - Suc (length pre)) post"
    using xs(1) by (simp add: take_Cons')
  then show ?thesis using assms(1) xs(2) unfolding retained_def by (metis distinct_take take_map)
qed

fun harmless :: "string \<Rightarrow> time_point \<Rightarrow> lru_op \<Rightarrow> bool" where
  "harmless k e (Get now k') = (k' = k \<longrightarrow> now < e)"
| "harmless k e (Put now k' v) = (k' \<noteq> k)"

lemma retained_get:
  assumes "retained k v e others xs" and "harmless k e (Get now k')" and "k' = k \<or> k' \<in> others"
  shows "retained k v e others (snd (spec_get now k' xs))"
proof (cases "k' = k")
  case True
  obtain pre post where "xs = pre @ (k, v, e) # post" using assms(1) by (auto simp: retained_def)
  with assms(1) True show ?thesis
    using assms(2) unfolding spec_get_def True retained_lookup [OF assms(1)]
    by (auto simp: retained_def distinct_map_filter intro: exI [of _ "[]"])
next
  case False
  then have "retained k v e others ((k', y) # filter (\<lambda>x. fst x \<noteq> k') xs)" for y
    using assms by (intro retained_push retained_remove) auto
  with assms False show ?thesis
    by (auto simp: spec_get_def intro: retained_remove split: option.split)
qed

lemma retained_run:
  assumes "finite others" and "card others < cap"
  shows "retained k v e others xs \<Longrightarrow> list_all (harmless k e) ops \<Longrightarrow>
    op_key ` set ops \<subseteq> insert k others \<Longrightarrow> retained k v e others (snd (spec_run cap life ops xs))"
proof (induction ops arbitrary: xs)
  case Nil
  then show ?case by simp
next
  case (Cons op ops)
  show ?case
  proof (cases op)
    case (Get now k')
    then show ?thesis
      using Cons.IH [of "snd (spec_get now k' xs)"] retained_get [OF Cons.prems(1), of now k'] Cons.prems
      by (auto simp: Let_def split: prod.splits)
  next
    case (Put now k' v')
    then have "k' \<noteq> k" "k' \<in> others" using Cons.prems by auto
    then have "retained k v e others (spec_put cap (now + life) k' v' xs)"
      unfolding spec_put_def using Cons.prems(1) assms
      by (intro retained_take retained_push retained_remove) auto
    with Put show ?thesis using Cons.IH Cons.prems by simp
  qed
qed

lemma lru_run_append:
  "lru_run (a @ b) c = (let (r1, c1) = lru_run a c; (r2, c2) = lru_run b c1 in (r1 @ r2, c2))"
  by (induction a c rule: lru_run.induct) (auto simp: Let_def split: prod.splits)

lemma lru_abs_distinct: "lru_inv c \<Longrightarrow> distinct (map fst (lru_abs c))"
  by (simp add: lru_inv_def lru_abs_tagged comp_def)

lemma retained_put:
  assumes "lru_inv c"
  shows "retained k v (expiry now c) {} (lru_abs (lru_put now k v c))"
proof -
  note put = lru_put_refines [OF assms, of now k v]
  obtain n where "capacity c = Suc n" using assms by (auto simp: lru_inv_def gr0_conv_Suc)
  then have "lru_abs (lru_put now k v c) = (k, v, expiry now c) # take n (filter (\<lambda>x. fst x \<noteq> k) (lru_abs c))"
    using put by (simp add: spec_put_def)
  moreover have "distinct (map fst (lru_abs (lru_put now k v c)))"
    using lru_abs_distinct put by blast
  ultimately show ?thesis unfolding retained_def by fastforce
qed

text \<open>The cache keeps what it should: after a store the value is found again as long as its time
  to live has not passed, provided no other store under that key came in between and fewer other
  keys were touched than the capacity.\<close>

theorem lru_retention:
  assumes "LruCache cap life = Inr c"
    and "lru_run (before @ Put t k v # between) c = (rs, c')"
    and "list_all (harmless k (t + life * 1000000)) between"
    and "card (op_key ` set between - {k}) < cap"
    and "now < t + life * 1000000"
  shows "fst (lru_get now k c') = Some v"
proof -
  let ?others = "op_key ` set between - {k}" and ?e = "t + life * 1000000"
  note c = LruCache_Inr [OF assms(1)]
  obtain r1 c1 where c1: "lru_run before c = (r1, c1)" by (meson prod.exhaust)
  then obtain r2 where c2: "lru_run between (lru_put t k v c1) = (r2, c')"
    using assms(2) by (auto simp: lru_run_append Let_def split: prod.splits)
  have inv1: "lru_inv c1" "capacity c1 = cap" using lru_run_refines [OF _ c1] c by auto
  have ttl1: "ttl c1 = life" using lru_run_ttl [OF c1] c by simp
  let ?c2 = "lru_put t k v c1"
  have conf: "lru_inv ?c2" "capacity ?c2 = cap" "ttl ?c2 = life"
    using lru_put_refines [OF inv1(1), of t k v] lru_put_config [of t k v c1] inv1 ttl1 by auto
  have run: "spec_run cap (life * 1000000) between (lru_abs ?c2) = (r2, lru_abs c')" "lru_inv c'"
    using lru_run_refines [OF conf(1) c2] conf by auto
  have "retained k v ?e {} (lru_abs ?c2)" using retained_put [OF inv1(1), of k v t] ttl1 by (simp add: expiry_def)
  then have "retained k v ?e ?others (lru_abs ?c2)"
    by (rule retained_mono) simp
  then have "retained k v ?e ?others (snd (spec_run cap (life * 1000000) between (lru_abs ?c2)))"
    using assms(3,4) by (intro retained_run) auto
  then have "map_of (lru_abs c') k = Some (v, ?e)" using retained_lookup run by simp
  then have "fst (spec_get now k (lru_abs c')) = Some v" using assms(5) by (simp add: spec_get_def)
  then show ?thesis using lru_get_refines [OF run(2)] by (metis fst_conv prod.exhaust)
qed

text \<open>The counters are exact, as 64-bit numbers: hits is the number of lookups answered with a
  value and misses the number answered without, over any sequence of operations.\<close>

theorem lru_stats_exact:
  assumes "LruCache cap life = Inr c" and "lru_run ops c = (rs, c')"
  shows "hit_count (stats c') = word_of_nat (length (filter (\<lambda>r. r \<noteq> None) rs)) \<and>
    miss_count (stats c') = word_of_nat (length (filter (\<lambda>r. r = None) rs))"
proof -
  have "lru_run ops c = (rs, c') \<Longrightarrow>
    hit_count (stats c') = hit_count (stats c) + word_of_nat (length (filter (\<lambda>r. r \<noteq> None) rs)) \<and>
    miss_count (stats c') = miss_count (stats c) + word_of_nat (length (filter (\<lambda>r. r = None) rs))" for c rs
  proof (induction ops c arbitrary: rs rule: lru_run.induct)
    case (2 now k ops c)
    obtain r c1 where get: "lru_get now k c = (r, c1)" by (meson prod.exhaust)
    obtain rs1 where rest: "lru_run ops c1 = (rs1, c')" "rs = r # rs1"
      using "2.prems" get by (auto split: prod.splits)
    have "hit_count (stats c1) = hit_count (stats c) + (if r = None then 0 else 1) \<and>
        miss_count (stats c1) = miss_count (stats c) + (if r = None then 1 else 0)"
      using get by (auto simp: lru_get_def add_hit_def add_miss_def add_expiration_def split: option.splits if_splits)
    with "2.IH" [OF get [symmetric] refl rest(1)] rest(2) show ?case by (cases r) auto
  next
    case (3 now k v ops c)
    have "hit_count (stats (lru_put now k v c)) = hit_count (stats c)"
      "miss_count (stats (lru_put now k v c)) = miss_count (stats c)"
      by (simp_all add: lru_put_def Let_def add_eviction_def split: option.split)
    with "3.IH" "3.prems" show ?case by simp
  qed simp
  from this [OF assms(2)] LruCache_Inr [OF assms(1)] show ?thesis by (simp add: zero_stats_def)
qed

section \<open>The cache as a value cache\<close>

definition lru_sound :: "(string \<Rightarrow> string \<Rightarrow> bool) \<Rightarrow> lru_cache \<Rightarrow> bool" where
  "lru_sound P c \<longleftrightarrow> (\<forall>k e. (k, e) \<in> set (entries c) \<longrightarrow> P k (entry_value e))"

lemma lru_get_sound:
  "lru_sound P c \<Longrightarrow> lru_get now k c = (r, c') \<Longrightarrow> lru_sound P c' \<and> (\<forall>v. r = Some v \<longrightarrow> P k v)"
  by (auto simp: lru_sound_def lru_get_def AList.delete_eq dest: map_of_SomeD split: option.splits if_splits)

lemma set_emplace: "set (emplace k v m) \<subseteq> insert (k, v) (set m)"
  by (auto simp: emplace_def)

lemma set_update: "set (AList.update k v m) \<subseteq> insert (k, v) (set m)"
  by (induction m) auto

lemma lru_put_sound: "lru_sound P c \<Longrightarrow> P k v \<Longrightarrow> lru_sound P (lru_put now k v c)"
  unfolding lru_sound_def lru_put_def
  by (auto simp: Let_def AList.delete_eq dest!: subsetD [OF set_emplace] subsetD [OF set_update]
      split: option.splits if_splits)

interpretation lru: value_cache "\<lambda>c. True" lru_sound "\<lambda>P now. True"
  "\<lambda>now k c. Inr (lru_get now k c) :: invalid_argument + _"
  "\<lambda>now k v c. Inr (lru_put now k v c) :: invalid_argument + _"
  by unfold_locales (auto intro: lru_put_sound dest: lru_get_sound)

section \<open>Examples\<close>

text \<open>A cache of two entries that live one millisecond: the third key evicts the least recently used
  one, and a lookup after the time to live drops the entry.\<close>

definition sample_ops :: "lru_op list" where
  "sample_ops = [Put 0 ''a'' ''1'', Put 0 ''b'' ''2'', Get 5 ''a'', Put 10 ''c'' ''3'',
                 Get 20 ''b'', Get 20 ''a'', Get 1000000 ''a'']"

definition sample_cache :: lru_cache where
  "sample_cache = projr (LruCache 2 1)"

lemma sample_cache_run:
  "LruCache 2 1 = Inr sample_cache"
  "lru_run sample_ops sample_cache = ([Some ''1'', None, Some ''1'', None], snd (lru_run sample_ops sample_cache))"
  by code_simp+

lemma lru_cache_refines_list_witness:
  "spec_run 2 (1 * 1000000) sample_ops [] =
      ([Some ''1'', None, Some ''1'', None], lru_abs (snd (lru_run sample_ops sample_cache))) \<and>
    lru_inv (snd (lru_run sample_ops sample_cache)) \<and>
    length (entries (snd (lru_run sample_ops sample_cache))) \<le> 2"
  by (rule lru_cache_refines_list [OF sample_cache_run])

lemma lru_never_stale_witness:
  "\<exists>t. last_put ''c'' sample_ops = Some (t, ''3'') \<and> 30 < t + 1 * 1000000"
proof (rule lru_never_stale [OF sample_cache_run])
  show "lru_get 30 ''c'' (snd (lru_run sample_ops sample_cache)) =
      (Some ''3'', snd (lru_get 30 ''c'' (snd (lru_run sample_ops sample_cache))))" by code_simp
qed

lemma lru_retention_witness:
  "fst (lru_get 30 ''c'' (snd (lru_run (take 4 sample_ops @ [Get 20 ''b'']) sample_cache))) = Some ''3''"
proof (rule lru_retention [OF sample_cache_run(1)])
  let ?ops = "take 3 sample_ops @ Put 10 ''c'' ''3'' # [Get 20 ''b'']"
  show "lru_run ?ops sample_cache =
      (fst (lru_run ?ops sample_cache), snd (lru_run (take 4 sample_ops @ [Get 20 ''b'']) sample_cache))"
    by (simp add: sample_ops_def)
qed simp_all

lemma lru_stats_exact_witness:
  "hit_count (stats (snd (lru_run sample_ops sample_cache))) = 2 \<and>
   miss_count (stats (snd (lru_run sample_ops sample_cache))) = 2"
  using lru_stats_exact [OF sample_cache_run] by simp

end
