(* ===== verification/RedisClient.thy ===== *)
theory RedisClient
  imports Prelude "HOL-Library.Signed_Division"
begin

text \<open>
  \<open>src/search/RedisClient.h\<close>, \<open>src/search/RedisClient.cc\<close>: the client of the second cache level.
  hiredis is not part of the sources: what its calls return is a parameter \<open>redis_env\<close> of each
  operation (the outcome of connecting, and the reply to a command). The calls that are made and the
  reads of what hiredis returned (the error field of a context, the fields of a reply) are recorded, in
  the order of the code, as a list of effects, so that ownership and use after free can be stated.
\<close>

section \<open>The library calls\<close>

text \<open>The outcomes of \<open>redisConnectWithTimeout\<close>: no context, a context with an error, or a context
  on which \<open>redisSetTimeout\<close> then succeeds or fails.\<close>

datatype connect_result = No_context | Context_error | Context_ok bool

text \<open>A reply has a type and, for strings and status lines, a pointer to bytes that may be null.\<close>

datatype redis_reply =
  Reply_nil
| Reply_string "string option"
| Reply_status "string option"
| Reply_other

record redis_env =
  connect_result :: connect_result
  answer :: "string list \<Rightarrow> redis_reply option"

datatype reply_field = Field_type | Field_str | Field_len

datatype redis_effect =
  Connect string int "int \<times> int" bool
| Read_err
| Set_timeout "int \<times> int" bool
| Free_context
| Command "string list" bool
| Read_reply reply_field
| Free_reply

section \<open>Model\<close>

record redis_client =
  host :: string
  port :: int
  timeout :: int
  context_open :: bool

datatype redis_error = Redis_error string

definition toTimeval :: "int \<Rightarrow> int \<times> int" where
  "toTimeval ms = (let secs = ms sdiv 1000 in (secs, (ms - secs * 1000) * 1000))"

definition RedisClient :: "string \<Rightarrow> int \<Rightarrow> int \<Rightarrow> redis_error + redis_client" where
  "RedisClient h p t =
    (if h = [] then Inl (Redis_error ''Redis host must not be empty'')
     else if p \<le> 0 \<or> p > 65535 then Inl (Redis_error ''Redis port must be in range 1..65535'')
     else if t \<le> 0 then Inl (Redis_error ''Redis timeout must be positive'')
     else Inr \<lparr>host = h, port = p, timeout = t, context_open = False\<rparr>)"

definition disconnect :: "redis_client \<Rightarrow> redis_client \<times> redis_effect list" where
  "disconnect c = (if context_open c then (c\<lparr>context_open := False\<rparr>, [Free_context]) else (c, []))"

definition ensureConnected :: "redis_env \<Rightarrow> redis_client \<Rightarrow> bool \<times> redis_client \<times> redis_effect list" where
  "ensureConnected env c =
    (if context_open c then (True, c, [])
     else let tv = toTimeval (timeout c)
          in case connect_result env of
               No_context \<Rightarrow>
                 let (c', es) = disconnect c
                 in (False, c', Connect (host c) (port c) tv False # es)
             | Context_error \<Rightarrow>
                 let (c', es) = disconnect (c\<lparr>context_open := True\<rparr>)
                 in (False, c', [Connect (host c) (port c) tv True, Read_err] @ es)
             | Context_ok ok \<Rightarrow>
                 let c1 = c\<lparr>context_open := True\<rparr>;
                     made = [Connect (host c) (port c) tv True, Read_err, Set_timeout tv ok]
                 in if ok then (True, c1, made)
                    else let (c', es) = disconnect c1 in (False, c', made @ es))"

text \<open>\<open>fail_with\<close> is the common tail \<open>disconnect(); return r;\<close>.\<close>

definition fail_with :: "'r \<Rightarrow> redis_client \<Rightarrow> redis_effect list \<Rightarrow> 'r \<times> redis_client \<times> redis_effect list" where
  "fail_with r c es = (let (c', es') = disconnect c in (r, c', es @ es'))"

text \<open>What is read of a reply before it is freed: \<open>get\<close> tests \<open>type\<close> for nil and for a string, then
  \<open>str\<close> for null, and copies \<open>len\<close> bytes from \<open>str\<close>; \<open>setEx\<close> stops at the first test that fails.\<close>

definition redis_get :: "redis_env \<Rightarrow> string \<Rightarrow> redis_client \<Rightarrow> string option \<times> redis_client \<times> redis_effect list" where
  "redis_get env key c =
    (let (connected, c1, es) = ensureConnected env c
     in if \<not> connected then (None, c1, es)
        else let argv = [''GET'', key]
             in case answer env argv of
                  None \<Rightarrow> fail_with None c1 (es @ [Command argv False])
                | Some Reply_nil \<Rightarrow> (None, c1, es @ [Command argv True, Read_reply Field_type, Free_reply])
                | Some (Reply_string None) \<Rightarrow>
                    fail_with None c1
                      (es @ [Command argv True, Read_reply Field_type, Read_reply Field_type, Read_reply Field_str,
                             Free_reply])
                | Some (Reply_string (Some val)) \<Rightarrow>
                    (Some val, c1,
                     es @ [Command argv True, Read_reply Field_type, Read_reply Field_type, Read_reply Field_str,
                           Read_reply Field_str, Read_reply Field_len, Free_reply])
                | Some (Reply_status s) \<Rightarrow>
                    fail_with None c1
                      (es @ [Command argv True, Read_reply Field_type, Read_reply Field_type, Free_reply])
                | Some Reply_other \<Rightarrow>
                    fail_with None c1
                      (es @ [Command argv True, Read_reply Field_type, Read_reply Field_type, Free_reply]))"

definition setEx :: "redis_env \<Rightarrow> string \<Rightarrow> string \<Rightarrow> int \<Rightarrow> redis_client \<Rightarrow> bool \<times> redis_client \<times> redis_effect list" where
  "setEx env key val secs c =
    (if secs \<le> 0 then (False, c, [])
     else let (connected, c1, es) = ensureConnected env c
          in if \<not> connected then (False, c1, es)
             else let argv = [''SET'', key, val, ''EX'', to_string (nat secs)]
                  in case answer env argv of
                       None \<Rightarrow> fail_with False c1 (es @ [Command argv False])
                     | Some r \<Rightarrow>
                         let (success, reads) =
                           (case r of
                              Reply_status (Some s) \<Rightarrow>
                                (s = ''OK'', [Read_reply Field_type, Read_reply Field_str, Read_reply Field_str,
                                             Read_reply Field_len])
                            | Reply_status None \<Rightarrow> (False, [Read_reply Field_type, Read_reply Field_str])
                            | _ \<Rightarrow> (False, [Read_reply Field_type]));
                           es1 = es @ [Command argv True] @ reads @ [Free_reply]
                         in if success then (True, c1, es1) else fail_with False c1 es1)"

text \<open>The destructor.\<close>

definition destroy :: "redis_client \<Rightarrow> redis_client \<times> redis_effect list" where
  "destroy c = disconnect c"

lemmas redis_defs [step_simps] =
  disconnect_def ensureConnected_def fail_with_def redis_get_def setEx_def destroy_def Let_def

section \<open>Ownership of contexts and replies\<close>

text \<open>
  A monitor of the calls and reads: whether a context is held and whether a reply is. It is stuck
  (\<open>None\<close>) on a second connect over a held context (a leak), on a command, a timeout to set, a read of
  the error field or a free without a context (a use after free, or of a null pointer), on a command or
  a free of the context while a reply is held (a leak of the reply), and on a read of a field or a free
  without a reply (a use after free, a double free).
\<close>

fun monitor :: "redis_effect list \<Rightarrow> bool \<times> bool \<Rightarrow> (bool \<times> bool) option" where
  "monitor [] s = Some s"
| "monitor (Connect h p tv ok # es) (ctx, rep) =
     (if ctx \<or> rep then None else monitor es (ok, False))"
| "monitor (Read_err # es) (ctx, rep) = (if ctx then monitor es (ctx, rep) else None)"
| "monitor (Set_timeout tv ok # es) (ctx, rep) = (if ctx then monitor es (ctx, rep) else None)"
| "monitor (Free_context # es) (ctx, rep) = (if ctx \<and> \<not> rep then monitor es (False, False) else None)"
| "monitor (Command argv ok # es) (ctx, rep) = (if ctx \<and> \<not> rep then monitor es (True, ok) else None)"
| "monitor (Read_reply f # es) (ctx, rep) = (if rep then monitor es (ctx, rep) else None)"
| "monitor (Free_reply # es) (ctx, rep) = (if rep then monitor es (ctx, False) else None)"

lemma monitor_append:
  "monitor (es @ es') s = (case monitor es s of None \<Rightarrow> None | Some s' \<Rightarrow> monitor es' s')"
  by (induction es s rule: monitor.induct) auto

datatype redis_op = Redis_get redis_env string | Redis_set redis_env string string int

fun redis_step :: "redis_op \<Rightarrow> redis_client \<Rightarrow> redis_client \<times> redis_effect list" where
  "redis_step (Redis_get env k) c = snd (redis_get env k c)"
| "redis_step (Redis_set env k v t) c = snd (setEx env k v t c)"

fun redis_run :: "redis_op list \<Rightarrow> redis_client \<Rightarrow> redis_client \<times> redis_effect list" where
  "redis_run [] c = (c, [])"
| "redis_run (op # ops) c =
     (let (c1, es1) = redis_step op c; (c2, es2) = redis_run ops c1 in (c2, es1 @ es2))"

lemma redis_get_safe:
  "redis_get env k c = (r, c', es) \<Longrightarrow> monitor es (context_open c, False) = Some (context_open c', False)"
  by (auto simp: step_simps split: if_splits connect_result.splits option.splits redis_reply.splits)

lemma setEx_safe:
  "setEx env k v t c = (r, c', es) \<Longrightarrow> monitor es (context_open c, False) = Some (context_open c', False)"
  by (auto simp: step_simps split: if_splits connect_result.splits option.splits redis_reply.splits)

lemma redis_step_safe:
  "redis_step op c = (c', es) \<Longrightarrow> monitor es (context_open c, False) = Some (context_open c', False)"
  by (cases op) (auto intro: redis_get_safe [of _ _ _ "fst _"] setEx_safe [of _ _ _ _ _ "fst _"] simp: prod_eq_iff)

lemma redis_run_safe:
  "redis_run ops c = (c', es) \<Longrightarrow> monitor es (context_open c, False) = Some (context_open c', False)"
proof (induction ops arbitrary: c c' es)
  case (Cons op ops)
  obtain c1 es1 where step: "redis_step op c = (c1, es1)" by (meson prod.exhaust)
  obtain es2 where rest: "redis_run ops c1 = (c', es2)" "es = es1 @ es2"
    using Cons.prems step by (auto split: prod.splits)
  show ?case using redis_step_safe [OF step] Cons.IH [OF rest(1)] rest(2) by (simp add: monitor_append)
qed simp

text \<open>C22: The client owns its hiredis objects correctly. For every sequence of lookups and stores on a
  new client, whatever hiredis answers at each call, followed by the destructor: every context and every
  reply is freed exactly once, the error field and the timeout of a context are touched, commands issued
  and the fields of a reply read only while it is held (so nothing is used after it was freed, and no
  null pointer is), no second context is opened over a live one, and at the end nothing is held.\<close>

theorem redis_owns_objects:
  assumes "RedisClient h p t = Inr c"
  shows "case redis_run ops c of (c', es) \<Rightarrow> monitor (es @ snd (destroy c')) (False, False) = Some (False, False)"
proof -
  obtain c' es where run: "redis_run ops c = (c', es)" by (meson prod.exhaust)
  have "context_open c = False" using assms by (auto simp: RedisClient_def split: if_splits)
  with redis_run_safe [OF run] have "monitor es (False, False) = Some (context_open c', False)" by simp
  then show ?thesis using run by (simp add: monitor_append destroy_def disconnect_def)
qed

lemma redis_owns_objects_witness:
  "case redis_run [Redis_get \<lparr>connect_result = Context_ok True, answer = (\<lambda>_. Some (Reply_string (Some ''v'')))\<rparr> ''k'',
                   Redis_set \<lparr>connect_result = No_context, answer = (\<lambda>_. None)\<rparr> ''k'' ''v'' 60]
      \<lparr>host = ''h'', port = 6379, timeout = 50, context_open = False\<rparr> of
    (c', es) \<Rightarrow> monitor (es @ snd (destroy c')) (False, False) = Some (False, False)"
  by (rule redis_owns_objects [of "''h''" 6379 50]) (simp add: RedisClient_def)

section \<open>What the operations answer\<close>

text \<open>The connection an operation works on, if it gets one.\<close>

definition connects :: "redis_env \<Rightarrow> redis_client \<Rightarrow> bool" where
  "connects env c \<longleftrightarrow> context_open c \<or> connect_result env = Context_ok True"

text \<open>A lookup answers a value exactly when a connection is there (or can be made, with its timeout
  set) and Redis replies with a non-null string, and then it is that string. A store succeeds exactly
  when the time to live is positive, a connection is there and the reply to
  \<open>SET key value EX seconds\<close> is the status \<open>OK\<close>. A connection survives an operation only if the reply
  was one the client expects (a string or nil for a lookup, \<open>OK\<close> for a store), so a connection in an
  unknown state is never used again.\<close>

theorem redis_answers:
  "fst (redis_get env k c) =
     (if connects env c then
        case answer env [''GET'', k] of Some (Reply_string s) \<Rightarrow> s | _ \<Rightarrow> None
      else None) \<and>
   fst (setEx env k v t c) =
     (0 < t \<and> connects env c \<and>
      answer env [''SET'', k, v, ''EX'', to_string (nat t)] = Some (Reply_status (Some ''OK''))) \<and>
   context_open (fst (snd (redis_get env k c))) =
     (connects env c \<and>
      (answer env [''GET'', k] = Some Reply_nil \<or> (\<exists>s. answer env [''GET'', k] = Some (Reply_string (Some s))))) \<and>
   (0 < t \<longrightarrow> context_open (fst (snd (setEx env k v t c))) = fst (setEx env k v t c))"
  by (auto simp: step_simps connects_def split: if_splits connect_result.splits option.splits redis_reply.splits)

lemma redis_answers_witness:
  "fst (redis_get \<lparr>connect_result = Context_ok True, answer = (\<lambda>_. Some (Reply_string (Some ''v'')))\<rparr> ''k''
      \<lparr>host = ''h'', port = 6379, timeout = 50, context_open = False\<rparr>) = Some ''v''"
  using redis_answers [of "\<lparr>connect_result = Context_ok True, answer = (\<lambda>_. Some (Reply_string (Some ''v'')))\<rparr>"
      "''k''" "\<lparr>host = ''h'', port = 6379, timeout = 50, context_open = False\<rparr>" "''v''" 60]
  by (simp add: connects_def)

text \<open>The timeout that is passed on is the configured one: seconds and the remaining microseconds.\<close>

lemma toTimeval_exact:
  "0 \<le> ms \<Longrightarrow> toTimeval ms = (ms div 1000, (ms mod 1000) * 1000)"
  by (simp add: toTimeval_def Let_def signed_divide_int_def minus_div_mult_eq_mod [symmetric] sgn_if left_diff_distrib)

end
