(* ===== verification/SearchCache.thy ===== *)
theory SearchCache
  imports LruCache RedisClient
begin

text \<open>
  \<open>src/search/SearchCache.h\<close>, \<open>src/search/SearchCache.cc\<close>: the two-level cache. Every thread has,
  per cache instance, a local LRU cache and a Redis client of its own, created on first use in a
  \<open>thread_local\<close> map; \<open>tls\<close> is that map for all threads, keyed by thread and instance. What a call
  gets from outside (the calling thread, the readings of the clock, hiredis) is a parameter
  \<open>cache_env\<close>; the calls to hiredis are logged.
\<close>

section \<open>Model\<close>

datatype mode = Disabled | LocalOnly | LocalAndRedis

record cache_config =
  cache_mode :: mode
  local_capacity :: nat
  local_ttl :: int
  redis_host :: string
  redis_port :: int
  redis_timeout :: int
  redis_ttl :: int

definition default_config :: cache_config where
  "default_config = \<lparr>cache_mode = LocalAndRedis, local_capacity = 128, local_ttl = 10000,
     redis_host = ''127.0.0.1'', redis_port = 6379, redis_timeout = 50, redis_ttl = 60\<rparr>"

record thread_state =
  local_cache :: lru_cache
  redis :: redis_client

record search_cache =
  config :: cache_config
  instance_id :: u64

record cache_world =
  tls :: "((nat \<times> u64) \<times> thread_state) list"
  redis_log :: "redis_effect list"

record cache_env =
  thread :: nat
  now_get :: time_point
  now_put :: time_point
  redis_env :: redis_env

datatype cache_error = Lru_invalid invalid_argument | Redis_invalid redis_error | Cache_invalid string

definition ThreadState :: "cache_config \<Rightarrow> cache_error + thread_state" where
  "ThreadState cfg =
    (case LruCache (local_capacity cfg) (local_ttl cfg) of
       Inl e \<Rightarrow> Inl (Lru_invalid e)
     | Inr l \<Rightarrow>
         (case RedisClient (redis_host cfg) (redis_port cfg) (redis_timeout cfg) of
            Inl e \<Rightarrow> Inl (Redis_invalid e)
          | Inr r \<Rightarrow> Inr \<lparr>local_cache = l, redis = r\<rparr>))"

text \<open>The constructor takes the next instance number from a shared counter before it checks.\<close>

definition SearchCache :: "cache_config \<Rightarrow> u64 \<Rightarrow> (cache_error + search_cache) \<times> u64" where
  "SearchCache cfg next_cache_instance_id =
    (if local_capacity cfg = 0 then Inl (Cache_invalid ''local cache capacity must be positive'')
     else if local_ttl cfg \<le> 0 then Inl (Cache_invalid ''local cache TTL must be positive'')
     else if redis_ttl cfg \<le> 0 then Inl (Cache_invalid ''Redis cache TTL must be positive'')
     else Inr \<lparr>config = cfg, instance_id = next_cache_instance_id\<rparr>,
     next_cache_instance_id + 1)"

definition currentThreadState ::
    "search_cache \<Rightarrow> nat \<Rightarrow> cache_world \<Rightarrow> cache_error + (thread_state \<times> cache_world)" where
  "currentThreadState sc th w =
    (case map_of (tls w) (th, instance_id sc) of
       Some ts \<Rightarrow> Inr (ts, w)
     | None \<Rightarrow>
         (case ThreadState (config sc) of
            Inl e \<Rightarrow> Inl e
          | Inr ts \<Rightarrow> Inr (ts, w\<lparr>tls := emplace (th, instance_id sc) ts (tls w)\<rparr>)))"

text \<open>\<open>store_state\<close> writes the mutated \<open>ThreadState\<close> back, with the calls to hiredis it made.\<close>

definition store_state ::
    "search_cache \<Rightarrow> nat \<Rightarrow> thread_state \<Rightarrow> redis_effect list \<Rightarrow> cache_world \<Rightarrow> cache_world" where
  "store_state sc th ts es w =
    w\<lparr>tls := AList.update (th, instance_id sc) ts (tls w), redis_log := redis_log w @ es\<rparr>"

definition cache_get ::
    "search_cache \<Rightarrow> cache_env \<Rightarrow> string \<Rightarrow> cache_world \<Rightarrow> cache_error + (string option \<times> cache_world)" where
  "cache_get sc env key w =
    (if cache_mode (config sc) = Disabled then Inr (None, w)
     else case currentThreadState sc (thread env) w of
       Inl e \<Rightarrow> Inl e
     | Inr (ts, w1) \<Rightarrow>
         let (success_L1, l1) = lru_get (now_get env) key (local_cache ts);
             ts1 = ts\<lparr>local_cache := l1\<rparr>
         in case success_L1 of
              Some v \<Rightarrow> Inr (Some v, store_state sc (thread env) ts1 [] w1)
            | None \<Rightarrow>
                if cache_mode (config sc) = LocalOnly then Inr (None, store_state sc (thread env) ts1 [] w1)
                else
                  let (success_L2, r1, es) = redis_get (redis_env env) key (redis ts1);
                      ts2 = ts1\<lparr>redis := r1\<rparr>
                  in case success_L2 of
                       None \<Rightarrow> Inr (None, store_state sc (thread env) ts2 es w1)
                     | Some v \<Rightarrow>
                         let ts3 = ts2\<lparr>local_cache := lru_put (now_put env) key v (local_cache ts2)\<rparr>
                         in Inr (Some v, store_state sc (thread env) ts3 es w1))"

definition cache_put ::
    "search_cache \<Rightarrow> cache_env \<Rightarrow> string \<Rightarrow> string \<Rightarrow> cache_world \<Rightarrow> cache_error + cache_world" where
  "cache_put sc env key val w =
    (if cache_mode (config sc) = Disabled then Inr w
     else case currentThreadState sc (thread env) w of
       Inl e \<Rightarrow> Inl e
     | Inr (ts, w1) \<Rightarrow>
         let ts1 = ts\<lparr>local_cache := lru_put (now_put env) key val (local_cache ts)\<rparr>
         in if cache_mode (config sc) = LocalAndRedis then
              let (ok, r1, es) = setEx (redis_env env) key val (redis_ttl (config sc)) (redis ts1)
              in Inr (store_state sc (thread env) (ts1\<lparr>redis := r1\<rparr>) es w1)
            else Inr (store_state sc (thread env) ts1 [] w1))"

definition currentThreadLocalStats ::
    "search_cache \<Rightarrow> nat \<Rightarrow> cache_world \<Rightarrow> cache_error + (lru_stats \<times> cache_world)" where
  "currentThreadLocalStats sc th w =
    (if cache_mode (config sc) = Disabled then Inr (zero_stats, w)
     else case currentThreadState sc th w of
       Inl e \<Rightarrow> Inl e
     | Inr (ts, w1) \<Rightarrow> Inr (stats (local_cache ts), w1))"

section \<open>The interface\<close>

text \<open>A cache is usable when its thread states can be built: also the Redis settings must be valid,
  which the constructor does not check.\<close>

definition cache_usable :: "search_cache \<Rightarrow> bool" where
  "cache_usable sc \<longleftrightarrow> cache_mode (config sc) = Disabled \<or>
     (0 < local_capacity (config sc) \<and> 0 < local_ttl (config sc) \<and> redis_host (config sc) \<noteq> [] \<and>
      0 < redis_port (config sc) \<and> redis_port (config sc) \<le> 65535 \<and> 0 < redis_timeout (config sc))"

text \<open>Every local cache of the instance holds only pairs that satisfy \<open>P\<close>; Redis answers only such
  (\<open>redis_sound\<close>, which \<open>redis_serves_sound\<close> below derives from what was stored).\<close>

definition cache_sound :: "search_cache \<Rightarrow> (string \<Rightarrow> string \<Rightarrow> bool) \<Rightarrow> cache_world \<Rightarrow> bool" where
  "cache_sound sc P w \<longleftrightarrow>
     (\<forall>th ts. map_of (tls w) (th, instance_id sc) = Some ts \<longrightarrow> lru_sound P (local_cache ts))"

definition redis_sound :: "(string \<Rightarrow> string \<Rightarrow> bool) \<Rightarrow> cache_env \<Rightarrow> bool" where
  "redis_sound P env \<longleftrightarrow>
     (\<forall>k v. answer (redis_env env) [''GET'', k] = Some (Reply_string (Some v)) \<longrightarrow> P k v)"

lemma ThreadState_Inr:
  "ThreadState cfg = Inr ts \<Longrightarrow> lru_inv (local_cache ts) \<and> entries (local_cache ts) = [] \<and>
     capacity (local_cache ts) = local_capacity cfg \<and> ttl (local_cache ts) = local_ttl cfg \<and>
     context_open (redis ts) = False"
  by (auto simp: ThreadState_def RedisClient_def LruCache_def lru_inv_def split: sum.splits if_splits)

lemma ThreadState_usable:
  "cache_usable sc \<Longrightarrow> cache_mode (config sc) \<noteq> Disabled \<Longrightarrow> \<exists>ts. ThreadState (config sc) = Inr ts"
  by (auto simp: cache_usable_def ThreadState_def LruCache_def RedisClient_def)

lemma currentThreadState_cases:
  assumes "currentThreadState sc th w = Inr (ts, w1)"
  obtains "map_of (tls w) (th, instance_id sc) = Some ts" and "w1 = w"
    | "map_of (tls w) (th, instance_id sc) = None" and "ThreadState (config sc) = Inr ts"
      and "w1 = w\<lparr>tls := emplace (th, instance_id sc) ts (tls w)\<rparr>"
  using assms by (auto simp: currentThreadState_def split: option.splits sum.splits)

lemma currentThreadState_sound:
  assumes "cache_sound sc P w" and "currentThreadState sc th w = Inr (ts, w1)"
  shows "cache_sound sc P w1 \<and> lru_sound P (local_cache ts)"
  using assms(2)
proof (cases rule: currentThreadState_cases)
  case 1
  with assms(1) show ?thesis by (auto simp: cache_sound_def)
next
  case 2
  from ThreadState_Inr [OF 2(2)] have "lru_sound P (local_cache ts)" by (simp add: lru_sound_def)
  with assms(1) 2 show ?thesis by (auto simp: cache_sound_def map_of_emplace)
qed

lemma store_state_sound:
  "cache_sound sc P w \<Longrightarrow> lru_sound P (local_cache ts) \<Longrightarrow> cache_sound sc P (store_state sc th ts es w)"
  by (auto simp: cache_sound_def store_state_def update_conv')

lemma currentThreadState_usable:
  "cache_usable sc \<Longrightarrow> cache_mode (config sc) \<noteq> Disabled \<Longrightarrow> \<exists>ts w1. currentThreadState sc th w = Inr (ts, w1)"
  using ThreadState_usable by (fastforce simp: currentThreadState_def split: option.split)

lemma redis_get_value:
  "redis_get env k c = (Some v, c', es) \<Longrightarrow> answer env [''GET'', k] = Some (Reply_string (Some v))"
  by (auto simp: step_simps split: if_splits connect_result.splits option.splits redis_reply.splits)

lemma cache_get_sound:
  assumes sound: "cache_sound sc P w" and env: "redis_sound P env"
    and get: "cache_get sc env key w = Inr (r, w')"
  shows "cache_sound sc P w' \<and> (\<forall>v. r = Some v \<longrightarrow> P key v)"
proof (cases "cache_mode (config sc) = Disabled")
  case True
  with sound get show ?thesis by (simp add: cache_get_def)
next
  case False
  then obtain ts w1 where cur: "currentThreadState sc (thread env) w = Inr (ts, w1)"
    using get by (auto simp: cache_get_def split: sum.splits)
  note s1 = currentThreadState_sound [OF sound cur]
  obtain r1 l1 where l1: "lru_get (now_get env) key (local_cache ts) = (r1, l1)" by (meson prod.exhaust)
  have l1s: "lru_sound P l1" "r1 = Some v \<Longrightarrow> P key v" for v
    using lru_get_sound [OF _ l1, of P] s1 by auto
  obtain r2 c2 es where l2: "redis_get (redis_env env) key (redis ts) = (r2, c2, es)" by (rule prod_cases3)
  have "r2 = Some v \<Longrightarrow> P key v" for v
    using env redis_get_value [of "redis_env env" key "redis ts"] l2 by (auto simp: redis_sound_def)
  then show ?thesis
    using get False cur l1 l1s l2 s1
    by (auto simp: cache_get_def Let_def intro!: store_state_sound lru_put_sound split: option.splits if_splits)
qed

lemma cache_put_sound:
  assumes sound: "cache_sound sc P w" and "P key v" and put: "cache_put sc env key v w = Inr w'"
  shows "cache_sound sc P w'"
proof (cases "cache_mode (config sc) = Disabled")
  case True
  with sound put show ?thesis by (simp add: cache_put_def)
next
  case False
  then obtain ts w1 where cur: "currentThreadState sc (thread env) w = Inr (ts, w1)"
    using put by (auto simp: cache_put_def split: sum.splits)
  note s1 = currentThreadState_sound [OF sound cur]
  show ?thesis using put False cur s1 assms(2)
    by (auto simp: cache_put_def Let_def intro!: store_state_sound lru_put_sound split: prod.splits if_splits)
qed

lemma cache_get_usable: "cache_usable sc \<Longrightarrow> \<exists>r w'. cache_get sc env key w = Inr (r, w')"
  using currentThreadState_usable [of sc "thread env" w]
  by (auto simp: cache_get_def Let_def split: prod.split option.split)

lemma cache_put_usable: "cache_usable sc \<Longrightarrow> \<exists>w'. cache_put sc env key v w = Inr w'"
  using currentThreadState_usable [of sc "thread env" w]
  by (auto simp: cache_put_def Let_def split: prod.split)

interpretation two_level: value_cache "\<lambda>w. cache_usable sc" "cache_sound sc" redis_sound
    "cache_get sc" "cache_put sc" for sc
proof unfold_locales
  show "cache_sound sc P w' \<and> (\<forall>v. r = Some v \<longrightarrow> P k v)"
    if "cache_sound sc P w" "redis_sound P env" "cache_get sc env k w = Inr (r, w')" for P w env k r w'
    using cache_get_sound that by blast
  show "cache_sound sc P w'" if "cache_sound sc P w" "P k v" "cache_put sc env k v w = Inr w'" for P w k v env w'
    using cache_put_sound that by blast
qed (simp_all add: cache_get_usable cache_put_usable)

section \<open>The shared store\<close>

text \<open>
  What the program relies on of Redis is its documented contract: \<open>GET\<close> answers a key only with a value
  that a \<open>SET\<close> has stored under it. The log of the world holds the commands of all threads, so the
  contract speaks of the log at the moment of the lookup: \<open>was_set\<close> reads it, whether or not the command
  got a reply, and \<open>redis_serves\<close> says that the answers of Redis come from there. Whether a value is
  still there, has expired or was overwritten is left open. What is stored is the program's own doing and
  is proved of it: \<open>log_sound\<close>.
\<close>

fun sets :: "redis_effect \<Rightarrow> (string \<times> string) option" where
  "sets (Command [cmd, k, v, ex, seconds] ok) = (if cmd = ''SET'' then Some (k, v) else None)"
| "sets e = None"

definition was_set :: "redis_effect list \<Rightarrow> string \<Rightarrow> string \<Rightarrow> bool" where
  "was_set es k v \<longleftrightarrow> Some (k, v) \<in> set (map sets es)"

definition redis_serves :: "cache_world \<Rightarrow> cache_env \<Rightarrow> bool" where
  "redis_serves w env \<longleftrightarrow>
     (\<forall>k v. answer (redis_env env) [''GET'', k] = Some (Reply_string (Some v)) \<longrightarrow> was_set (redis_log w) k v)"

definition log_sound :: "(string \<Rightarrow> string \<Rightarrow> bool) \<Rightarrow> cache_world \<Rightarrow> bool" where
  "log_sound P w \<longleftrightarrow> (\<forall>k v. was_set (redis_log w) k v \<longrightarrow> P k v)"

lemma was_set_append [simp]: "was_set (es @ es') k v \<longleftrightarrow> was_set es k v \<or> was_set es' k v"
  by (simp add: was_set_def)

lemma redis_serves_sound: "redis_serves w env \<Longrightarrow> log_sound P w \<Longrightarrow> redis_sound P env"
  by (simp add: redis_serves_def log_sound_def redis_sound_def)

lemma redis_get_sets: "redis_get env k c = (r, c', es) \<Longrightarrow> \<not> was_set es k' v'"
  by (auto simp: was_set_def step_simps split: if_splits connect_result.splits option.splits redis_reply.splits)

lemma setEx_sets: "setEx env k v secs c = (ok, c', es) \<Longrightarrow> was_set es k' v' \<Longrightarrow> k' = k \<and> v' = v"
  by (auto simp: was_set_def step_simps split: if_splits connect_result.splits option.splits redis_reply.splits)

lemma currentThreadState_log: "currentThreadState sc th w = Inr (ts, w1) \<Longrightarrow> redis_log w1 = redis_log w"
  by (erule currentThreadState_cases) simp_all

lemma log_sound_store:
  "log_sound P w \<Longrightarrow> (\<And>k v. was_set es k v \<Longrightarrow> P k v) \<Longrightarrow> log_sound P (store_state sc th ts es w)"
  by (auto simp: log_sound_def store_state_def)

lemma log_sound_current: "log_sound P w \<Longrightarrow> currentThreadState sc th w = Inr (ts, w1) \<Longrightarrow> log_sound P w1"
  by (simp add: log_sound_def currentThreadState_log)

lemma was_set_Nil [simp]: "\<not> was_set [] k v"
  by (simp add: was_set_def)

lemma cache_get_log:
  assumes log: "log_sound P w" and get: "cache_get sc env key w = Inr (r, w')"
  shows "log_sound P w'"
proof (cases "cache_mode (config sc) = Disabled")
  case True
  with log get show ?thesis by (simp add: cache_get_def)
next
  case False
  then obtain ts w1 where cur: "currentThreadState sc (thread env) w = Inr (ts, w1)"
    using get by (auto simp: cache_get_def split: sum.splits)
  obtain r1 l1 where l1: "lru_get (now_get env) key (local_cache ts) = (r1, l1)" by (meson prod.exhaust)
  obtain r2 c2 es where l2: "redis_get (redis_env env) key (redis ts) = (r2, c2, es)" by (rule prod_cases3)
  have store: "log_sound P (store_state sc th ts' es' w1)" if "es' = [] \<or> es' = es" for th ts' es'
    using that log_sound_current [OF log cur] redis_get_sets [OF l2] by (intro log_sound_store) auto
  show ?thesis
    using get False cur l1 l2 by (auto simp: cache_get_def Let_def intro!: store split: option.splits if_splits)
qed

lemma cache_put_log:
  assumes log: "log_sound P w" and right: "P key v" and put: "cache_put sc env key v w = Inr w'"
  shows "log_sound P w'"
proof (cases "cache_mode (config sc) = Disabled")
  case True
  with log put show ?thesis by (simp add: cache_put_def)
next
  case False
  then obtain ts w1 where cur: "currentThreadState sc (thread env) w = Inr (ts, w1)"
    using put by (auto simp: cache_put_def split: sum.splits)
  note log1 = log_sound_current [OF log cur]
  have store: "log_sound P (store_state sc th ts' es w1)"
    if "setEx (redis_env env) key v (redis_ttl (config sc)) c = (ok, c', es)" for c ok c' es th ts'
    using log1 setEx_sets [OF that] right by (intro log_sound_store) blast+
  have plain: "log_sound P (store_state sc th ts' [] w1)" for th ts'
    using log1 by (intro log_sound_store) simp_all
  show ?thesis
    using put False cur by (auto simp: cache_put_def Let_def intro: store plain split: prod.splits if_splits)
qed

text \<open>With both invariants the two levels are again a cache of the interface, and so is its memo.\<close>

interpretation shared_level: value_cache "\<lambda>w. cache_usable sc" "\<lambda>P w. cache_sound sc P w \<and> log_sound P w"
    redis_sound "cache_get sc" "cache_put sc" for sc
proof unfold_locales
  show "(cache_sound sc P w' \<and> log_sound P w') \<and> (\<forall>v. r = Some v \<longrightarrow> P k v)"
    if "cache_sound sc P w \<and> log_sound P w" "redis_sound P env" "cache_get sc env k w = Inr (r, w')" for P w env k r w'
    using that(1) two_level.get_sound [OF conjunct1 [OF that(1)] that(2,3)] cache_get_log [OF conjunct2 [OF that(1)] that(3)]
    by simp
  show "cache_sound sc P w' \<and> log_sound P w'"
    if "cache_sound sc P w \<and> log_sound P w" "P k v" "cache_put sc env k v w = Inr w'" for P w k v env w'
    using two_level.put_sound [OF conjunct1 [OF that(1)] that(2,3)] cache_put_log [OF conjunct2 [OF that(1)] that(2,3)]
    by simp
qed (simp_all add: cache_get_usable cache_put_usable)

text \<open>A Redis that keeps everything: it answers from the log of an earlier state of the world.\<close>

fun redis_memory :: "redis_effect list \<Rightarrow> string list \<Rightarrow> redis_reply option" where
  "redis_memory es [get, k] =
     (case map_of (rev (List.map_filter sets es)) k of None \<Rightarrow> Some Reply_nil | Some v \<Rightarrow> Some (Reply_string (Some v)))"
| "redis_memory es argv = Some (Reply_status (Some ''OK''))"

lemma redis_memory_serves:
  assumes "answer (redis_env env) = redis_memory (redis_log w)"
  shows "redis_serves w env"
proof -
  have "was_set es k v" if "map_of (rev (List.map_filter sets es)) k = Some v" for es k v
    using map_of_SomeD [OF that] by (auto simp: was_set_def List.map_filter_def image_iff) metis
  then show ?thesis using assms by (auto simp: redis_serves_def split: option.splits)
qed

section \<open>Traces\<close>

datatype cache_op = Cache_get cache_env string | Cache_put cache_env string string

fun op_env :: "cache_op \<Rightarrow> cache_env" where
  "op_env (Cache_get env k) = env"
| "op_env (Cache_put env k v) = env"

text \<open>The answers of the lookups of a trace; an exception ends it.\<close>

fun cache_run :: "search_cache \<Rightarrow> cache_op list \<Rightarrow> cache_world \<Rightarrow> cache_error + (string option list \<times> cache_world)" where
  "cache_run sc [] w = Inr ([], w)"
| "cache_run sc (Cache_get env k # ops) w =
     (case cache_get sc env k w of
        Inl e \<Rightarrow> Inl e
      | Inr (r, w1) \<Rightarrow>
          (case cache_run sc ops w1 of Inl e \<Rightarrow> Inl e | Inr (rs, w2) \<Rightarrow> Inr (r # rs, w2)))"
| "cache_run sc (Cache_put env k v # ops) w =
     (case cache_put sc env k v w of Inl e \<Rightarrow> Inl e | Inr w1 \<Rightarrow> cache_run sc ops w1)"

definition fresh_world :: cache_world where
  "fresh_world = \<lparr>tls = [], redis_log = []\<rparr>"

text \<open>A value was delivered under a key: the program stored it, or Redis answered it.\<close>

definition delivered :: "cache_op list \<Rightarrow> string \<Rightarrow> string \<Rightarrow> bool" where
  "delivered ops k v \<longleftrightarrow>
     (\<exists>env. Cache_put env k v \<in> set ops) \<or>
     (\<exists>op \<in> set ops. answer (redis_env (op_env op)) [''GET'', k] = Some (Reply_string (Some v)))"

lemma cache_run_sound:
  assumes "\<And>env k v. Cache_put env k v \<in> set ops \<Longrightarrow> P k v" and "\<And>op. op \<in> set ops \<Longrightarrow> redis_sound P (op_env op)"
  shows "cache_sound sc P w \<Longrightarrow> cache_run sc ops w = Inr (rs, w') \<Longrightarrow> cache_sound sc P w'"
  using assms
proof (induction sc ops w arbitrary: rs w' rule: cache_run.induct)
  case (2 sc env k ops w)
  obtain r w1 rs1 where step: "cache_get sc env k w = Inr (r, w1)" "cache_run sc ops w1 = Inr (rs1, w')"
    using "2.prems"(2) by (auto split: sum.splits)
  have env: "redis_sound P env" using "2.prems"(4) [of "Cache_get env k"] by simp
  have "cache_sound sc P w1" using two_level.get_sound [OF "2.prems"(1) env step(1)] by blast
  then show ?case using "2.IH" [OF step(1) refl _ step(2)] "2.prems"(3,4) by simp
next
  case (3 sc env k v ops w)
  obtain w1 where step: "cache_put sc env k v w = Inr w1" "cache_run sc ops w1 = Inr (rs, w')"
    using "3.prems"(2) by (auto split: sum.splits)
  have "cache_sound sc P w1"
    using two_level.put_sound [OF "3.prems"(1) _ step(1)] "3.prems"(3) by auto
  then show ?case
    by (rule "3.IH" [OF step(1) _ step(2)]) (auto intro: "3.prems"(3,4))
qed auto

text \<open>The cache never mixes up keys, threads or levels: over any interleaving of operations of any
  threads from a fresh start, a value that a lookup returns was stored under exactly that key by an
  earlier operation of the program or answered by Redis to a lookup of exactly that key.\<close>

theorem cache_values_have_provenance:
  assumes "cache_run sc ops fresh_world = Inr (rs, w)" and "cache_get sc env k w = Inr (Some v, w')"
  shows "delivered (ops @ [Cache_get env k]) k v"
proof -
  let ?P = "delivered (ops @ [Cache_get env k])"
  have env: "redis_sound ?P env'" if "op \<in> set (ops @ [Cache_get env k])" "env' = op_env op" for op env'
    using that by (auto simp: redis_sound_def delivered_def)
  have "cache_sound sc ?P fresh_world" by (simp add: cache_sound_def fresh_world_def)
  then have "cache_sound sc ?P w"
    using cache_run_sound [where P = ?P, OF _ _ _ assms(1)] env by (auto simp: delivered_def)
  moreover have "redis_sound ?P env" by (rule env [of "Cache_get env k"]) auto
  ultimately show ?thesis using two_level.get_sound [OF _ _ assms(2)] by blast
qed

section \<open>Threads\<close>

lemma currentThreadState_frame:
  "currentThreadState sc th w = Inr (ts, w1) \<Longrightarrow> i \<noteq> (th, instance_id sc) \<Longrightarrow>
    map_of (tls w1) i = map_of (tls w) i"
  by (erule currentThreadState_cases) (auto simp: map_of_emplace split: option.splits)

lemma store_state_lookup:
  "map_of (tls (store_state sc th ts es w)) = (map_of (tls w))((th, instance_id sc) \<mapsto> ts)"
  by (simp add: store_state_def update_conv')

lemma mode_rest: "m \<noteq> Disabled \<Longrightarrow> m \<noteq> LocalOnly \<Longrightarrow> m = LocalAndRedis"
  by (cases m) auto

lemma store_log: "redis_log (store_state sc th ts es w) = redis_log w @ es"
  by (simp add: store_state_def)

text \<open>Threads and instances do not interfere: an operation of one thread on one cache leaves the
  local cache and the Redis client of every other thread, and of every other cache instance, as they
  are; and unless Redis is switched on no operation calls hiredis.\<close>

theorem cache_isolation:
  assumes "i \<noteq> (thread env, instance_id sc)"
    and "cache_get sc env k w = Inr (r, w1)" and "cache_put sc env k v w = Inr w2"
  shows "map_of (tls w1) i = map_of (tls w) i \<and> map_of (tls w2) i = map_of (tls w) i \<and>
    (cache_mode (config sc) \<noteq> LocalAndRedis \<longrightarrow> redis_log w1 = redis_log w \<and> redis_log w2 = redis_log w)"
proof (cases "cache_mode (config sc) = Disabled")
  case True
  with assms show ?thesis by (simp add: cache_get_def cache_put_def)
next
  case False
  then obtain ts w0 where cur: "currentThreadState sc (thread env) w = Inr (ts, w0)"
    using assms(2) by (auto simp: cache_get_def split: sum.splits)
  have w0: "map_of (tls w0) i = map_of (tls w) i" using currentThreadState_frame [OF cur assms(1)] .
  have log: "redis_log w0 = redis_log w" using cur by (cases rule: currentThreadState_cases) auto
  have "map_of (tls w1) i = map_of (tls w) i \<and> (cache_mode (config sc) \<noteq> LocalAndRedis \<longrightarrow> redis_log w1 = redis_log w)"
    using assms(1,2) False cur w0 log
    by (auto simp: cache_get_def Let_def store_state_lookup store_log dest: mode_rest split: prod.splits option.splits if_splits)
  moreover have "map_of (tls w2) i = map_of (tls w) i \<and> (cache_mode (config sc) \<noteq> LocalAndRedis \<longrightarrow> redis_log w2 = redis_log w)"
    using assms(1,3) False cur w0 log
    by (auto simp: cache_put_def Let_def store_state_lookup store_log split: prod.splits if_splits)
  ultimately show ?thesis by blast
qed

section \<open>Two levels\<close>





section \<open>Redis unavailable\<close>

text \<open>What one level alone does: a local cache per thread, made on first use.\<close>

definition locals :: "search_cache \<Rightarrow> cache_world \<Rightarrow> nat \<Rightarrow> lru_cache option" where
  "locals sc w th = map_option local_cache (map_of (tls w) (th, instance_id sc))"

definition local_of :: "cache_config \<Rightarrow> (nat \<Rightarrow> lru_cache option) \<Rightarrow> nat \<Rightarrow> cache_error + lru_cache" where
  "local_of cfg m th =
    (case m th of Some l \<Rightarrow> Inr l
     | None \<Rightarrow> (case ThreadState cfg of Inl e \<Rightarrow> Inl e | Inr ts \<Rightarrow> Inr (local_cache ts)))"

fun local_run :: "cache_config \<Rightarrow> cache_op list \<Rightarrow> (nat \<Rightarrow> lru_cache option) \<Rightarrow> cache_error + string option list" where
  "local_run cfg [] m = Inr []"
| "local_run cfg (Cache_get env k # ops) m =
     (case local_of cfg m (thread env) of
        Inl e \<Rightarrow> Inl e
      | Inr l \<Rightarrow> let (r, l') = lru_get (now_get env) k l
                 in map_sum id ((#) r) (local_run cfg ops (m(thread env \<mapsto> l'))))"
| "local_run cfg (Cache_put env k v # ops) m =
     (case local_of cfg m (thread env) of
        Inl e \<Rightarrow> Inl e
      | Inr l \<Rightarrow> local_run cfg ops (m(thread env \<mapsto> lru_put (now_put env) k v l)))"

definition no_answer :: "cache_env \<Rightarrow> bool" where
  "no_answer env \<longleftrightarrow> (\<forall>k v. answer (redis_env env) [''GET'', k] \<noteq> Some (Reply_string (Some v)))"

lemma local_of_current:
  "currentThreadState sc th w =
     (case map_of (tls w) (th, instance_id sc) of
        Some ts \<Rightarrow> Inr (ts, w)
      | None \<Rightarrow> map_sum id (\<lambda>ts. (ts, w\<lparr>tls := emplace (th, instance_id sc) ts (tls w)\<rparr>)) (ThreadState (config sc)))"
  by (auto simp: currentThreadState_def split: option.split sum.split)

lemma currentThreadState_local:
  "currentThreadState sc th w = Inl e \<Longrightarrow> local_of (config sc) (locals sc w) th = Inl e"
  "currentThreadState sc th w = Inr (ts, w1) \<Longrightarrow>
     local_of (config sc) (locals sc w) th = Inr (local_cache ts) \<and>
     (locals sc w1)(th := x) = (locals sc w)(th := x)"
  by (auto simp: currentThreadState_def local_of_def locals_def map_of_emplace fun_eq_iff
      split: option.splits sum.splits)

lemma locals_store:
  "locals sc (store_state sc th ts es w) = (locals sc w)(th \<mapsto> local_cache ts)"
  by (auto simp: locals_def store_state_lookup fun_eq_iff)

lemma cache_get_local:
  assumes "cache_mode (config sc) \<noteq> Disabled" and "cache_mode (config sc) = LocalOnly \<or> no_answer env"
  shows "case cache_get sc env k w of
      Inl e \<Rightarrow> local_of (config sc) (locals sc w) (thread env) = Inl e
    | Inr (r, w1) \<Rightarrow> \<exists>l l'. local_of (config sc) (locals sc w) (thread env) = Inr l \<and>
        lru_get (now_get env) k l = (r, l') \<and> locals sc w1 = (locals sc w)(thread env \<mapsto> l')"
proof (cases "currentThreadState sc (thread env) w")
  case (Inl e)
  with assms show ?thesis by (simp add: cache_get_def currentThreadState_local)
next
  case (Inr x)
  then obtain ts w1 where cur: "currentThreadState sc (thread env) w = Inr (ts, w1)" by (cases x) simp
  obtain r l where l: "lru_get (now_get env) k (local_cache ts) = (r, l)" by (meson prod.exhaust)
  note loc = currentThreadState_local(2) [OF cur]
  obtain r2 c2 es where r2: "redis_get (redis_env env) k (redis ts) = (r2, c2, es)" by (rule prod_cases3)
  have "no_answer env \<Longrightarrow> r2 = None"
    using redis_get_value [of "redis_env env" k "redis ts"] r2 by (cases r2) (auto simp: no_answer_def)
  with assms cur l loc r2 show ?thesis
    by (auto simp: cache_get_def Let_def locals_store split: option.split)
qed

lemma cache_put_local:
  assumes "cache_mode (config sc) \<noteq> Disabled"
  shows "case cache_put sc env k v w of
      Inl e \<Rightarrow> local_of (config sc) (locals sc w) (thread env) = Inl e
    | Inr w1 \<Rightarrow> \<exists>l. local_of (config sc) (locals sc w) (thread env) = Inr l \<and>
        locals sc w1 = (locals sc w)(thread env \<mapsto> lru_put (now_put env) k v l)"
proof (cases "currentThreadState sc (thread env) w")
  case (Inl e)
  with assms show ?thesis by (simp add: cache_put_def currentThreadState_local)
next
  case (Inr x)
  then obtain ts w1 where cur: "currentThreadState sc (thread env) w = Inr (ts, w1)" by (cases x) simp
  with assms currentThreadState_local(2) [OF cur] show ?thesis
    by (auto simp: cache_put_def Let_def locals_store split: prod.split)
qed

lemma cache_run_local:
  assumes "cache_mode (config sc) \<noteq> Disabled"
    and "cache_mode (config sc) = LocalOnly \<or> list_all (\<lambda>op. no_answer (op_env op)) ops"
  shows "map_sum id fst (cache_run sc ops w) = local_run (config sc) ops (locals sc w)"
  using assms
proof (induction sc ops w rule: cache_run.induct)
  case (2 sc env k ops w)
  have get: "cache_mode (config sc) = LocalOnly \<or> no_answer env" using "2.prems"(2) by auto
  note local = cache_get_local [OF "2.prems"(1) get, where k = k and w = w]
  show ?case
  proof (cases "cache_get sc env k w")
    case (Inl e)
    with local show ?thesis by simp
  next
    case (Inr x)
    then obtain r w1 where eq: "cache_get sc env k w = Inr (r, w1)" by (cases x) simp
    have "map_sum id fst (cache_run sc ops w1) = local_run (config sc) ops (locals sc w1)"
      by (rule "2.IH" [OF eq refl]) (use "2.prems" in auto)
    moreover from local eq obtain l l' where l: "local_of (config sc) (locals sc w) (thread env) = Inr l"
      "lru_get (now_get env) k l = (r, l')" "locals sc w1 = (locals sc w)(thread env \<mapsto> l')" by auto
    ultimately have "local_run (config sc) ops ((locals sc w)(thread env \<mapsto> l')) = map_sum id fst (cache_run sc ops w1)"
      by simp
    with eq l show ?thesis by (cases "cache_run sc ops w1") (simp_all split: prod.split)
  qed
next
  case (3 sc env k v ops w)
  note local = cache_put_local [OF "3.prems"(1), where env = env and k = k and v = v and w = w]
  show ?case
  proof (cases "cache_put sc env k v w")
    case (Inl e)
    with local show ?thesis by simp
  next
    case (Inr w1)
    have "map_sum id fst (cache_run sc ops w1) = local_run (config sc) ops (locals sc w1)"
      by (rule "3.IH" [OF Inr]) (use "3.prems" in auto)
    with local Inr show ?thesis by (auto simp: id_def)
  qed
qed simp

definition without_redis :: "search_cache \<Rightarrow> search_cache" where
  "without_redis sc = sc\<lparr>config := (config sc)\<lparr>cache_mode := LocalOnly\<rparr>\<rparr>"

lemma local_of_mode: "local_of (cfg\<lparr>cache_mode := md\<rparr>) m th = local_of cfg m th"
  by (simp add: local_of_def ThreadState_def [of "cfg\<lparr>cache_mode := md\<rparr>"] ThreadState_def [of cfg] split: option.split sum.split)

lemma local_run_mode: "local_run (cfg\<lparr>cache_mode := md\<rparr>) ops m = local_run cfg ops m"
  by (induction cfg ops m rule: local_run.induct)
    (auto simp: local_of_mode simp del: fun_upd_apply split: sum.splits prod.splits)

text \<open>C33: The second level degrades gracefully: if Redis never answers a lookup with a value
  (because it cannot be reached, times out, fails or has nothing), every trace of operations of all
  threads gives on the two-level cache exactly the answers, and raises exactly the exceptions, that it
  gives on the local cache alone.\<close>

theorem redis_failure_is_local_only:
  assumes "cache_mode (config sc) = LocalAndRedis" and "list_all (\<lambda>op. no_answer (op_env op)) ops"
  shows "map_sum id fst (cache_run sc ops fresh_world) =
    map_sum id fst (cache_run (without_redis sc) ops fresh_world)"
proof -
  have "locals sc fresh_world = locals (without_redis sc) fresh_world"
    by (simp add: locals_def fresh_world_def fun_eq_iff)
  then show ?thesis
    using cache_run_local [of sc ops fresh_world] cache_run_local [of "without_redis sc" ops fresh_world] assms
    by (simp add: without_redis_def local_run_mode)
qed

section \<open>Examples\<close>

definition sample_sc :: search_cache where
  "sample_sc = \<lparr>config = default_config, instance_id = 1\<rparr>"

lemma sample_usable: "cache_usable sample_sc"
  by (simp add: cache_usable_def sample_sc_def default_config_def)

text \<open>Redis answers every lookup with \<open>r\<close>, or cannot be reached.\<close>

definition env_with :: "string \<Rightarrow> nat \<Rightarrow> cache_env" where
  "env_with r th = \<lparr>thread = th, now_get = 5, now_put = 5,
     redis_env = \<lparr>connect_result = Context_ok True, answer = (\<lambda>_. Some (Reply_string (Some r)))\<rparr>\<rparr>"

definition env_down :: "nat \<Rightarrow> cache_env" where
  "env_down th = \<lparr>thread = th, now_get = 5, now_put = 5,
     redis_env = \<lparr>connect_result = No_context, answer = (\<lambda>_. None)\<rparr>\<rparr>"

definition sample_trace :: "cache_op list" where
  "sample_trace = [Cache_put (env_down 1) ''k'' ''v'', Cache_get (env_down 1) ''k'', Cache_get (env_down 2) ''k'']"

lemma redis_failure_is_local_only_witness:
  "map_sum id fst (cache_run sample_sc sample_trace fresh_world) =
     map_sum id fst (cache_run (without_redis sample_sc) sample_trace fresh_world)"
  by (rule redis_failure_is_local_only)
    (simp_all add: sample_sc_def default_config_def sample_trace_def no_answer_def env_down_def)

text \<open>The trace is not vacuous: the local level answers the thread that stored, not the other one.\<close>

lemma sample_trace_run:
  "map_sum id fst (cache_run sample_sc sample_trace fresh_world) = Inr [Some ''v'', None]"
  by code_simp

definition sample_world :: cache_world where
  "sample_world = snd (projr (cache_run sample_sc sample_trace fresh_world))"

lemma sample_world: "cache_run sample_sc sample_trace fresh_world = Inr ([Some ''v'', None], sample_world)"
  using sample_trace_run unfolding sample_world_def
  by (cases "cache_run sample_sc sample_trace fresh_world") auto

lemma cache_values_have_provenance_witness:
  "delivered (sample_trace @ [Cache_get (env_with ''r'' 2) ''k'']) ''k'' ''r''"
proof -
  have "case cache_get sample_sc (env_with ''r'' 2) ''k'' sample_world of Inl e \<Rightarrow> False | Inr (r, _) \<Rightarrow> r = Some ''r''"
    by code_simp
  then obtain w' where "cache_get sample_sc (env_with ''r'' 2) ''k'' sample_world = Inr (Some ''r'', w')"
    by (auto split: sum.splits)
  then show ?thesis by (rule cache_values_have_provenance [OF sample_world])
qed


lemma cache_isolation_witness:
  "\<exists>w1 w2. cache_get sample_sc (env_with ''r'' 1) ''k'' fresh_world = Inr (Some ''r'', w1) \<and>
     cache_put sample_sc (env_with ''r'' 1) ''k'' ''v'' fresh_world = Inr w2 \<and>
     map_of (tls w1) (2, 1) = map_of (tls fresh_world) (2, 1)"
proof -
  obtain w2 where put: "cache_put sample_sc (env_with ''r'' 1) ''k'' ''v'' fresh_world = Inr w2"
    using cache_put_usable [OF sample_usable] by blast
  have "case cache_get sample_sc (env_with ''r'' 1) ''k'' fresh_world of Inl e \<Rightarrow> False | Inr (r, _) \<Rightarrow> r = Some ''r''"
    by code_simp
  then obtain w1 where get: "cache_get sample_sc (env_with ''r'' 1) ''k'' fresh_world = Inr (Some ''r'', w1)"
    by (auto split: sum.splits)
  have "(2, 1) \<noteq> (thread (env_with ''r'' 1), instance_id sample_sc)" by (simp add: env_with_def)
  from cache_isolation [OF this get put] get put show ?thesis by blast
qed

text \<open>The Redis settings are checked only when a thread first uses the cache: with a bad port the
  constructor succeeds and the first lookup raises, even if Redis is switched off.\<close>

lemma redis_settings_checked_late:
  "SearchCache (default_config\<lparr>cache_mode := LocalOnly, redis_port := 0\<rparr>) 1 =
     (Inr \<lparr>config = default_config\<lparr>cache_mode := LocalOnly, redis_port := 0\<rparr>, instance_id = 1\<rparr>, 2)"
  "cache_get \<lparr>config = default_config\<lparr>cache_mode := LocalOnly, redis_port := 0\<rparr>, instance_id = 1\<rparr> (env_down 1) ''k'' fresh_world =
     Inl (Redis_invalid (Redis_error ''Redis port must be in range 1..65535''))"
  by (simp_all add: SearchCache_def default_config_def cache_get_def currentThreadState_def fresh_world_def
      ThreadState_def LruCache_def RedisClient_def)

end
