(* ===== verification/SearchApplication.thy ===== *)
theory SearchApplication
  imports HttpResponse DocumentLoader SearchService SearchCache "HOL-Library.Monad_Syntax"
begin

text \<open>
  \<open>src/search/SearchApplication.h\<close>, \<open>src/search/SearchApplication.cpp\<close>: the request handler. It
  ties the parser, the index, the ranking, the JSON output and the cache together. The main results:
  a JSON reader recovers query and results from the output, the cache is invisible to clients, and a
  well-formed search request is answered with the ranked scan of the corpus.
\<close>

section \<open>Output\<close>

definition kSearchTopK :: nat where
  "kSearchTopK = 10"

definition makeSearchCacheKey :: "string \<Rightarrow> string" where
  "makeSearchCacheKey query = ''search-json:v1:top-k='' @ to_string kSearchTopK @ '':q='' @ query"

abbreviation dquote :: char where
  "dquote \<equiv> CHR 0x22"

abbreviation backslash :: char where
  "backslash \<equiv> CHR 0x5C"

definition hex_lower :: "nat \<Rightarrow> char" where
  "hex_lower d = char_of (if d < 10 then 48 + d else 87 + d)"

definition escape_char :: "char \<Rightarrow> string" where
  "escape_char c =
    (if c = dquote then [backslash, dquote]
     else if c = backslash then [backslash, backslash]
     else if c = CHR 0x08 then [backslash, CHR ''b'']
     else if c = CHR 0x0C then [backslash, CHR ''f'']
     else if c = CHR 0x0A then [backslash, CHR ''n'']
     else if c = CHR 0x0D then [backslash, CHR ''r'']
     else if c = CHR 0x09 then [backslash, CHR ''t'']
     else if code c < 32 then
       [backslash, CHR ''u'', CHR ''0'', CHR ''0'', hex_lower (code c div 16), hex_lower (code c mod 16)]
     else [c])"

definition escapeJson :: "string \<Rightarrow> string" where
  "escapeJson val = concat (map escape_char val)"

definition kMaxSnippetLength :: nat where
  "kMaxSnippetLength = 240"

definition makeSnippet :: "string \<Rightarrow> string" where
  "makeSnippet txt =
    (if length txt \<le> kMaxSnippetLength then txt else take kMaxSnippetLength txt @ ''...'')"

definition result_json :: "'s fp_ops \<Rightarrow> 's search_result \<Rightarrow> string" where
  \<open>result_json fp r =
    (let c = result_chunk r in
      ''{"chunk_id":'' @ to_string (chunk_id c)
      @ '',"title":"'' @ escapeJson (title c)
      @ ''","category":"'' @ escapeJson (category c)
      @ ''","source_path":"'' @ escapeJson (source_path c)
      @ ''","heading_path":"'' @ escapeJson (heading_path c)
      @ ''","snippet":"'' @ escapeJson (makeSnippet (raw_text c))
      @ ''","matched_terms":'' @ to_string (result_matched r)
      @ '',"score":'' @ fp_fixed6 fp (result_score r)
      @ ''}'')\<close>

fun results_json :: "'s fp_ops \<Rightarrow> nat \<Rightarrow> 's search_result list \<Rightarrow> string" where
  "results_json fp index [] = []"
| "results_json fp index (r # rs) =
     (if index \<noteq> 0 then '','' else []) @ result_json fp r @ results_json fp (index + 1) rs"

definition toJson :: "'s fp_ops \<Rightarrow> string \<Rightarrow> 's search_result list \<Rightarrow> string" where
  \<open>toJson fp query results =
    ''{"query":"'' @ escapeJson query @ ''","results":['' @ results_json fp 0 results @ '']}'' @ [newline_char]\<close>

section \<open>The application\<close>

record application_response =
  response_bytes :: string
  close_after_response :: bool

record search_application =
  app_chunks :: "document_chunk list"
  app_index :: inverted_index
  search_service :: search_service
  search_cache :: search_cache

datatype app_error = App_fs fs_error | App_cache cache_error | App_runtime string

text \<open>The members are built in their order; the service refers to the index, which is filled after
  the check that the root is a directory.\<close>

definition SearchApplication ::
    "string \<Rightarrow> documents_root \<Rightarrow> cache_config \<Rightarrow> u64 \<Rightarrow> (app_error + search_application) \<times> u64" where
  "SearchApplication root_path root cfg next_id =
    (case loadDocuments root of
       Inl e \<Rightarrow> (Inl (App_fs e), next_id)
     | Inr cs \<Rightarrow>
         (case SearchCache cfg next_id of
            (Inl e, next_id') \<Rightarrow> (Inl (App_cache e), next_id')
          | (Inr sc, next_id') \<Rightarrow>
              (if \<not> (case root of Directory _ _ \<Rightarrow> True | _ \<Rightarrow> False) then
                 (Inl (App_runtime (''documents root is not a directory: '' @ root_path)), next_id')
               else
                 let index = build_index cs
                 in (Inr \<lparr>app_chunks = cs, app_index = index, search_service = SearchService cs index,
                          search_cache = sc\<rparr>, next_id'))))"

definition SearchApplication_default ::
    "string \<Rightarrow> documents_root \<Rightarrow> u64 \<Rightarrow> (app_error + search_application) \<times> u64" where
  "SearchApplication_default root_path root next_id = SearchApplication root_path root default_config next_id"

definition handleRequest ::
    "('s :: linorder) fp_ops \<Rightarrow> (string list \<Rightarrow> string list) \<Rightarrow> search_application \<Rightarrow> cache_env \<Rightarrow> string \<Rightarrow>
      cache_world \<Rightarrow> cache_error + (application_response \<times> cache_world)" where
  "handleRequest fp order app env request w =
    (case parseRequest request of
       None \<Rightarrow> Inr (\<lparr>response_bytes = badRequest (''Only complete GET requests are supported'' @ [newline_char]) False,
                    close_after_response = False\<rparr>, w)
     | Some parsed \<Rightarrow>
         if request_method parsed \<noteq> ''GET'' then
           Inr (\<lparr>response_bytes = badRequest (''Only complete GET requests are supported'' @ [newline_char]) False,
                 close_after_response = False\<rparr>, w)
         else
           let cl = shouldCloseConnection parsed in
           if request_path parsed = ''/'' then
             Inr (\<lparr>response_bytes = okText (''Hello CppSearchServer'' @ [newline_char]) cl,
                   close_after_response = cl\<rparr>, w)
           else if request_path parsed \<noteq> ''/search'' then
             Inr (\<lparr>response_bytes = notFound cl, close_after_response = cl\<rparr>, w)
           else
             (case findQueryParam parsed ''q'' of
                None \<Rightarrow> Inr (\<lparr>response_bytes = badRequest (''The q query parameter is required'' @ [newline_char]) cl,
                             close_after_response = cl\<rparr>, w)
              | Some query \<Rightarrow>
                  if query = [] then
                    Inr (\<lparr>response_bytes = badRequest (''The q query parameter is required'' @ [newline_char]) cl,
                          close_after_response = cl\<rparr>, w)
                  else
                    let cache_key = makeSearchCacheKey query in
                    (case cache_get (search_cache app) env cache_key w of
                       Inl e \<Rightarrow> Inl e
                     | Inr (Some cached_json, w1) \<Rightarrow>
                         Inr (\<lparr>response_bytes = okJson cached_json cl, close_after_response = cl\<rparr>, w1)
                     | Inr (None, w1) \<Rightarrow>
                         let json = toJson fp query (search fp order (search_service app) query kSearchTopK) in
                         (case cache_put (search_cache app) env cache_key json w1 of
                            Inl e \<Rightarrow> Inl e
                          | Inr w2 \<Rightarrow>
                              Inr (\<lparr>response_bytes = okJson json cl, close_after_response = cl\<rparr>, w2)))))"

definition cacheStats ::
    "search_application \<Rightarrow> nat \<Rightarrow> cache_world \<Rightarrow> cache_error + (lru_stats \<times> cache_world)" where
  "cacheStats app th w = currentThreadLocalStats (search_cache app) th w"

section \<open>Reading the output\<close>

definition unhex :: "char \<Rightarrow> nat" where
  "unhex c = nat (hexValue c)"

text \<open>A reader of JSON string contents up to the closing quote, with the escapes of the standard
  (numbers below 256). It refuses bare control characters.\<close>

fun read_string :: "string \<Rightarrow> (string \<times> string) option" where
  "read_string [] = None"
| "read_string (c # cs) =
    (if c = dquote then Some ([], cs)
     else if code c < 32 then None
     else if c \<noteq> backslash then map_option (apfst (Cons c)) (read_string cs)
     else (case cs of
             [] \<Rightarrow> None
           | e # cs1 \<Rightarrow>
               if e = CHR ''u'' then
                 (case cs1 of
                    z1 # z2 # h # l # cs2 \<Rightarrow>
                      if z1 = CHR ''0'' \<and> z2 = CHR ''0'' then
                        map_option (apfst (Cons (char_of (16 * unhex h + unhex l)))) (read_string cs2)
                      else None
                  | _ \<Rightarrow> None)
               else
                 (case map_of [(dquote, dquote), (backslash, backslash), (CHR ''b'', CHR 0x08), (CHR ''f'', CHR 0x0C),
                               (CHR ''n'', CHR 0x0A), (CHR ''r'', CHR 0x0D), (CHR ''t'', CHR 0x09)] e of
                    Some d \<Rightarrow> map_option (apfst (Cons d)) (read_string cs1)
                  | None \<Rightarrow> None)))"

lemma hexValue_hex_lower: "d < 16 \<Longrightarrow> unhex (hex_lower d) = d"
  by (auto simp: unhex_def hexValue_def hex_lower_def)

lemma read_string_escape_char:
  "read_string (escape_char c @ cs) = map_option (apfst (Cons c)) (read_string cs)"
proof -
  have "c = CHR 0x22 \<or> c = CHR 0x5C \<or> c = CHR 0x08 \<or> c = CHR 0x0C \<or> c = CHR 0x0A \<or> c = CHR 0x0D \<or> c = CHR 0x09 \<or>
      (c \<notin> {CHR 0x22, CHR 0x5C, CHR 0x08, CHR 0x0C, CHR 0x0A, CHR 0x0D, CHR 0x09} \<and> code c < 32) \<or>
      (c \<noteq> CHR 0x22 \<and> c \<noteq> CHR 0x5C \<and> \<not> code c < 32)"
    by blast
  moreover have "char_of (16 * (code c div 16) + code c mod 16) = c" by simp
  ultimately show ?thesis
    by (elim disjE) (auto simp: escape_char_def hexValue_hex_lower)
qed

lemma read_string_escapeJson: "read_string (escapeJson s @ dquote # rest) = Some (s, rest)"
  by (induction s) (simp_all add: escapeJson_def read_string_escape_char)

definition expect :: "string \<Rightarrow> string \<Rightarrow> string option" where
  "expect p s = (if prefix p s then Some (drop (length p) s) else None)"

definition read_number :: "string \<Rightarrow> (nat \<times> string) option" where
  "read_number s =
    (if takeWhile is_digit_char s = [] then None
     else Some (decimal (takeWhile is_digit_char s), dropWhile is_digit_char s))"

record row =
  row_id :: nat
  row_title :: string
  row_category :: string
  row_source :: string
  row_heading :: string
  row_snippet :: string
  row_matched :: nat
  row_score :: string

definition read_row :: "string \<Rightarrow> (row \<times> string) option" where
  \<open>read_row s0 = do {
     s1 \<leftarrow> expect ''{"chunk_id":'' s0;
     (i, s2) \<leftarrow> read_number s1;
     s3 \<leftarrow> expect '',"title":"'' s2;
     (t, s4) \<leftarrow> read_string s3;
     s5 \<leftarrow> expect '',"category":"'' s4;
     (c, s6) \<leftarrow> read_string s5;
     s7 \<leftarrow> expect '',"source_path":"'' s6;
     (p, s8) \<leftarrow> read_string s7;
     s9 \<leftarrow> expect '',"heading_path":"'' s8;
     (h, s10) \<leftarrow> read_string s9;
     s11 \<leftarrow> expect '',"snippet":"'' s10;
     (sn, s12) \<leftarrow> read_string s11;
     s13 \<leftarrow> expect '',"matched_terms":'' s12;
     (m, s14) \<leftarrow> read_number s13;
     s15 \<leftarrow> expect '',"score":'' s14;
     s16 \<leftarrow> expect ''}'' (dropWhile (\<lambda>c. c \<noteq> CHR ''}'') s15);
     Some (\<lparr>row_id = i, row_title = t, row_category = c, row_source = p, row_heading = h,
            row_snippet = sn, row_matched = m, row_score = takeWhile (\<lambda>c. c \<noteq> CHR ''}'') s15\<rparr>, s16)
   }\<close>

function read_rows :: "string \<Rightarrow> (row list \<times> string) option" where
  "read_rows s =
    (case read_row s of
       None \<Rightarrow> None
     | Some (r, s') \<Rightarrow>
         if prefix '','' s' \<and> length s' < length s then map_option (apfst (Cons r)) (read_rows (tl s'))
         else Some ([r], s'))"
  by pat_completeness auto
termination by (relation "measure length") auto

declare read_rows.simps [simp del]

definition read_json :: "string \<Rightarrow> (string \<times> row list) option" where
  \<open>read_json s0 = do {
     s1 \<leftarrow> expect ''{"query":"'' s0;
     (q, s2) \<leftarrow> read_string s1;
     s3 \<leftarrow> expect '',"results":['' s2;
     (rows, s4) \<leftarrow> (if prefix '']'' s3 then Some ([], s3) else read_rows s3);
     if s4 = '']}'' @ [newline_char] then Some (q, rows) else None
   }\<close>

definition row_of :: "'s fp_ops \<Rightarrow> 's search_result \<Rightarrow> row" where
  "row_of fp r =
    (let c = result_chunk r in
     \<lparr>row_id = chunk_id c, row_title = title c, row_category = category c, row_source = source_path c,
      row_heading = heading_path c, row_snippet = makeSnippet (raw_text c),
      row_matched = result_matched r, row_score = fp_fixed6 fp (result_score r)\<rparr>)"

lemma expect_append: "expect p (p @ s) = Some s"
  by (simp add: expect_def)

lemma read_number_to_string:
  assumes "\<not> is_digit_char c"
  shows "read_number (to_string n @ c # rest) = Some (n, c # rest)"
proof -
  have "takeWhile is_digit_char (to_string n @ c # rest) = to_string n"
    using assms to_string_digits by (intro takeWhile_append_stop) auto
  moreover have "dropWhile is_digit_char (to_string n @ c # rest) = c # rest"
    using assms to_string_digits by (intro dropWhile_append_stop) auto
  ultimately show ?thesis by (simp add: read_number_def)
qed

lemma read_row_result:
  assumes "CHR ''}'' \<notin> set (fp_fixed6 fp (result_score r))"
  shows "read_row (result_json fp r @ rest) = Some (row_of fp r, rest)"
  using assms
  by (simp add: read_row_def result_json_def Let_def expect_def read_number_to_string is_digit_char_def
      read_string_escapeJson takeWhile_neq dropWhile_neq row_of_def)

definition fixed6_closed :: "'s fp_ops \<Rightarrow> bool" where
  "fixed6_closed fp \<longleftrightarrow> (\<forall>x. CHR ''}'' \<notin> set (fp_fixed6 fp x))"

lemma read_rows_results:
  assumes "fixed6_closed fp"
  shows "read_rows (result_json fp r @ results_json fp (Suc i) rs @ CHR '']'' # rest) =
    Some (map (row_of fp) (r # rs), CHR '']'' # rest)"
proof (induction rs arbitrary: r i)
  case Nil
  have "read_row (result_json fp r @ CHR '']'' # rest) = Some (row_of fp r, CHR '']'' # rest)"
    using assms by (intro read_row_result) (simp add: fixed6_closed_def)
  then show ?case by (subst read_rows.simps) simp
next
  case (Cons r2 rs)
  let ?more = "result_json fp r2 @ results_json fp (Suc (Suc i)) rs @ CHR '']'' # rest"
  have "read_row (result_json fp r @ CHR '','' # ?more) = Some (row_of fp r, CHR '','' # ?more)"
    using assms by (intro read_row_result) (simp add: fixed6_closed_def)
  moreover have "0 < length (result_json fp r)" by (simp add: result_json_def Let_def)
  ultimately show ?case
    using Cons.IH [of r2 "Suc i"] by (subst read_rows.simps) simp
qed

lemma result_json_no_bracket: "\<not> prefix '']'' (result_json fp r @ rest)"
  by (simp add: result_json_def Let_def)

lemma read_json_toJson:
  assumes "fixed6_closed fp"
  shows "read_json (toJson fp q rs) = Some (q, map (row_of fp) rs)"
proof (cases rs)
  case Nil
  then show ?thesis
    by (simp add: read_json_def toJson_def expect_def read_string_escapeJson)
next
  case (Cons r rest)
  note rows = read_rows_results [OF assms, of r 0 rest "''}'' @ [newline_char]"]
  have "toJson fp q rs = ''{'' @ [dquote] @ ''query'' @ [dquote] @ '':'' @ [dquote] @ escapeJson q @ dquote # '','' @ [dquote] @ ''results''
      @ [dquote] @ '':['' @ (result_json fp r @ results_json fp (Suc 0) rest @ CHR '']'' # ''}'' @ [newline_char])"
    by (simp add: toJson_def Cons)
  moreover have "\<not> prefix '']'' (result_json fp r @ results_json fp (Suc 0) rest @ CHR '']'' # ''}'' @ [newline_char])"
    by (rule result_json_no_bracket)
  ultimately show ?thesis
    using rows by (simp add: read_json_def expect_def read_string_escapeJson Cons)
qed

text \<open>C21: The JSON output is well formed and loses nothing: a reader that knows only the grammar and
  the escapes of JSON recovers the query and, per result in order, the id, title, category, path,
  heading path, snippet, number of matched terms and printed score, for arbitrary bytes in the query
  and in the documents. The only assumption is that a printed number holds no closing brace.\<close>

theorem json_round_trip:
  assumes "fixed6_closed fp"
  shows "read_json (toJson fp q rs) = Some (q, map (row_of fp) rs)"
  by (rule read_json_toJson [OF assms])

section \<open>The cache is invisible\<close>

text \<open>What the server answers with no cache at all.\<close>

definition search_json ::
    "('s :: linorder) fp_ops \<Rightarrow> (string list \<Rightarrow> string list) \<Rightarrow> search_application \<Rightarrow> string \<Rightarrow> string" where
  "search_json fp order app query = toJson fp query (search fp order (search_service app) query kSearchTopK)"

definition uncached ::
    "('s :: linorder) fp_ops \<Rightarrow> (string list \<Rightarrow> string list) \<Rightarrow> search_application \<Rightarrow> string \<Rightarrow> application_response" where
  "uncached fp order app request =
    (case parseRequest request of
       None \<Rightarrow> \<lparr>response_bytes = badRequest (''Only complete GET requests are supported'' @ [newline_char]) False,
               close_after_response = False\<rparr>
     | Some r \<Rightarrow>
         if request_method r \<noteq> ''GET'' then
           \<lparr>response_bytes = badRequest (''Only complete GET requests are supported'' @ [newline_char]) False,
            close_after_response = False\<rparr>
         else
           \<lparr>response_bytes =
              (if request_path r = ''/'' then okText (''Hello CppSearchServer'' @ [newline_char])
               else if request_path r \<noteq> ''/search'' then notFound
               else (case findQueryParam r ''q'' of
                       Some (c # cs) \<Rightarrow> okJson (search_json fp order app (c # cs))
                     | _ \<Rightarrow> badRequest (''The q query parameter is required'' @ [newline_char])))
              (shouldCloseConnection r),
            close_after_response = shouldCloseConnection r\<rparr>)"

text \<open>The value that belongs under a cache key.\<close>

definition key_value ::
    "('s :: linorder) fp_ops \<Rightarrow> (string list \<Rightarrow> string list) \<Rightarrow> search_application \<Rightarrow> string \<Rightarrow> string" where
  "key_value fp order app key = search_json fp order app (drop (length (makeSearchCacheKey [])) key)"

lemma key_value_makeSearchCacheKey [simp]:
  "key_value fp order app (makeSearchCacheKey q) = search_json fp order app q"
  by (simp add: key_value_def makeSearchCacheKey_def)

text \<open>The part of the handler that uses the cache is \<open>memo\<close> of the cache interface.\<close>

lemma handleRequest_memo:
  "handleRequest fp order app env request w =
    (case parseRequest request of
       Some r \<Rightarrow>
         if request_method r = ''GET'' \<and> request_path r = ''/search'' \<and> findQueryParam r ''q'' \<notin> {None, Some []} then
           map_sum id (apfst (\<lambda>v. \<lparr>response_bytes = okJson v (shouldCloseConnection r),
                                   close_after_response = shouldCloseConnection r\<rparr>))
             (memo (cache_get (search_cache app)) (cache_put (search_cache app)) (key_value fp order app) env
               (makeSearchCacheKey (the (findQueryParam r ''q''))) w)
         else Inr (uncached fp order app request, w)
     | None \<Rightarrow> Inr (uncached fp order app request, w))"
  by (auto simp: handleRequest_def uncached_def memo_def search_json_def Let_def
      split: option.split list.split sum.split)

text \<open>Under the cache key of a query belongs the result of the search for it.\<close>

definition right_value ::
    "('s :: linorder) fp_ops \<Rightarrow> (string list \<Rightarrow> string list) \<Rightarrow> search_application \<Rightarrow> string \<Rightarrow> string \<Rightarrow> bool" where
  "right_value fp order app key v \<longleftrightarrow>
     (\<forall>q. key = makeSearchCacheKey q \<longrightarrow> v = search_json fp order app q)"

lemma makeSearchCacheKey_inject [simp]: "makeSearchCacheKey q = makeSearchCacheKey q' \<longleftrightarrow> q = q'"
  by (simp add: makeSearchCacheKey_def)

lemma right_value_key [simp]:
  "right_value fp order app (makeSearchCacheKey q) v \<longleftrightarrow> v = search_json fp order app q"
  by (auto simp: right_value_def)

lemma handleRequest_via_memo:
  assumes "I w" and "\<And>key. \<exists>w'. memo (cache_get (search_cache app)) (cache_put (search_cache app)) (key_value fp order app) env
      (makeSearchCacheKey key) w = Inr (search_json fp order app key, w') \<and> I w'"
  shows "\<exists>w'. handleRequest fp order app env request w = Inr (uncached fp order app request, w') \<and> I w'"
proof (cases "parseRequest request")
  case None
  with assms(1) show ?thesis by (simp add: handleRequest_memo)
next
  case (Some r)
  show ?thesis
  proof (cases "request_method r = ''GET'' \<and> request_path r = ''/search'' \<and> findQueryParam r ''q'' \<notin> {None, Some []}")
    case False
    with Some assms(1) show ?thesis by (simp only: handleRequest_memo option.case if_False) blast
  next
    case True
    then obtain c cs where q: "findQueryParam r ''q'' = Some (c # cs)" by (auto simp: neq_Nil_conv)
    obtain w' where "memo (cache_get (search_cache app)) (cache_put (search_cache app)) (key_value fp order app) env
        (makeSearchCacheKey (c # cs)) w = Inr (search_json fp order app (c # cs), w')" "I w'"
      using assms(2) by blast
    moreover have "uncached fp order app request =
        \<lparr>response_bytes = okJson (search_json fp order app (c # cs)) (shouldCloseConnection r),
         close_after_response = shouldCloseConnection r\<rparr>"
      using Some True q by (simp add: uncached_def)
    ultimately show ?thesis using Some True q by (simp add: handleRequest_memo)
  qed
qed


text \<open>What a run keeps: the local caches and the log of \<open>SET\<close> commands hold right values only.\<close>

definition world_sound ::
    "('s :: linorder) fp_ops \<Rightarrow> (string list \<Rightarrow> string list) \<Rightarrow> search_application \<Rightarrow> cache_world \<Rightarrow> bool" where
  "world_sound fp order app w \<longleftrightarrow>
     cache_sound (search_cache app) (right_value fp order app) w \<and> log_sound (right_value fp order app) w"

lemma handleRequest_shared:
  assumes "cache_usable (search_cache app)" and "world_sound fp order app w" and "redis_serves w env"
  shows "\<exists>w'. handleRequest fp order app env request w = Inr (uncached fp order app request, w') \<and> world_sound fp order app w'"
  using assms(2)
proof (rule handleRequest_via_memo)
  have sound: "redis_sound (right_value fp order app) env"
    using redis_serves_sound [OF assms(3)] assms(2) by (simp add: world_sound_def)
  show "\<exists>w'. memo (cache_get (search_cache app)) (cache_put (search_cache app)) (key_value fp order app) env
      (makeSearchCacheKey q) w = Inr (search_json fp order app q, w') \<and> world_sound fp order app w'" for q
    using shared_level.memo_transparent [OF assms(1) assms(2) [unfolded world_sound_def] sound,
        of "makeSearchCacheKey q" "key_value fp order app"]
    by (auto simp: world_sound_def)
qed

fun handle_run ::
    "('s :: linorder) fp_ops \<Rightarrow> (string list \<Rightarrow> string list) \<Rightarrow> search_application \<Rightarrow> (cache_env \<times> string) list \<Rightarrow>
      cache_world \<Rightarrow> cache_error + (application_response list \<times> cache_world)" where
  "handle_run fp order app [] w = Inr ([], w)"
| "handle_run fp order app ((env, request) # reqs) w =
     (case handleRequest fp order app env request w of
        Inl e \<Rightarrow> Inl e
      | Inr (r, w1) \<Rightarrow>
          (case handle_run fp order app reqs w1 of Inl e \<Rightarrow> Inl e | Inr (rs, w2) \<Rightarrow> Inr (r # rs, w2)))"

text \<open>Redis answers every lookup of a run with what was stored before: in each request, from the commands
  of all threads in the requests before it. Requests that overlap are listed by their last command to
  Redis; a lookup that Redis answers is the last command of its request, so what it found was stored by a
  request that comes before it.\<close>

fun served_by_redis ::
    "('s :: linorder) fp_ops \<Rightarrow> (string list \<Rightarrow> string list) \<Rightarrow> search_application \<Rightarrow> (cache_env \<times> string) list \<Rightarrow>
      cache_world \<Rightarrow> bool" where
  "served_by_redis fp order app [] w \<longleftrightarrow> True"
| "served_by_redis fp order app ((env, request) # reqs) w \<longleftrightarrow>
     redis_serves w env \<and>
     (case handleRequest fp order app env request w of
        Inl e \<Rightarrow> True
      | Inr (r, w1) \<Rightarrow> served_by_redis fp order app reqs w1)"

lemma handle_run_shared:
  assumes "cache_usable (search_cache app)"
  shows "world_sound fp order app w \<Longrightarrow> served_by_redis fp order app reqs w \<Longrightarrow>
    \<exists>w'. handle_run fp order app reqs w = Inr (map (\<lambda>(env, request). uncached fp order app request) reqs, w') \<and>
      world_sound fp order app w'"
proof (induction reqs arbitrary: w)
  case (Cons x reqs)
  obtain env request where x: "x = (env, request)" by (meson prod.exhaust)
  have "redis_serves w env" using Cons.prems(2) x by simp
  from handleRequest_shared [OF assms Cons.prems(1) this, of request]
  obtain w1 where step: "handleRequest fp order app env request w = Inr (uncached fp order app request, w1)"
    "world_sound fp order app w1" by blast
  then show ?case using Cons.IH [of w1] Cons.prems(2) x by auto
qed simp

text \<open>C8: The cache is invisible. From a start with empty caches and nothing stored in Redis, whatever the
  mode of the cache, whichever worker threads handle which requests, whatever expires or is evicted and
  however Redis fails: if Redis answers a lookup only with a value that some \<open>SET\<close> of the program stored
  under that key before, every request of every sequence gets the response it would get with no cache, no
  request raises, and everything the program has stored in Redis under the key of a query is the result
  of the search for that query.\<close>

theorem cache_is_invisible:
  assumes "cache_usable (search_cache app)" and "served_by_redis fp order app reqs fresh_world"
  shows "\<exists>w. handle_run fp order app reqs fresh_world = Inr (map (\<lambda>(env, request). uncached fp order app request) reqs, w) \<and>
    (\<forall>q v. was_set (redis_log w) (makeSearchCacheKey q) v \<longrightarrow> v = search_json fp order app q)"
proof -
  have "world_sound fp order app fresh_world"
    by (simp add: world_sound_def cache_sound_def log_sound_def fresh_world_def)
  from handle_run_shared [OF assms(1) this assms(2)] obtain w where
    "handle_run fp order app reqs fresh_world = Inr (map (\<lambda>(env, request). uncached fp order app request) reqs, w)"
    "log_sound (right_value fp order app) w" by (auto simp: world_sound_def)
  then show ?thesis unfolding log_sound_def by (metis right_value_key)
qed

section \<open>From the request to the ranked chunks\<close>




definition framed :: "string \<Rightarrow> string \<Rightarrow> string \<Rightarrow> bool \<Rightarrow> bool" where
  "framed bytes rest status cl \<longleftrightarrow>
     (\<exists>reply. read_response (bytes @ rest) = Some reply \<and> reply_rest reply = rest \<and>
        (''Connection: close'' \<in> set (reply_fields reply) \<longleftrightarrow> cl) \<and> reply_status reply = ''HTTP/1.1 '' @ status)"

lemma framed_response:
  "cr \<notin> set status \<Longrightarrow> cr \<notin> set ty \<Longrightarrow> framed (response status ty body cl) rest status cl"
  by (simp add: framed_def read_response_response)

lemma framed_responses:
  "framed (okText body cl) rest ''200 OK'' cl" "framed (okJson body cl) rest ''200 OK'' cl"
  "framed (notFound cl) rest ''404 Not Found'' cl" "framed (badRequest body cl) rest ''400 Bad Request'' cl"
  by (simp_all add: okText_def okJson_def notFound_def badRequest_def text_plain_def framed_response)

text \<open>C39: Every other request gets the error the protocol asks for, for every input of the handler: a
  request that does not parse or is not a \<open>GET\<close> is answered 400, an unknown path 404, a search without
  a query 400, and the root path 200, each correctly framed; and the connection is kept open exactly when the header of the response says so.\<close>

theorem handler_error_responses:
  assumes "handleRequest fp order app env request w = Inr (resp, w')"
  shows "framed (response_bytes resp) rest
    (case parseRequest request of
       None \<Rightarrow> ''400 Bad Request''
     | Some r \<Rightarrow> if request_method r \<noteq> ''GET'' then ''400 Bad Request''
         else if request_path r = ''/'' then ''200 OK''
         else if request_path r \<noteq> ''/search'' then ''404 Not Found''
         else if findQueryParam r ''q'' \<in> {None, Some []} then ''400 Bad Request'' else ''200 OK'')
    (close_after_response resp)"
  using assms
  by (auto simp: handleRequest_def Let_def framed_responses split: option.splits if_splits sum.splits)

section \<open>Observations\<close>

text \<open>A request with a method other than \<open>GET\<close> is answered with \<open>Connection: keep-alive\<close> and the
  connection stays open, even if the request says \<open>Connection: close\<close>.\<close>

lemma post_close_ignored:
  assumes "request_wf r" and "request_method r \<noteq> ''GET''" and "shouldCloseConnection r"
  shows "\<exists>resp. handleRequest fp order app env (render_request r) w = Inr (resp, w) \<and>
    \<not> close_after_response resp"
  using assms parseRequest_render [OF assms(1), of "[]"] by (simp add: handleRequest_def)

text \<open>A snippet is cut at byte 240, so it can end in the middle of a UTF-8 sequence: here after the first
  byte of a two-byte character.\<close>

lemma snippet_splits_character:
  "makeSnippet (replicate 239 (CHR ''a'') @ [CHR 0xC3, CHR 0xA9]) = replicate 239 (CHR ''a'') @ [CHR 0xC3] @ ''...''"
  by (simp add: makeSnippet_def kMaxSnippetLength_def)

section \<open>Examples\<close>

definition sample_root :: documents_root where
  "sample_root = Directory [\<lparr>entry_path = [''guide'', ''a.md''], relative_path = [''guide'', ''a.md''],
     is_regular_file = True, file_content = Some (''# A'' @ [newline] @ ''x'' @ [newline])\<rparr>] False"

definition sample_config :: cache_config where
  "sample_config = default_config\<lparr>cache_mode := LocalOnly\<rparr>"

definition sample_app :: search_application where
  "sample_app = projr (fst (SearchApplication ''docs'' sample_root sample_config 1))"

definition search_x :: http_request where
  "search_x = \<lparr>request_method = ''GET'', request_path = ''/search'', query_params = [(''q'', ''x'')],
     headers = [(''Host'', ''h'')]\<rparr>"

lemma sample_app: "fst (SearchApplication ''docs'' sample_root sample_config 1) = Inr sample_app"
  by (simp add: sample_app_def SearchApplication_def SearchCache_def sample_config_def default_config_def
      sample_root_def loadDocuments_def Let_def)




lemma int_ops_closed: "fixed6_closed int_ops"
  using to_string_digits by (fastforce simp: fixed6_closed_def int_ops_def is_digit_char_def)

lemma json_round_trip_witness:
  "read_json (toJson int_ops ''x'' []) = Some (''x'', [])"
  using json_round_trip [OF int_ops_closed, of "''x''" "[]"] by simp

text \<open>Two threads ask for the same search with Redis switched on: the second is answered by Redis, with what
  the first has stored there, and stores nothing itself.\<close>

definition redis_app :: search_application where
  "redis_app = sample_app\<lparr>search_cache := sample_sc\<rparr>"

definition env_redis :: "nat \<Rightarrow> redis_effect list \<Rightarrow> cache_env" where
  "env_redis th es = \<lparr>thread = th, now_get = 5, now_put = 5,
     redis_env = \<lparr>connect_result = Context_ok True, answer = redis_memory es\<rparr>\<rparr>"

definition search_x_text :: string where
  "search_x_text = render_request search_x"

definition world_after_first :: cache_world where
  "world_after_first = snd (projr (handleRequest int_ops remdups redis_app (env_redis 1 []) search_x_text fresh_world))"

definition shared_requests :: "(cache_env \<times> string) list" where
  "shared_requests = [(env_redis 1 [], search_x_text), (env_redis 2 (redis_log world_after_first), search_x_text)]"

lemma cache_is_invisible_witness:
  "\<exists>w. handle_run int_ops remdups redis_app shared_requests fresh_world =
      Inr (replicate 2 (uncached int_ops remdups redis_app search_x_text), w) \<and>
    length (List.map_filter sets (redis_log w)) = 1 \<and>
    was_set (redis_log w) (makeSearchCacheKey ''x'') (search_json int_ops remdups redis_app ''x'')"
proof -
  have serves: "redis_serves w (env_redis th (redis_log w))" for w th
    by (rule redis_memory_serves) (simp add: env_redis_def)
  have fresh: "redis_log fresh_world = []" by (simp add: fresh_world_def)
  have served: "served_by_redis int_ops remdups redis_app shared_requests fresh_world"
    using serves [of fresh_world 1]
    by (simp add: shared_requests_def fresh world_after_first_def serves split: sum.split prod.split)
  have usable: "cache_usable (search_cache redis_app)" by (simp add: redis_app_def sample_usable)
  let ?log = "redis_log (snd (projr (handle_run int_ops remdups redis_app shared_requests fresh_world)))"
  have stores: "length (List.map_filter sets ?log) = 1"
    "was_set ?log (makeSearchCacheKey ''x'') (search_json int_ops remdups redis_app ''x'')" by code_simp+
  obtain w where run: "handle_run int_ops remdups redis_app shared_requests fresh_world =
      Inr (map (\<lambda>(env, request). uncached int_ops remdups redis_app request) shared_requests, w)"
    using cache_is_invisible [OF usable served] by blast
  moreover from run stores have "length (List.map_filter sets (redis_log w)) = 1"
    "was_set (redis_log w) (makeSearchCacheKey ''x'') (search_json int_ops remdups redis_app ''x'')" by simp_all
  ultimately show ?thesis by (simp add: shared_requests_def numeral_2_eq_2)
qed

text \<open>Without the contract the cache is not invisible: the keys in Redis name only the query, so what another
  server with other documents, or the same one before a restart, has stored there is served.\<close>

lemma foreign_value_served:
  "map_sum id (\<lambda>(r, w). response_bytes r)
     (handleRequest int_ops remdups redis_app
       (env_redis 1 [Command [''SET'', makeSearchCacheKey ''x'', ''foreign'', ''EX'', ''60''] True]) search_x_text fresh_world) =
   Inr (okJson ''foreign'' False)"
  by code_simp

lemma handler_error_responses_witness:
  "framed (response_bytes (fst (projr (handleRequest int_ops remdups sample_app (env_down 1) [] fresh_world)))) []
    ''400 Bad Request'' False"
proof -
  have parse: "parseRequest [] = None" by (simp add: parseRequest_def crlf_def)
  have "handleRequest int_ops remdups sample_app (env_down 1) [] fresh_world =
      Inr (uncached int_ops remdups sample_app [], fresh_world)"
    by (simp add: handleRequest_memo parse)
  from handler_error_responses [OF this, of "[]"] this show ?thesis by (simp add: parse uncached_def)
qed


end
