(* ===== verification/Machine.thy ===== *)
theory Machine
  imports Prelude
begin

text \<open>
  Components that run concurrently are machines: a partial step function on a state that holds the
  shared variables and the place where each thread is. \<open>step e s = None\<close> means that \<open>e\<close> cannot happen in
  \<open>s\<close>. A run is a list of events, so the interleaving is explicit and a run on concrete events
  evaluates. Locales carry the induction: an invariant, a weight that bounds the length of runs, and an
  order that steps descend, so that runs end.
\<close>

fun run_steps :: "('e \<Rightarrow> 's \<Rightarrow> 's option) \<Rightarrow> 'e list \<Rightarrow> 's \<Rightarrow> 's option" where
  "run_steps step [] s = Some s"
| "run_steps step (e # es) s = (case step e s of None \<Rightarrow> None | Some s' \<Rightarrow> run_steps step es s')"

lemma run_steps_append:
  "run_steps step (es @ fs) s = (case run_steps step es s of None \<Rightarrow> None | Some s' \<Rightarrow> run_steps step fs s')"
  by (induction es arbitrary: s) (auto split: option.split)

lemma run_steps_snoc:
  "run_steps step (es @ [e]) s = Some s' \<longleftrightarrow> (\<exists>t. run_steps step es s = Some t \<and> step e t = Some s')"
  by (auto simp: run_steps_append split: option.split)

locale machine =
  fixes step :: "'e \<Rightarrow> 's \<Rightarrow> 's option" and inv :: "'s \<Rightarrow> bool"
  assumes keeps: "inv s \<Longrightarrow> step e s = Some s' \<Longrightarrow> inv s'"
begin

lemma run_keeps: "run_steps step es s = Some s' \<Longrightarrow> inv s \<Longrightarrow> inv s'"
  by (induction es arbitrary: s) (auto intro: keeps split: option.splits)

lemma run_relates:
  assumes "run_steps step es s = Some s'" and "inv s" and "\<And>s. R s s"
    and "\<And>s t u e. inv t \<Longrightarrow> R s t \<Longrightarrow> step e t = Some u \<Longrightarrow> R s u"
  shows "R s s'"
  using assms(1)
proof (induction es arbitrary: s' rule: rev_induct)
  case Nil
  then show ?case using assms(3) by simp
next
  case (snoc e es)
  then obtain t where "run_steps step es s = Some t" "step e t = Some s'" by (auto simp: run_steps_snoc)
  then show ?case using snoc.IH assms(2,4) run_keeps by blast
qed

end

locale terminating_machine = machine +
  fixes weight :: "'s \<Rightarrow> nat"
  assumes decreases: "inv s \<Longrightarrow> step e s = Some s' \<Longrightarrow> weight s' < weight s"
begin

lemma run_bounded: "run_steps step es s = Some s' \<Longrightarrow> inv s \<Longrightarrow> length es + weight s' \<le> weight s"
proof (induction es arbitrary: s)
  case Nil
  then show ?case by simp
next
  case (Cons e es)
  then obtain t where t: "step e s = Some t" "run_steps step es t = Some s'" by (auto split: option.splits)
  then show ?case using Cons.IH [of t] keeps [of s e t] decreases [of s e t] Cons.prems(2) by simp
qed

end

locale settling_machine = machine +
  fixes order :: "('s \<times> 's) set"
  assumes well_founded: "wf order" and descends: "inv s \<Longrightarrow> step e s = Some s' \<Longrightarrow> (s', s) \<in> order"
begin

lemma no_infinite_run:
  assumes "inv (f 0)" and "\<And>n. step (ev n) (f n) = Some (f (Suc n))"
  shows False
proof -
  have "inv (f n)" for n by (induction n) (use assms keeps in blast)+
  then have "\<forall>n. (f (Suc n), f n) \<in> order" using assms(2) descends by blast
  then show False using well_founded unfolding wf_iff_no_infinite_down_chain by blast
qed

lemma run_ends: "inv s \<Longrightarrow> \<exists>es t. run_steps step es s = Some t \<and> (\<forall>e. step e t = None)"
proof (induction s rule: wf_induct_rule [OF well_founded])
  case (1 s)
  show ?case
  proof (cases "\<forall>e. step e s = None")
    case True
    then show ?thesis by (intro exI [of _ "[]"] exI [of _ s]) simp
  next
    case False
    then obtain e u where u: "step e s = Some u" by auto
    with 1 descends keeps obtain es t where "run_steps step es u = Some t" "\<forall>e. step e t = None" by meson
    with u show ?thesis by (intro exI [of _ "e # es"] exI [of _ t]) simp
  qed
qed

end

sublocale terminating_machine \<subseteq> settling_machine step inv "measure weight"
  by unfold_locales (auto intro: decreases)

end
