(* ===== verification/RequestLatency.thy ===== *)
theory RequestLatency
  imports Machine "HOL-Library.Signed_Division"
begin

text \<open>
  \<open>src/observability/RequestLatency.h\<close>, \<open>src/observability/RequestLatency.cpp\<close>: the marks of one
  request and the counters of all completed ones. A \<open>shared_ptr\<close> to a timing is an option; a clock
  reading is an argument. The counters are atomics that several loops update at once: \<open>complete_ops\<close> is
  the list of atomic accesses that one call makes, and a machine interleaves the accesses of any number
  of calls, with the compare-and-swap loop of \<open>updateMax\<close> spelled out.
\<close>

section \<open>Marks\<close>

record request_timing =
  request_ready_at :: time_point
  queued_at :: time_point
  worker_started_at :: time_point
  worker_finished_at :: time_point
  returned_to_io_at :: time_point
  write_started_at :: time_point
  queued :: bool
  worker_started :: bool
  worker_finished :: bool
  returned_to_io :: bool
  write_started :: bool

record request_latency =
  enabled :: bool
  completed_requests :: u64
  worker_queue_us :: u64
  worker_compute_us :: u64
  result_return_us :: u64
  response_write_us :: u64
  total_us :: u64
  max_total_us :: u64

definition RequestLatency :: "bool \<Rightarrow> request_latency" where
  "RequestLatency e = \<lparr>enabled = e, completed_requests = 0, worker_queue_us = 0, worker_compute_us = 0,
     result_return_us = 0, response_write_us = 0, total_us = 0, max_total_us = 0\<rparr>"

definition beginRequest :: "time_point \<Rightarrow> request_latency \<Rightarrow> request_timing option" where
  "beginRequest now l =
    (if \<not> enabled l then None
     else Some \<lparr>request_ready_at = now, queued_at = 0, worker_started_at = 0, worker_finished_at = 0,
       returned_to_io_at = 0, write_started_at = 0, queued = False, worker_started = False,
       worker_finished = False, returned_to_io = False, write_started = False\<rparr>)"

definition markQueued :: "time_point \<Rightarrow> request_timing option \<Rightarrow> request_timing option" where
  "markQueued now = map_option (\<lambda>t. t\<lparr>queued_at := now, queued := True\<rparr>)"

definition markWorkerStarted :: "time_point \<Rightarrow> request_timing option \<Rightarrow> request_timing option" where
  "markWorkerStarted now = map_option (\<lambda>t. t\<lparr>worker_started_at := now, worker_started := True\<rparr>)"

definition markWorkerFinished :: "time_point \<Rightarrow> request_timing option \<Rightarrow> request_timing option" where
  "markWorkerFinished now = map_option (\<lambda>t. t\<lparr>worker_finished_at := now, worker_finished := True\<rparr>)"

definition markReturnedToIo :: "time_point \<Rightarrow> request_timing option \<Rightarrow> request_timing option" where
  "markReturnedToIo now = map_option (\<lambda>t. t\<lparr>returned_to_io_at := now, returned_to_io := True\<rparr>)"

definition markWriteStarted :: "time_point \<Rightarrow> request_timing option \<Rightarrow> request_timing option" where
  "markWriteStarted now =
    map_option (\<lambda>t. if write_started t then t else t\<lparr>write_started := True, write_started_at := now\<rparr>)"

section \<open>Counters\<close>

definition elapsedMicros :: "time_point \<Rightarrow> time_point \<Rightarrow> u64" where
  "elapsedMicros begin_at end_at = word_of_int ((end_at - begin_at) sdiv 1000)"

datatype counter = Worker_queue | Worker_compute | Result_return | Response_write | Total | Completed

fun fetch_add :: "counter \<Rightarrow> u64 \<Rightarrow> request_latency \<Rightarrow> request_latency" where
  "fetch_add Worker_queue v l = l\<lparr>worker_queue_us := worker_queue_us l + v\<rparr>"
| "fetch_add Worker_compute v l = l\<lparr>worker_compute_us := worker_compute_us l + v\<rparr>"
| "fetch_add Result_return v l = l\<lparr>result_return_us := result_return_us l + v\<rparr>"
| "fetch_add Response_write v l = l\<lparr>response_write_us := response_write_us l + v\<rparr>"
| "fetch_add Total v l = l\<lparr>total_us := total_us l + v\<rparr>"
| "fetch_add Completed v l = l\<lparr>completed_requests := completed_requests l + v\<rparr>"

text \<open>An atomic access that a call of \<open>complete\<close> has before it. \<open>Load_max\<close> and \<open>Cas_max\<close> are the two
  places of \<open>updateMax\<close>: the first load, and the exchange with the value last seen.\<close>

datatype atomic_op = Fetch_add counter u64 | Load_max u64 | Cas_max u64 u64

definition all_marked :: "request_timing \<Rightarrow> bool" where
  "all_marked t \<longleftrightarrow> queued t \<and> worker_started t \<and> worker_finished t \<and> returned_to_io t \<and> write_started t"

definition complete_ops :: "time_point \<Rightarrow> request_timing option \<Rightarrow> atomic_op list" where
  "complete_ops completed_at timing =
    (case timing of
       None \<Rightarrow> []
     | Some t \<Rightarrow>
         if \<not> all_marked t then []
         else
           [Fetch_add Worker_queue (elapsedMicros (queued_at t) (worker_started_at t)),
            Fetch_add Worker_compute (elapsedMicros (worker_started_at t) (worker_finished_at t)),
            Fetch_add Result_return (elapsedMicros (worker_finished_at t) (returned_to_io_at t)),
            Fetch_add Response_write (elapsedMicros (returned_to_io_at t) completed_at),
            Fetch_add Total (elapsedMicros (request_ready_at t) completed_at),
            Fetch_add Completed 1,
            Load_max (elapsedMicros (request_ready_at t) completed_at)])"

text \<open>The loop of \<open>updateMax\<close>: whether it goes on, with the value that it saw.\<close>

definition updateMax :: "u64 \<Rightarrow> u64 \<Rightarrow> atomic_op list" where
  "updateMax current v = (if current < v then [Cas_max current v] else [])"

text \<open>One atomic access, and what the call does after it. A weak exchange may fail although the value
  is the expected one.\<close>

fun access :: "bool \<Rightarrow> atomic_op \<Rightarrow> request_latency \<Rightarrow> request_latency \<times> atomic_op list" where
  "access spurious (Fetch_add c v) l = (fetch_add c v l, [])"
| "access spurious (Load_max v) l = (l, updateMax (max_total_us l) v)"
| "access spurious (Cas_max current v) l =
     (if max_total_us l = current \<and> \<not> spurious then (l\<lparr>max_total_us := v\<rparr>, [])
      else (l, updateMax (max_total_us l) v))"

text \<open>Calls of \<open>complete\<close> at the same time: the counters and what each call has before it.\<close>

definition latency_step ::
    "nat \<times> bool \<Rightarrow> request_latency \<times> atomic_op list list \<Rightarrow> (request_latency \<times> atomic_op list list) option" where
  "latency_step e s =
    (case e of (i, spurious) \<Rightarrow> case s of (l, calls) \<Rightarrow>
       if i < length calls then
         (case calls ! i of
            [] \<Rightarrow> None
          | op # ops \<Rightarrow> (case access spurious op l of (l', next_ops) \<Rightarrow> Some (l', calls[i := next_ops @ ops])))
       else None)"

text \<open>One call alone.\<close>

fun run_call :: "atomic_op list \<Rightarrow> request_latency \<Rightarrow> request_latency" where
  "run_call [] l = l"
| "run_call (Fetch_add c v # ops) l = run_call ops (fetch_add c v l)"
| "run_call (Load_max v # ops) l = run_call ops (l\<lparr>max_total_us := max (max_total_us l) v\<rparr>)"
| "run_call (Cas_max current v # ops) l = run_call ops (l\<lparr>max_total_us := max (max_total_us l) v\<rparr>)"

definition complete :: "time_point \<Rightarrow> request_timing option \<Rightarrow> request_latency \<Rightarrow> request_latency" where
  "complete completed_at timing l = run_call (complete_ops completed_at timing) l"

section \<open>Snapshot\<close>

definition average :: "u64 \<Rightarrow> u64 \<Rightarrow> u64" where
  "average n us = (if n = 0 then 0 else us div n)"

definition snapshotJson :: "request_latency \<Rightarrow> string" where
  \<open>snapshotJson l =
    (let num = (\<lambda>n :: u64. to_string (unat n)); avg = (\<lambda>us. num (average (completed_requests l) us))
     in ''{"enabled":'' @ (if enabled l then ''true'' else ''false'')
        @ '',"completed_requests":'' @ num (completed_requests l)
        @ '',"avg_worker_queue_us":'' @ avg (worker_queue_us l)
        @ '',"avg_worker_compute_us":'' @ avg (worker_compute_us l)
        @ '',"avg_result_return_us":'' @ avg (result_return_us l)
        @ '',"avg_response_write_us":'' @ avg (response_write_us l)
        @ '',"avg_total_us":'' @ avg (total_us l)
        @ '',"max_total_us":'' @ num (max_total_us l) @ ''}'')\<close>

section \<open>Concurrent calls\<close>

fun counter_of :: "counter \<Rightarrow> request_latency \<Rightarrow> u64" where
  "counter_of Worker_queue l = worker_queue_us l"
| "counter_of Worker_compute l = worker_compute_us l"
| "counter_of Result_return l = result_return_us l"
| "counter_of Response_write l = response_write_us l"
| "counter_of Total l = total_us l"
| "counter_of Completed l = completed_requests l"

lemma fetch_add_simps [simp]:
  "counter_of c (fetch_add d v l) = counter_of c l + (if c = d then v else 0)"
  "max_total_us (fetch_add d v l) = max_total_us l" "enabled (fetch_add d v l) = enabled l"
  "counter_of c (l\<lparr>max_total_us := m\<rparr>) = counter_of c l"
  by (cases d; cases c; simp)+

lemma latency_eqI:
  assumes "\<And>c. counter_of c l = counter_of c k" and "max_total_us l = max_total_us k" and "enabled l = enabled k"
  shows "(l :: request_latency) = k"
  using assms(1) [of Worker_queue] assms(1) [of Worker_compute] assms(1) [of Result_return]
    assms(1) [of Response_write] assms(1) [of Total] assms(1) [of Completed] assms(2,3) by simp

text \<open>What the accesses still to come will add to a counter, and the candidates for the maximum.\<close>

fun to_add :: "counter \<Rightarrow> atomic_op \<Rightarrow> u64" where
  "to_add c (Fetch_add d v) = (if c = d then v else 0)"
| "to_add c (Load_max v) = 0"
| "to_add c (Cas_max current v) = 0"

fun candidates :: "atomic_op \<Rightarrow> u64 list" where
  "candidates (Fetch_add c v) = []"
| "candidates (Load_max v) = [v]"
| "candidates (Cas_max current v) = [v]"

definition remaining :: "counter \<Rightarrow> atomic_op list \<Rightarrow> u64" where
  "remaining c ops = (\<Sum>op\<leftarrow>ops. to_add c op)"

definition maxima :: "atomic_op list \<Rightarrow> u64 set" where
  "maxima ops = (\<Union>op \<in> set ops. set (candidates op))"

definition goal_count :: "counter \<Rightarrow> request_latency \<times> atomic_op list list \<Rightarrow> u64" where
  "goal_count c s = counter_of c (fst s) + (\<Sum>ops\<leftarrow>snd s. remaining c ops)"

definition goal_max :: "request_latency \<times> atomic_op list list \<Rightarrow> u64" where
  "goal_max s = Max (insert (max_total_us (fst s)) (\<Union>ops \<in> set (snd s). maxima ops))"

fun cas_ok :: "atomic_op \<Rightarrow> bool" where
  "cas_ok (Cas_max current v) \<longleftrightarrow> current < v"
| "cas_ok op \<longleftrightarrow> True"

definition calls_ok :: "request_latency \<times> atomic_op list list \<Rightarrow> bool" where
  "calls_ok s \<longleftrightarrow> (\<forall>ops \<in> set (snd s). \<forall>op \<in> set ops. cas_ok op)"

lemma remaining_simps [simp]:
  "remaining c [] = 0" "remaining c (op # ops) = to_add c op + remaining c ops"
  "remaining c (ops @ ops') = remaining c ops + remaining c ops'"
  by (simp_all add: remaining_def)

lemma maxima_simps [simp]:
  "maxima [] = {}" "maxima (op # ops) = set (candidates op) \<union> maxima ops"
  "maxima (ops @ ops') = maxima ops \<union> maxima ops'" "finite (maxima ops)"
  by (auto simp: maxima_def)

lemma insert_max: "finite S \<Longrightarrow> a \<le> b \<Longrightarrow> Max (insert a (insert b S)) = Max (insert (b :: 'a :: linorder) S)"
  by (cases "S = {}") (auto simp: max_def)

lemma access_step:
  assumes "access spurious op l = (l', ops)" and "cas_ok op" and "finite S"
  shows "counter_of c l' + remaining c ops = counter_of c l + to_add c op"
    and "\<forall>op \<in> set ops. cas_ok op" and "enabled l' = enabled l"
    and "Max (insert (max_total_us l') (maxima ops \<union> S)) = Max (insert (max_total_us l) (set (candidates op) \<union> S))"
proof -
  have "max_total_us l' = (case op of Cas_max current v \<Rightarrow> if max_total_us l = current \<and> \<not> spurious then v else max_total_us l
      | _ \<Rightarrow> max_total_us l)"
    using assms(1) by (cases op) (auto split: if_splits)
  show "counter_of c l' + remaining c ops = counter_of c l + to_add c op"
    using assms(1) by (cases op) (auto simp: updateMax_def split: if_splits)
  show "\<forall>op \<in> set ops. cas_ok op" "enabled l' = enabled l"
    using assms(1) by (cases op; auto simp: updateMax_def split: if_splits)+
  show "Max (insert (max_total_us l') (maxima ops \<union> S)) = Max (insert (max_total_us l) (set (candidates op) \<union> S))"
  proof (cases op)
    case (Fetch_add c v)
    then show ?thesis using assms(1) by auto
  next
    case (Load_max v)
    then show ?thesis
      using assms(1,3) insert_max [of S v "max_total_us l"] by (auto simp: updateMax_def insert_commute not_less)
  next
    case (Cas_max current v)
    then show ?thesis
      using assms insert_max [of S v "max_total_us l"] insert_max [of S "max_total_us l" v]
      by (auto simp: updateMax_def insert_commute not_less split: if_splits)
  qed
qed

lemma latency_step_goals:
  assumes "calls_ok s" and "latency_step e s = Some s'"
  shows "calls_ok s' \<and> goal_count c s' = goal_count c s \<and> goal_max s' = goal_max s \<and>
    enabled (fst s') = enabled (fst s) \<and> length (snd s') = length (snd s)"
proof -
  obtain l calls where s: "s = (l, calls)" by (rule prod.exhaust)
  obtain i spurious where e: "e = (i, spurious)" by (rule prod.exhaust)
  obtain op ops l' ops' where i: "i < length calls" and op: "calls ! i = op # ops"
    and acc: "access spurious op l = (l', ops')" and s': "s' = (l', calls[i := ops' @ ops])"
    using assms(2) s e by (auto simp: latency_step_def split: if_splits list.splits prod.splits)
  have ok: "cas_ok op" "\<forall>op \<in> set ops. cas_ok op"
    using assms(1) nth_mem [OF i] unfolding calls_ok_def s op by auto
  define S where "S = maxima ops \<union> (\<Union>ops \<in> set (take i calls @ drop (Suc i) calls). maxima ops)"
  have fin: "finite S" by (simp add: S_def)
  note step = access_step [OF acc ok(1) fin]
  have whole: "calls = take i calls @ (op # ops) # drop (Suc i) calls" using id_take_nth_drop [OF i] op by simp
  have upd: "calls[i := ops' @ ops] = take i calls @ (ops' @ ops) # drop (Suc i) calls"
    using upd_conv_take_nth_drop [OF i] by simp
  have "(\<Union>ops \<in> set calls. maxima ops) = set (candidates op) \<union> S"
    by (subst whole) (auto simp: S_def)
  moreover have "(\<Union>ops \<in> set (calls[i := ops' @ ops]). maxima ops) = maxima ops' \<union> S"
    unfolding upd by (auto simp: S_def)
  ultimately have "goal_max s' = goal_max s" using step(4) by (simp add: goal_max_def s s')
  moreover have "(\<Sum>ops\<leftarrow>calls. remaining c ops) = to_add c op + (remaining c ops + (\<Sum>ops\<leftarrow>take i calls @ drop (Suc i) calls. remaining c ops))"
    by (subst whole) (simp add: ac_simps)
  moreover have "(\<Sum>ops\<leftarrow>calls[i := ops' @ ops]. remaining c ops) =
      remaining c ops' + (remaining c ops + (\<Sum>ops\<leftarrow>take i calls @ drop (Suc i) calls. remaining c ops))"
    unfolding upd by (simp add: ac_simps)
  ultimately have "goal_count c s' = goal_count c s"
    using step(1) [of c] by (simp add: goal_count_def s s')
  moreover have "calls_ok s'"
    using assms(1) step(2) ok(2) set_update_subset_insert [of calls i "ops' @ ops"]
    unfolding calls_ok_def s s' by fastforce
  ultimately show ?thesis using \<open>goal_max s' = goal_max s\<close> step(3) by (simp add: s s')
qed

interpretation counters: machine latency_step calls_ok
proof
  fix s e s'
  assume "calls_ok s" and "latency_step e s = Some s'"
  then show "calls_ok s'" using latency_step_goals by blast
qed

lemma run_call_counts: "counter_of c (run_call ops l) = counter_of c l + remaining c ops"
  by (induction ops l rule: run_call.induct) (auto simp: ac_simps)

lemma run_call_enabled: "enabled (run_call ops l) = enabled l"
  by (induction ops l rule: run_call.induct) auto

lemma Max_insert_Max:
  "finite A \<Longrightarrow> finite B \<Longrightarrow> Max (insert (Max (insert a A)) B) = Max (insert (a :: 'a :: linorder) (A \<union> B))"
  by (cases "A = {}"; cases "B = {}") (auto simp: Max.union max.assoc max.left_commute)

lemma run_call_max: "max_total_us (run_call ops l) = Max (insert (max_total_us l) (maxima ops))"
proof (induction ops l rule: run_call.induct)
  case (3 v ops l)
  then show ?case using Max_insert_Max [of "{v}" "maxima ops" "max_total_us l"] by (simp add: insert_commute max.commute)
next
  case (4 current v ops l)
  then show ?case using Max_insert_Max [of "{v}" "maxima ops" "max_total_us l"] by (simp add: insert_commute max.commute)
qed auto

lemma fold_calls:
  "counter_of c (fold run_call calls l) = goal_count c (l, calls)"
  "max_total_us (fold run_call calls l) = goal_max (l, calls)"
  "enabled (fold run_call calls l) = enabled l"
proof (induction calls arbitrary: l)
  case (Cons ops calls)
  { case 1 then show ?case using Cons by (simp add: goal_count_def run_call_counts ac_simps) }
  { case 2
    have "finite (\<Union>ops \<in> set calls. maxima ops)" by simp
    then show ?case using Cons(2)
      by (simp add: goal_max_def run_call_max Max_insert_Max)
  }
  { case 3 then show ?case using Cons by (simp add: run_call_enabled) }
qed (simp_all add: goal_count_def goal_max_def)

lemma complete_ops_ok: "op \<in> set (complete_ops at_time t) \<Longrightarrow> cas_ok op"
  by (auto simp: complete_ops_def split: option.splits if_splits)

text \<open>C26: The latency counters lose no update: for any number of requests completed at the same time by
  any number of loops, in every interleaving of their atomic accesses, with any failures of the weak
  compare-and-swap, when all calls have returned the counters and the maximum are those of completing
  the requests one after the other.\<close>

theorem concurrent_completions_add_up:
  assumes "run_steps latency_step es (l, map (\<lambda>(completed_at, t). complete_ops completed_at t) reqs) = Some (l', calls)"
    and "\<forall>ops \<in> set calls. ops = []"
  shows "l' = fold (\<lambda>(completed_at, t). complete completed_at t) reqs l"
proof -
  define calls0 where "calls0 = map (\<lambda>(completed_at, t). complete_ops completed_at t) reqs"
  have start: "calls_ok (l, calls0)" by (auto simp: calls_ok_def calls0_def intro: complete_ops_ok)
  have run: "run_steps latency_step es (l, calls0) = Some (l', calls)" using assms(1) by (simp add: calls0_def)
  have same: "(\<forall>c. goal_count c (l', calls) = goal_count c (l, calls0)) \<and> goal_max (l', calls) = goal_max (l, calls0) \<and>
      enabled (fst (l', calls)) = enabled (fst (l, calls0))"
    by (rule counters.run_relates [OF run start, where R = "\<lambda>s t. (\<forall>c. goal_count c t = goal_count c s) \<and>
        goal_max t = goal_max s \<and> enabled (fst t) = enabled (fst s)"]) (simp, metis latency_step_goals)
  have none: "(\<Sum>ops\<leftarrow>calls. remaining c ops) = 0" "(\<Union>ops \<in> set calls. maxima ops) = {}" for c
    using assms(2) by (induction calls) auto
  have "l' = fold run_call calls0 l"
    using same none by (intro latency_eqI) (simp_all add: fold_calls, simp_all add: goal_count_def goal_max_def)
  also have "\<dots> = fold (\<lambda>(completed_at, t). complete completed_at t) reqs l"
  proof -
    have "complete = (\<lambda>a b. run_call (complete_ops a b))" by (simp add: fun_eq_iff complete_def)
    then have "(\<lambda>(completed_at, t). complete completed_at t) = run_call \<circ> (\<lambda>(completed_at, t). complete_ops completed_at t)"
      by (auto simp: fun_eq_iff)
    then show ?thesis by (simp add: calls0_def fold_map)
  qed
  finally show ?thesis .
qed

section \<open>Figures of served requests\<close>

text \<open>The marks of a served request, in the order in which the connection, the worker and the connection
  make them; the last component is the time of \<open>complete\<close>.\<close>

type_synonym request_times = "time_point \<times> time_point \<times> time_point \<times> time_point \<times> time_point \<times> time_point \<times> time_point"

fun served :: "request_times \<Rightarrow> request_latency \<Rightarrow> request_latency" where
  "served (t0, t1, t2, t3, t4, t5, t6) l =
    complete t6 (markWriteStarted t5 (markReturnedToIo t4 (markWorkerFinished t3 (markWorkerStarted t2
      (markQueued t1 (beginRequest t0 l)))))) l"

fun in_order :: "request_times \<Rightarrow> bool" where
  "in_order (t0, t1, t2, t3, t4, t5, t6) \<longleftrightarrow>
    t0 \<le> t1 \<and> t1 \<le> t2 \<and> t2 \<le> t3 \<and> t3 \<le> t4 \<and> t4 \<le> t5 \<and> t5 \<le> t6"

definition micros :: "time_point \<Rightarrow> time_point \<Rightarrow> nat" where
  "micros a b = nat (b - a) div 1000"

text \<open>What a served request adds to a counter.\<close>

fun stage :: "counter \<Rightarrow> request_times \<Rightarrow> nat" where
  "stage Worker_queue (t0, t1, t2, t3, t4, t5, t6) = micros t1 t2"
| "stage Worker_compute (t0, t1, t2, t3, t4, t5, t6) = micros t2 t3"
| "stage Result_return (t0, t1, t2, t3, t4, t5, t6) = micros t3 t4"
| "stage Response_write (t0, t1, t2, t3, t4, t5, t6) = micros t4 t6"
| "stage Total (t0, t1, t2, t3, t4, t5, t6) = micros t0 t6"
| "stage Completed _ = 1"

lemma elapsedMicros_micros: "a \<le> b \<Longrightarrow> elapsedMicros a b = word_of_nat (micros a b)"
proof -
  assume "a \<le> b"
  then have "(b - a) sdiv 1000 = int (micros a b)"
    by (simp add: micros_def signed_divide_int_def sgn_if zdiv_int)
  then show ?thesis by (simp add: elapsedMicros_def)
qed

lemma served_simps:
  assumes "in_order ts" and "enabled l"
  shows "counter_of c (served ts l) = counter_of c l + word_of_nat (stage c ts)"
    and "max_total_us (served ts l) = max (max_total_us l) (word_of_nat (stage Total ts))"
    and "enabled (served ts l)"
proof -
  obtain t0 t1 t2 t3 t4 t5 t6 where ts: "ts = (t0, t1, t2, t3, t4, t5, t6)" by (metis prod.exhaust)
  have "elapsedMicros t1 t2 = word_of_nat (micros t1 t2)" "elapsedMicros t2 t3 = word_of_nat (micros t2 t3)"
    "elapsedMicros t3 t4 = word_of_nat (micros t3 t4)" "elapsedMicros t4 t6 = word_of_nat (micros t4 t6)"
    "elapsedMicros t0 t6 = word_of_nat (micros t0 t6)"
    using assms(1) by (intro elapsedMicros_micros; simp add: ts)+
  then have "served ts l = run_call [Fetch_add Worker_queue (word_of_nat (micros t1 t2)),
      Fetch_add Worker_compute (word_of_nat (micros t2 t3)), Fetch_add Result_return (word_of_nat (micros t3 t4)),
      Fetch_add Response_write (word_of_nat (micros t4 t6)), Fetch_add Total (word_of_nat (micros t0 t6)),
      Fetch_add Completed 1, Load_max (word_of_nat (micros t0 t6))] l"
    using assms(2) by (simp add: ts complete_def complete_ops_def all_marked_def markWriteStarted_def markReturnedToIo_def
        markWorkerFinished_def markWorkerStarted_def markQueued_def beginRequest_def)
  then show "counter_of c (served ts l) = counter_of c l + word_of_nat (stage c ts)"
    and "max_total_us (served ts l) = max (max_total_us l) (word_of_nat (stage Total ts))"
    and "enabled (served ts l)"
    using assms(2) by (cases c; simp add: ts)+
qed

lemma stages_sum:
  "in_order ts \<Longrightarrow> stage Worker_queue ts + stage Worker_compute ts + stage Result_return ts + stage Response_write ts
    \<le> stage Total ts"
proof -
  obtain t0 t1 t2 t3 t4 t5 t6 where ts: "ts = (t0, t1, t2, t3, t4, t5, t6)" by (metis prod.exhaust)
  assume "in_order ts"
  then have "nat (t2 - t1) + nat (t3 - t2) + nat (t4 - t3) + nat (t6 - t4) \<le> nat (t6 - t0)"
    unfolding ts in_order.simps by linarith
  then show ?thesis unfolding ts stage.simps micros_def by linarith
qed

definition stage_sum :: "counter \<Rightarrow> request_times list \<Rightarrow> nat" where
  "stage_sum c reqs = (\<Sum>ts\<leftarrow>reqs. stage c ts)"

lemma fold_served:
  assumes "\<forall>ts \<in> set reqs. in_order ts" and "enabled l"
  shows "counter_of c (fold served reqs l) = counter_of c l + word_of_nat (stage_sum c reqs)"
    and "enabled (fold served reqs l)"
  using assms by (induction reqs arbitrary: l) (simp_all add: stage_sum_def served_simps ac_simps)

lemma fold_served_max:
  assumes "\<forall>ts \<in> set reqs. in_order ts" and "enabled l" and "\<forall>ts \<in> set reqs. stage Total ts < 2 ^ 64"
  shows "unat (max_total_us (fold served reqs l)) = fold max (map (stage Total) reqs) (unat (max_total_us l))"
  using assms
proof (induction reqs arbitrary: l)
  case (Cons ts reqs)
  have "unat (max (max_total_us l) (word_of_nat (stage Total ts))) = max (unat (max_total_us l)) (stage Total ts)"
    using Cons.prems(3) by (auto simp: max_def word_le_nat_alt unat_of_nat)
  then show ?case using Cons served_simps [of ts l] by (simp add: max.commute)
qed simp

lemma stage_sum_stages:
  "\<forall>ts \<in> set reqs. in_order ts \<Longrightarrow> stage_sum Worker_queue reqs + stage_sum Worker_compute reqs +
    stage_sum Result_return reqs + stage_sum Response_write reqs \<le> stage_sum Total reqs"
proof (induction reqs)
  case (Cons ts reqs)
  then show ?case using stages_sum [of ts] by (simp add: stage_sum_def)
qed (simp add: stage_sum_def)

lemma stage_sum_Completed [simp]: "stage_sum Completed reqs = length reqs"
  by (induction reqs) (simp_all add: stage_sum_def)

lemma stage_sum_mem: "ts \<in> set reqs \<Longrightarrow> stage c ts \<le> stage_sum c reqs"
  by (auto simp: stage_sum_def intro: member_le_sum_list)

lemma fold_max_ge: "a \<le> fold max xs (a :: nat)" and fold_max_mem: "x \<in> set xs \<Longrightarrow> x \<le> fold max xs (b :: nat)"
proof -
  show ge: "a \<le> fold max xs a" for a :: nat and xs
  proof (induction xs arbitrary: a)
    case (Cons y ys)
    show ?case using order_trans [OF max.cobounded2 Cons.IH [of "max y a"]] by simp
  qed simp
  show "x \<in> set xs \<Longrightarrow> x \<le> fold max xs b" for b
  proof (induction xs arbitrary: b)
    case (Cons y ys)
    then show ?case using ge [of "max y b" ys] by auto
  qed simp
qed

lemma stage_sum_le_max: "stage_sum c reqs \<le> length reqs * fold max (map (stage c) reqs) 0"
proof -
  have "(\<Sum>ts\<leftarrow>reqs. stage c ts) \<le> (\<Sum>ts\<leftarrow>reqs. fold max (map (stage c) reqs) 0)"
    by (rule sum_list_mono) (simp add: fold_max_mem)
  then show ?thesis by (simp add: stage_sum_def sum_list_triv)
qed

lemma unat_average: "unat (average n us) = (if unat n = 0 then 0 else unat us div unat n)"
  by (simp add: average_def unat_div unat_eq_0)

lemma div_add_le: "a div n + b div n \<le> (a + b) div (n :: nat)"
  by (metis div_add1_eq le_add1)

text \<open>C27: The figures of the latency snapshot are right and consistent: after any served requests whose
  clock readings are in order and whose total time fits 64 bits, the number of completed requests is
  exact, each average is the floor of the mean of its stage in microseconds, the maximum is the largest
  total, the averages of the four stages add up to at most the average total, and that is at most the
  maximum; nothing wraps around.\<close>

theorem snapshot_figures:
  assumes "\<forall>ts \<in> set reqs. in_order ts" and "length reqs < 2 ^ 64" and "stage_sum Total reqs < 2 ^ 64"
    and "l = fold served reqs (RequestLatency True)"
  shows "unat (completed_requests l) = length reqs \<and>
    (\<forall>c. unat (average (completed_requests l) (counter_of c l)) = stage_sum c reqs div length reqs) \<and>
    unat (max_total_us l) = fold max (map (stage Total) reqs) 0 \<and>
    unat (average (completed_requests l) (worker_queue_us l)) + unat (average (completed_requests l) (worker_compute_us l)) +
      unat (average (completed_requests l) (result_return_us l)) + unat (average (completed_requests l) (response_write_us l))
      \<le> unat (average (completed_requests l) (total_us l)) \<and>
    unat (average (completed_requests l) (total_us l)) \<le> unat (max_total_us l)"
proof -
  have e: "enabled (RequestLatency True)" and zero: "max_total_us (RequestLatency True) = 0"
    by (simp_all add: RequestLatency_def)
  have zeros: "counter_of c (RequestLatency True) = 0" for c by (cases c) (simp_all add: RequestLatency_def)
  note sums = stage_sum_stages [OF assms(1)]
  have small: "stage_sum c reqs < 2 ^ 64" for c using sums assms(2,3) by (cases c) simp_all
  have counts: "unat (counter_of c l) = stage_sum c reqs" for c
    using fold_served(1) [OF assms(1) e, of c] small [of c] by (simp add: assms(4) zeros unat_of_nat)
  have n: "unat (completed_requests l) = length reqs" using counts [of Completed] by simp
  have avg: "unat (average (completed_requests l) (counter_of c l)) = stage_sum c reqs div length reqs" for c
    using counts [of c] n by (simp add: unat_average)
  have mx: "unat (max_total_us l) = fold max (map (stage Total) reqs) 0"
    using fold_served_max [OF assms(1) e] stage_sum_mem [of _ reqs Total] assms(3) by (simp add: assms(4) zero) (meson le_less_trans)
  have "a div n + b div n + c div n + d div n \<le> t div n" if "a + b + c + d \<le> t" for a b c d t n :: nat
    using that div_add_le [of a n b] div_add_le [of "a + b" n c] div_add_le [of "a + b + c" n d] div_le_mono [of "a + b + c + d" t n]
    by linarith
  from this [OF sums] have parts: "stage_sum Worker_queue reqs div length reqs + stage_sum Worker_compute reqs div length reqs +
      stage_sum Result_return reqs div length reqs + stage_sum Response_write reqs div length reqs
      \<le> stage_sum Total reqs div length reqs" .
  have "stage_sum Total reqs div length reqs \<le> fold max (map (stage Total) reqs) 0"
    using stage_sum_le_max [of Total reqs] by (metis div_le_mono nonzero_mult_div_cancel_left div_by_0 le0)
  with n avg mx parts avg [of Worker_queue] avg [of Worker_compute] avg [of Result_return] avg [of Response_write] avg [of Total]
  show ?thesis by simp
qed

section \<open>Concrete runs\<close>

definition sample_times :: "request_times list" where
  "sample_times = [(0, 1000, 3000, 9000, 9500, 9900, 12000), (2000, 2500, 4000, 4100, 30000, 31000, 32999)]"

lemma snapshot_figures_witness:
  "unat (completed_requests (fold served sample_times (RequestLatency True))) = 2 \<and>
   unat (max_total_us (fold served sample_times (RequestLatency True))) = 30"
proof -
  have "\<forall>ts \<in> set sample_times. in_order ts" "length sample_times < 2 ^ 64" "stage_sum Total sample_times < 2 ^ 64"
    "length sample_times = 2" "fold max (map (stage Total) sample_times) 0 = 30"
    by (simp_all add: sample_times_def stage_sum_def micros_def)
  with snapshot_figures [OF this(1-3) refl] show ?thesis by simp
qed

text \<open>Two completions at once: both load the maximum, the first exchange fails spuriously, the second
  one wins, and the first one tries again.\<close>

definition sample_timing :: "time_point \<Rightarrow> request_timing option" where
  "sample_timing t = markWriteStarted (t + 5000) (markReturnedToIo (t + 4000) (markWorkerFinished (t + 3000)
     (markWorkerStarted (t + 2000) (markQueued (t + 1000) (beginRequest t (RequestLatency True))))))"

definition race :: "(time_point \<times> request_timing option) list" where
  "race = [(20000, sample_timing 1000), (25000, sample_timing 9000)]"

definition race_start :: "request_latency \<times> atomic_op list list" where
  "race_start = (RequestLatency True, map (\<lambda>(completed_at, t). complete_ops completed_at t) race)"

definition race_events :: "(nat \<times> bool) list" where
  "race_events = concat (replicate 7 [(0, False), (1, False)]) @ [(0, True), (1, False), (0, False), (0, False)]"

definition race_end :: "request_latency \<times> atomic_op list list" where
  "race_end = the (run_steps latency_step race_events race_start)"

lemma concurrent_completions_add_up_witness:
  "fst race_end = fold (\<lambda>(completed_at, t). complete completed_at t) race (RequestLatency True) \<and>
   max_total_us (fst race_end) = 19"
proof -
  have "run_steps latency_step race_events race_start = Some (fst race_end, snd race_end)"
    "\<forall>ops \<in> set (snd race_end). ops = []" "max_total_us (fst race_end) = 19"
    by code_simp+
  with concurrent_completions_add_up [of race_events "RequestLatency True" race] show ?thesis
    unfolding race_start_def by blast
qed

text \<open>A snapshot is not atomic: read between the last \<open>fetch_add\<close> of a completion and its \<open>updateMax\<close>,
  it reports an average total above the maximum.\<close>

lemma snapshot_in_between:
  "let l = fst (the (run_steps latency_step (replicate 6 (0, False)) race_start))
   in unat (average (completed_requests l) (total_us l)) = 19 \<and> max_total_us l = 0"
  by code_simp

end
