(* ===== verification/WorkerPool.thy ===== *)
theory WorkerPool
  imports Machine
begin

text \<open>
  \<open>src/concurrency/WorkerPool.h\<close>, \<open>src/concurrency/WorkerPool.cpp\<close>: threads that take tasks from one
  queue. A step is one critical section, one notification or one task; a worker is where its
  \<open>workerLoop\<close> is: about to lock the mutex and test the predicate of \<open>wait\<close> (also after a wake-up),
  asleep in \<open>wait\<close>, running a task, or returned. \<open>notify_one\<close> comes after the critical section of
  \<open>submit\<close>, so other threads may step in between; it wakes some sleeping worker, if there is one; a
  sleeping worker may also wake for no reason. A task is a value; that it raised is an argument of the
  step that ends it, and the log keeps both.
\<close>

section \<open>Model\<close>

datatype 't worker = At_lock | Asleep | Running 't | Returned

datatype pool_error = Invalid_worker_count | Pool_is_stopping

record 't pool =
  tasks :: "'t list"
  stopping :: bool
  workers :: "'t worker list"
  notifications :: nat
  notifying_all :: bool
  submitted_tasks :: "'t list"
  taken_tasks :: "'t list"
  ended_tasks :: "('t \<times> bool) list"

definition WorkerPool :: "nat \<Rightarrow> pool_error + 't pool" where
  "WorkerPool worker_count =
    (if worker_count = 0 then Inl Invalid_worker_count
     else Inr \<lparr>tasks = [], stopping = False, workers = replicate worker_count At_lock, notifications = 0,
       notifying_all = False, submitted_tasks = [], taken_tasks = [], ended_tasks = []\<rparr>)"

text \<open>The critical section of \<open>submit\<close>; its \<open>notify_one\<close> is then still to come.\<close>

definition submit :: "'t \<Rightarrow> 't pool \<Rightarrow> pool_error + 't pool" where
  "submit task p =
    (if stopping p then Inl Pool_is_stopping
     else Inr (p\<lparr>tasks := tasks p @ [task], notifications := notifications p + 1,
                 submitted_tasks := submitted_tasks p @ [task]\<rparr>))"

definition wake :: "'t worker \<Rightarrow> 't worker" where
  "wake w = (case w of Asleep \<Rightarrow> At_lock | _ \<Rightarrow> w)"

text \<open>\<open>notify_one\<close> with the worker that it wakes; none only if none sleeps.\<close>

definition notify_one :: "nat option \<Rightarrow> 't pool \<Rightarrow> 't pool option" where
  "notify_one chosen p =
    (if notifications p = 0 then None
     else case chosen of
       None \<Rightarrow> if Asleep \<in> set (workers p) then None else Some (p\<lparr>notifications := notifications p - 1\<rparr>)
     | Some i \<Rightarrow>
         if i < length (workers p) \<and> workers p ! i = Asleep
         then Some (p\<lparr>notifications := notifications p - 1, workers := (workers p)[i := At_lock]\<rparr>) else None)"

text \<open>The destructor: its critical section, \<open>notify_all\<close>, and the joins, which return when every worker
  has returned.\<close>

definition stop :: "'t pool \<Rightarrow> 't pool option" where
  "stop p = (if stopping p then None else Some (p\<lparr>stopping := True, notifying_all := True\<rparr>))"

definition notify_all :: "'t pool \<Rightarrow> 't pool option" where
  "notify_all p =
    (if notifying_all p then Some (p\<lparr>notifying_all := False, workers := map wake (workers p)\<rparr>) else None)"

definition joined :: "'t pool \<Rightarrow> bool" where
  "joined p \<longleftrightarrow> stopping p \<and> \<not> notifying_all p \<and> (\<forall>w \<in> set (workers p). w = Returned)"

text \<open>\<open>workerLoop\<close>: the critical section of an iteration, up to blocking in \<open>wait\<close>, returning, or
  leaving with a task; and the end of the task, whose exceptions are caught.\<close>

definition worker_lock :: "nat \<Rightarrow> 't pool \<Rightarrow> 't pool" where
  "worker_lock i p =
    (if \<not> (stopping p \<or> tasks p \<noteq> []) then p\<lparr>workers := (workers p)[i := Asleep]\<rparr>
     else if stopping p \<and> tasks p = [] then p\<lparr>workers := (workers p)[i := Returned]\<rparr>
     else p\<lparr>workers := (workers p)[i := Running (hd (tasks p))], tasks := tl (tasks p),
            taken_tasks := taken_tasks p @ [hd (tasks p)]\<rparr>)"

definition workerLoop :: "nat \<Rightarrow> bool \<Rightarrow> 't pool \<Rightarrow> 't pool option" where
  "workerLoop i raised p =
    (if i < length (workers p) then
       (case workers p ! i of
          At_lock \<Rightarrow> Some (worker_lock i p)
        | Asleep \<Rightarrow> None
        | Running t \<Rightarrow> Some (p\<lparr>workers := (workers p)[i := At_lock], ended_tasks := ended_tasks p @ [(t, raised)]\<rparr>)
        | Returned \<Rightarrow> None)
     else None)"

definition spurious_wakeup :: "nat \<Rightarrow> 't pool \<Rightarrow> 't pool option" where
  "spurious_wakeup i p =
    (if i < length (workers p) \<and> workers p ! i = Asleep then Some (p\<lparr>workers := (workers p)[i := At_lock]\<rparr>) else None)"

datatype 't pool_event =
  Submit_task 't | Notify_one "nat option" | Worker_step nat bool | Spurious nat | Stop | Notify_all

fun pool_step :: "'t pool_event \<Rightarrow> 't pool \<Rightarrow> 't pool option" where
  "pool_step (Submit_task t) p = (case submit t p of Inl e \<Rightarrow> None | Inr p' \<Rightarrow> Some p')"
| "pool_step (Notify_one chosen) p = notify_one chosen p"
| "pool_step (Worker_step i raised) p = workerLoop i raised p"
| "pool_step (Spurious i) p = spurious_wakeup i p"
| "pool_step Stop p = stop p"
| "pool_step Notify_all p = notify_all p"

section \<open>Counting workers\<close>

definition at_lock :: "'t pool \<Rightarrow> nat" where
  "at_lock p = (\<Sum>w\<leftarrow>workers p. if w = At_lock then 1 else 0)"

definition running_task :: "'t worker \<Rightarrow> 't multiset" where
  "running_task w = (case w of Running t \<Rightarrow> {#t#} | _ \<Rightarrow> {#})"

definition running :: "'t pool \<Rightarrow> 't multiset" where
  "running p = (\<Sum>w\<leftarrow>workers p. running_task w)"

lemma sum_list_update_add:
  fixes f :: "'a \<Rightarrow> 'b::comm_monoid_add"
  shows "i < length ws \<Longrightarrow> (\<Sum>w\<leftarrow>ws[i := v]. f w) + f (ws ! i) = (\<Sum>w\<leftarrow>ws. f w) + f v"
proof (induction ws arbitrary: i)
  case (Cons w ws)
  then show ?case by (cases i) (simp_all add: ac_simps)
qed simp

lemma running_task_simps [simp]:
  "running_task At_lock = {#}" "running_task Asleep = {#}" "running_task Returned = {#}" "running_task (Running t) = {#t#}"
  "running_task (wake w) = running_task w"
  by (auto simp: running_task_def wake_def split: worker.split)

lemma running_update:
  "i < length (workers p) \<Longrightarrow> running (p\<lparr>workers := (workers p)[i := w]\<rparr>) + running_task (workers p ! i) =
    running p + running_task w"
  by (simp add: running_def sum_list_update_add)

lemma at_lock_update:
  "i < length (workers p) \<Longrightarrow> at_lock (p\<lparr>workers := (workers p)[i := w]\<rparr>) + (if workers p ! i = At_lock then 1 else 0) =
    at_lock p + (if w = At_lock then 1 else 0)"
  unfolding at_lock_def
  using sum_list_update_add [of i "workers p" "\<lambda>w. if w = At_lock then 1 else (0 :: nat)" w] by simp

lemma wake_simps [simp]: "wake w \<noteq> Asleep"
  by (auto simp: wake_def split: worker.split)

section \<open>Invariant\<close>

text \<open>\<open>awake\<close> is the argument against lost wake-ups: while a worker sleeps, every queued task is
  matched by a worker at the lock or by a notification under way, and a stopping pool still has its
  \<open>notify_all\<close> ahead.\<close>

definition pool_inv :: "'t pool \<Rightarrow> bool" where
  "pool_inv p \<longleftrightarrow>
     submitted_tasks p = taken_tasks p @ tasks p \<and>
     mset (taken_tasks p) = mset (map fst (ended_tasks p)) + running p \<and>
     (Asleep \<in> set (workers p) \<longrightarrow> length (tasks p) \<le> at_lock p + notifications p \<and> (stopping p \<longrightarrow> notifying_all p)) \<and>
     (Returned \<in> set (workers p) \<longrightarrow> stopping p \<and> tasks p = []) \<and>
     (notifying_all p \<longrightarrow> stopping p)"

lemma no_running: "sum_list (replicate n {#}) = {#}"
  by (induction n) auto

lemma pool_inv_start: "WorkerPool n = Inr p \<Longrightarrow> pool_inv p"
  by (cases n) (auto simp: WorkerPool_def pool_inv_def running_def no_running)

lemma running_cong: "workers p = workers q \<Longrightarrow> running p = running q"
  and at_lock_cong: "workers p = workers q \<Longrightarrow> at_lock p = at_lock q"
  by (simp_all add: running_def at_lock_def)

lemma pool_inv_submit: "pool_inv p \<Longrightarrow> submit t p = Inr p' \<Longrightarrow> pool_inv p'"
  by (auto simp: pool_inv_def submit_def running_def at_lock_def split: if_splits)

lemma set_update_cases: "x \<in> set (xs[i := y]) \<Longrightarrow> x = y \<or> x \<in> set xs"
  using set_update_subset_insert by fastforce

lemma pool_inv_wake_one:
  assumes "pool_inv p" and "i < length (workers p)" and "workers p ! i = Asleep" and "n = notifications p \<or> notifications p = Suc n"
  shows "pool_inv (p\<lparr>notifications := n, workers := (workers p)[i := At_lock]\<rparr>)"
proof -
  have "at_lock (p\<lparr>notifications := n, workers := (workers p)[i := At_lock]\<rparr>) = at_lock p + 1"
    using at_lock_update [OF assms(2), of At_lock] assms(3) by (simp add: at_lock_def)
  moreover have "running (p\<lparr>notifications := n, workers := (workers p)[i := At_lock]\<rparr>) = running p"
    using running_update [OF assms(2), of At_lock] assms(3) by (simp add: running_def)
  moreover have "Asleep \<in> set (workers p)" using assms(2,3) by (metis nth_mem)
  ultimately show ?thesis using assms(1,4) unfolding pool_inv_def by (auto dest: set_update_cases)
qed

lemma pool_inv_notify_one: "pool_inv p \<Longrightarrow> notify_one chosen p = Some p' \<Longrightarrow> pool_inv p'"
proof (cases chosen)
  case None
  moreover assume "pool_inv p" "notify_one chosen p = Some p'"
  ultimately show ?thesis
    by (auto simp: notify_one_def pool_inv_def running_def split: if_splits)
next
  case (Some i)
  moreover assume "pool_inv p" "notify_one chosen p = Some p'"
  ultimately show ?thesis
    by (auto simp: notify_one_def split: if_splits intro!: pool_inv_wake_one)
qed

lemma pool_inv_spurious: "pool_inv p \<Longrightarrow> spurious_wakeup i p = Some p' \<Longrightarrow> pool_inv p'"
  using pool_inv_wake_one [of p i "notifications p"] by (auto simp: spurious_wakeup_def split: if_splits)

lemma pool_inv_stop: "pool_inv p \<Longrightarrow> stop p = Some p' \<Longrightarrow> pool_inv p'"
  by (auto simp: stop_def pool_inv_def running_def at_lock_def split: if_splits)

lemma wake_Returned_iff [simp]: "Returned = wake w \<longleftrightarrow> w = Returned" "Asleep \<noteq> wake w"
  by (auto simp: wake_def split: worker.split)

lemma pool_inv_notify_all: "pool_inv p \<Longrightarrow> notify_all p = Some p' \<Longrightarrow> pool_inv p'"
  by (auto simp: notify_all_def pool_inv_def running_def comp_def split: if_splits)

lemma pool_inv_worker_lock:
  assumes "pool_inv p" and i: "i < length (workers p)" "workers p ! i = At_lock"
  shows "pool_inv (worker_lock i p)"
proof -
  have mem: "At_lock \<in> set (workers p)" using i by (metis nth_mem)
  show ?thesis
  proof (cases "tasks p")
    case Nil
    have "running (p\<lparr>workers := (workers p)[i := w]\<rparr>) = running p" if "running_task w = {#}" for w
      using running_update [OF i(1), of w] i(2) that by simp
    then have "running (p\<lparr>workers := (workers p)[i := Asleep]\<rparr>) = running p"
      "running (p\<lparr>workers := (workers p)[i := Returned]\<rparr>) = running p" by simp_all
    with assms(1) Nil show ?thesis
      by (cases "stopping p") (auto simp: worker_lock_def pool_inv_def dest: set_update_cases)
  next
    case (Cons t ts)
    define q where "q = p\<lparr>workers := (workers p)[i := Running t], tasks := ts, taken_tasks := taken_tasks p @ [t]\<rparr>"
    have "running q = running p + {#t#}"
      using running_update [OF i(1), of "Running t"] i(2) by (simp add: q_def running_def)
    moreover have "at_lock q + 1 = at_lock p"
      using at_lock_update [OF i(1), of "Running t"] i(2) by (simp add: q_def at_lock_def)
    ultimately have "pool_inv q"
      using assms(1) Cons unfolding pool_inv_def by (auto simp: q_def dest!: set_update_cases)
    with Cons show ?thesis by (simp add: worker_lock_def q_def)
  qed
qed

lemma pool_inv_workerLoop:
  assumes "pool_inv p" and "workerLoop i raised p = Some p'"
  shows "pool_inv p'"
proof -
  have i: "i < length (workers p)" using assms(2) by (simp add: workerLoop_def split: if_splits)
  show ?thesis
  proof (cases "workers p ! i")
    case At_lock
    with assms i pool_inv_worker_lock [OF assms(1) i] show ?thesis by (simp add: workerLoop_def)
  next
    case (Running t)
    define q where "q = p\<lparr>workers := (workers p)[i := At_lock], ended_tasks := ended_tasks p @ [(t, raised)]\<rparr>"
    have "running q + {#t#} = running p"
      using running_update [OF i, of At_lock] Running by (simp add: q_def running_def)
    moreover have "at_lock q = at_lock p + 1"
      using at_lock_update [OF i, of At_lock] Running by (simp add: q_def at_lock_def)
    ultimately have "pool_inv q"
      using assms(1) unfolding pool_inv_def by (auto simp: q_def dest!: set_update_cases)
    with assms(2) i Running show ?thesis by (simp add: workerLoop_def q_def)
  qed (use assms(2) i in \<open>simp_all add: workerLoop_def\<close>)
qed

interpretation pool: machine pool_step pool_inv
proof
  fix s e and s' :: "'a pool"
  assume "pool_inv s" and "pool_step e s = Some s'"
  then show "pool_inv s'"
    by (cases e) (auto intro: pool_inv_submit pool_inv_notify_one pool_inv_workerLoop pool_inv_spurious pool_inv_stop
        pool_inv_notify_all split: sum.splits)
qed

section \<open>Every task runs once\<close>

text \<open>Nothing moves by itself any more: no notification is under way and every worker sleeps or has
  returned.\<close>

definition quiescent :: "'t pool \<Rightarrow> bool" where
  "quiescent p \<longleftrightarrow> notifications p = 0 \<and> \<not> notifying_all p \<and> (\<forall>w \<in> set (workers p). w = Asleep \<or> w = Returned)"

lemma run_workers: "run_steps pool_step es p = Some p' \<Longrightarrow> length (workers p') = length (workers p)"
proof (induction es arbitrary: p)
  case (Cons e es)
  then obtain q where q: "pool_step e p = Some q" "run_steps pool_step es q = Some p'" by (auto split: option.splits)
  then have "length (workers q) = length (workers p)"
    by (cases e) (auto simp: submit_def notify_one_def workerLoop_def worker_lock_def spurious_wakeup_def stop_def
        notify_all_def split: if_splits sum.splits option.splits worker.splits)
  with Cons.IH q(2) show ?case by simp
qed simp

lemma at_lock_zero: "(\<forall>w \<in> set (workers p). w = Asleep \<or> w = Returned) \<Longrightarrow> at_lock p = 0 \<and> running p = {#}"
proof -
  have "(\<Sum>w\<leftarrow>ws. if w = At_lock then 1 else 0 :: nat) = 0 \<and> (\<Sum>w\<leftarrow>ws. running_task w) = {#}"
    if "\<forall>w \<in> set ws. w = Asleep \<or> w = Returned" for ws :: "'t worker list"
    using that by (induction ws) auto
  then show "(\<forall>w \<in> set (workers p). w = Asleep \<or> w = Returned) \<Longrightarrow> at_lock p = 0 \<and> running p = {#}"
    by (simp add: at_lock_def running_def)
qed

lemma quiescent_done:
  assumes "pool_inv p" and "quiescent p" and "workers p \<noteq> []"
  shows "tasks p = [] \<and> mset (map fst (ended_tasks p)) = mset (submitted_tasks p) \<and> (stopping p \<longrightarrow> joined p)"
proof -
  have ws: "\<forall>w \<in> set (workers p). w = Asleep \<or> w = Returned" using assms(2) by (simp add: quiescent_def)
  note zero = at_lock_zero [OF ws]
  have "tasks p = []"
  proof (cases "Asleep \<in> set (workers p)")
    case True
    then show ?thesis using assms(1,2) zero by (simp add: pool_inv_def quiescent_def)
  next
    case False
    then have "Returned \<in> set (workers p)" using assms(3) ws by (cases "workers p") auto
    then show ?thesis using assms(1) by (simp add: pool_inv_def)
  qed
  then show ?thesis using assms(1,2) zero unfolding pool_inv_def quiescent_def joined_def by auto
qed

lemma WorkerPool_workers: "WorkerPool n = Inr p \<Longrightarrow> workers p \<noteq> []"
  by (auto simp: WorkerPool_def split: if_splits)

text \<open>C12: The pool runs every task exactly once, in the order of submission, and never loses a wake-up:
  for every number of workers and every interleaving of submissions, notifications, wake-ups (also
  spurious ones), tasks that return or raise, and the destructor, the tasks taken so far are a prefix of
  those submitted, each of them ended or running in one worker, and when nothing moves any more (no
  notification under way, every worker asleep or returned) all submitted tasks have run; a stopping pool
  is then joined.\<close>

theorem pool_runs_every_task_once:
  assumes "WorkerPool n = Inr p0" and "run_steps pool_step es p0 = Some p"
  shows "submitted_tasks p = taken_tasks p @ tasks p \<and>
    mset (taken_tasks p) = mset (map fst (ended_tasks p)) + running p \<and>
    (quiescent p \<longrightarrow> tasks p = [] \<and> mset (map fst (ended_tasks p)) = mset (submitted_tasks p) \<and>
      (stopping p \<longrightarrow> joined p))"
proof -
  have inv: "pool_inv p" by (rule pool.run_keeps [OF assms(2) pool_inv_start [OF assms(1)]])
  have "length (workers p) = length (workers p0)" by (rule run_workers [OF assms(2)])
  then have "workers p \<noteq> []" using WorkerPool_workers [OF assms(1)] by fastforce
  then show ?thesis using inv quiescent_done [OF inv] by (simp add: pool_inv_def)
qed

section \<open>The destructor returns\<close>

definition worker_weight :: "'t worker \<Rightarrow> nat" where
  "worker_weight w = (case w of At_lock \<Rightarrow> 1 | Asleep \<Rightarrow> 2 | Running _ \<Rightarrow> 2 | Returned \<Rightarrow> 0)"

definition pool_weight :: "'t pool \<Rightarrow> nat" where
  "pool_weight p = 3 * length (tasks p) + (\<Sum>w\<leftarrow>workers p. worker_weight w) + notifications p +
     (if notifying_all p then 1 else 0)"

lemma worker_weight_simps [simp]:
  "worker_weight At_lock = 1" "worker_weight Asleep = 2" "worker_weight (Running t) = 2" "worker_weight Returned = 0"
  by (simp_all add: worker_weight_def)

lemma weight_wake: "(\<Sum>w\<leftarrow>map wake ws. worker_weight w) \<le> (\<Sum>w\<leftarrow>ws. worker_weight w)"
  by (induction ws) (auto simp: wake_def worker_weight_def split: worker.split)

lemma weight_update:
  "i < length ws \<Longrightarrow> (\<Sum>w\<leftarrow>ws[i := v]. worker_weight w) + worker_weight (ws ! i) = (\<Sum>w\<leftarrow>ws. worker_weight w) + worker_weight v"
  by (rule sum_list_update_add)

lemma workerLoop_weight:
  assumes "stopping p" and "workerLoop i raised p = Some q"
  shows "stopping q \<and> pool_weight q < pool_weight p"
proof -
  have i: "i < length (workers p)" using assms(2) by (simp add: workerLoop_def split: if_splits)
  show ?thesis
    using assms i weight_update [OF i, of At_lock] weight_update [OF i, of Returned]
      weight_update [OF i, of "Running (hd (tasks p))"]
    by (cases "tasks p"; cases "workers p ! i") (auto simp: workerLoop_def worker_lock_def pool_weight_def)
qed

interpretation draining: terminating_machine pool_step "\<lambda>p. pool_inv p \<and> stopping p" pool_weight
proof
  fix p q :: "'a pool" and e
  assume p: "pool_inv p \<and> stopping p" and e: "pool_step e p = Some q"
  have "stopping q \<and> pool_weight q < pool_weight p"
  proof (cases e)
    case (Submit_task t)
    with p e show ?thesis by (simp add: submit_def)
  next
    case (Notify_one chosen)
    with p e show ?thesis
      using weight_update [of "the chosen" "workers p" At_lock]
      by (auto simp: notify_one_def pool_weight_def split: if_splits option.splits)
  next
    case (Worker_step i raised)
    with p e workerLoop_weight [of p i raised q] show ?thesis by simp
  next
    case (Spurious i)
    with p e show ?thesis
      using weight_update [of i "workers p" At_lock] by (auto simp: spurious_wakeup_def pool_weight_def split: if_splits)
  next
    case Stop
    with p e show ?thesis by (simp add: stop_def)
  next
    case Notify_all
    with p e show ?thesis
      using weight_wake [of "workers p"] by (auto simp: notify_all_def pool_weight_def split: if_splits)
  qed
  moreover have "pool_inv q" using p e by (blast intro: pool.keeps)
  ultimately show "pool_inv q \<and> stopping q" and "pool_weight q < pool_weight p" by simp_all
qed

lemma stuck_quiescent:
  assumes "\<forall>e. pool_step e p = None"
  shows "quiescent p"
proof -
  have "notifications p = 0"
  proof (rule ccontr)
    assume n: "notifications p \<noteq> 0"
    show False
    proof (cases "Asleep \<in> set (workers p)")
      case True
      then obtain i where "i < length (workers p)" "workers p ! i = Asleep" by (auto simp: in_set_conv_nth)
      with n spec [OF assms, of "Notify_one (Some i)"] show False by (simp add: notify_one_def)
    next
      case False
      with n spec [OF assms, of "Notify_one None"] show False by (simp add: notify_one_def)
    qed
  qed
  moreover have "\<not> notifying_all p" using spec [OF assms, of Notify_all] by (auto simp: notify_all_def)
  moreover have "workers p ! i = Asleep \<or> workers p ! i = Returned" if "i < length (workers p)" for i
    using spec [OF assms, of "Worker_step i False"] that by (simp add: workerLoop_def split: worker.splits)
  ultimately show ?thesis unfolding quiescent_def by (metis in_set_conv_nth)
qed

text \<open>C19: The destructor returns, after all work is done: once the pool is stopping it accepts no task,
  every continuation of the run is bounded (by \<open>pool_weight\<close>: three steps for each queued task, two for
  each worker, one for each notification), and when no step is possible any more every worker has
  returned, so the joins do, with every task that was ever submitted run exactly once.\<close>

theorem destructor_drains_the_pool:
  assumes "WorkerPool n = Inr p0" and "run_steps pool_step es p0 = Some p" and "stopping p"
    and "run_steps pool_step fs p = Some q"
  shows "length fs \<le> pool_weight p \<and> submit t p = Inl Pool_is_stopping \<and>
    submitted_tasks q = submitted_tasks p \<and>
    ((\<forall>e. pool_step e q = None) \<longrightarrow>
      joined q \<and> mset (map fst (ended_tasks q)) = mset (submitted_tasks p))"
proof -
  have p: "pool_inv p \<and> stopping p" using pool.run_keeps [OF assms(2) pool_inv_start [OF assms(1)]] assms(3) by simp
  have q: "pool_inv q \<and> stopping q" by (rule draining.run_keeps [OF assms(4) p])
  have same: "submitted_tasks q = submitted_tasks p"
  proof (rule draining.run_relates [OF assms(4) p, where R = "\<lambda>p q. submitted_tasks q = submitted_tasks p"])
    fix s t u :: "'a pool" and e
    assume "pool_inv t \<and> stopping t" "submitted_tasks t = submitted_tasks s" "pool_step e t = Some u"
    then show "submitted_tasks u = submitted_tasks s"
      by (cases e) (auto simp: submit_def notify_one_def workerLoop_def worker_lock_def spurious_wakeup_def stop_def
          notify_all_def split: if_splits sum.splits option.splits worker.splits)
  qed simp
  have "workers q \<noteq> []"
    using run_workers [OF assms(2)] run_workers [OF assms(4)] WorkerPool_workers [OF assms(1)] by fastforce
  then show ?thesis
    using draining.run_bounded [OF assms(4) p] quiescent_done [of q] stuck_quiescent [of q] q same assms(3)
    by (auto simp: submit_def)
qed

section \<open>Concrete runs\<close>

text \<open>Two workers fall asleep, two tasks come, the second notification overtakes the first worker, a task
  raises, and the pool is destroyed.\<close>

definition pool_script :: "nat pool_event list" where
  "pool_script =
    [Worker_step 0 False, Worker_step 1 False, Submit_task 7, Submit_task 8, Notify_one (Some 1), Worker_step 1 False,
     Notify_one (Some 0), Worker_step 1 True, Stop]"

definition drain_script :: "nat pool_event list" where
  "drain_script = [Worker_step 0 False, Worker_step 1 False, Worker_step 0 False, Notify_all, Worker_step 0 False]"

definition run_pool :: "nat pool_event list \<Rightarrow> nat pool" where
  "run_pool es = the (run_steps pool_step es (projr (WorkerPool 2)))"

lemma pool_runs_every_task_once_witness:
  "map fst (ended_tasks (run_pool (pool_script @ drain_script))) = [7, 8] \<and>
   tasks (run_pool (pool_script @ drain_script)) = [] \<and> joined (run_pool (pool_script @ drain_script))"
proof -
  have "WorkerPool 2 = Inr (projr (WorkerPool 2 :: pool_error + nat pool))"
    "run_steps pool_step (pool_script @ drain_script) (projr (WorkerPool 2)) = Some (run_pool (pool_script @ drain_script))"
    by code_simp+
  note main = pool_runs_every_task_once [OF this]
  have "quiescent (run_pool (pool_script @ drain_script))" "stopping (run_pool (pool_script @ drain_script))"
    "map fst (ended_tasks (run_pool (pool_script @ drain_script))) = [7, 8]"
    by code_simp+
  with main show ?thesis by blast
qed

lemma destructor_drains_the_pool_witness:
  "length drain_script \<le> pool_weight (run_pool pool_script) \<and>
   submit (9 :: nat) (run_pool pool_script) = Inl Pool_is_stopping"
proof -
  have "WorkerPool 2 = Inr (projr (WorkerPool 2 :: pool_error + nat pool))"
    "run_steps pool_step pool_script (projr (WorkerPool 2)) = Some (run_pool pool_script)"
    "stopping (run_pool pool_script)"
    "run_steps pool_step drain_script (run_pool pool_script) = Some (run_pool (pool_script @ drain_script))"
    by code_simp+
  from destructor_drains_the_pool [OF this, of 9] show ?thesis by blast
qed

text \<open>A pool needs a worker.\<close>

lemma no_workers: "WorkerPool n = Inl e \<longleftrightarrow> n = 0 \<and> e = Invalid_worker_count"
  by (auto simp: WorkerPool_def)

end
