(* ===== verification/Channel.thy ===== *)
theory Channel
  imports Prelude
begin

text \<open>
  \<open>src/net/Channel.h\<close>, \<open>src/net/Channel.cpp\<close>: a file descriptor with its epoll interest and its
  callbacks. The callbacks act on a state \<open>'s\<close> (the connection, the loop); an event word is a 32-bit
  mask.
\<close>

unbundle bit_operations_syntax

section \<open>Model\<close>

definition EPOLLIN :: u32 where "EPOLLIN = 1"
definition EPOLLOUT :: u32 where "EPOLLOUT = 4"
definition EPOLLERR :: u32 where "EPOLLERR = 8"
definition EPOLLHUP :: u32 where "EPOLLHUP = 16"

lemmas epoll_bits [simp] = EPOLLIN_def EPOLLOUT_def EPOLLERR_def EPOLLHUP_def

record channel =
  channel_fd :: int
  channel_events :: u32

record 's callbacks =
  read_callback :: "('s \<Rightarrow> 's) option"
  write_callback :: "('s \<Rightarrow> 's) option"
  error_callback :: "('s \<Rightarrow> 's) option"

definition new_channel :: "int \<Rightarrow> channel" where
  "new_channel fd = \<lparr>channel_fd = fd, channel_events = 0\<rparr>"

definition enableReading :: "channel \<Rightarrow> channel" where
  "enableReading c = c\<lparr>channel_events := channel_events c OR EPOLLIN\<rparr>"

definition enableWriting :: "channel \<Rightarrow> channel" where
  "enableWriting c = c\<lparr>channel_events := channel_events c OR EPOLLOUT\<rparr>"

definition disableWriting :: "channel \<Rightarrow> channel" where
  "disableWriting c = c\<lparr>channel_events := channel_events c AND NOT EPOLLOUT\<rparr>"

definition disableAll :: "channel \<Rightarrow> channel" where
  "disableAll c = c\<lparr>channel_events := 0\<rparr>"

definition no_callbacks :: "'s callbacks" where
  "no_callbacks = \<lparr>read_callback = None, write_callback = None, error_callback = None\<rparr>"

definition setReadCallback :: "('s \<Rightarrow> 's) option \<Rightarrow> 's callbacks \<Rightarrow> 's callbacks" where
  "setReadCallback f cbs = cbs\<lparr>read_callback := f\<rparr>"

definition setWriteCallback :: "('s \<Rightarrow> 's) option \<Rightarrow> 's callbacks \<Rightarrow> 's callbacks" where
  "setWriteCallback f cbs = cbs\<lparr>write_callback := f\<rparr>"

definition setErrorCallback :: "('s \<Rightarrow> 's) option \<Rightarrow> 's callbacks \<Rightarrow> 's callbacks" where
  "setErrorCallback f cbs = cbs\<lparr>error_callback := f\<rparr>"

lemmas callback_setters [simp] = no_callbacks_def setReadCallback_def setWriteCallback_def setErrorCallback_def

definition invoke :: "('s \<Rightarrow> 's) option \<Rightarrow> 's \<Rightarrow> 's" where
  "invoke cb s = (case cb of None \<Rightarrow> s | Some f \<Rightarrow> f s)"

definition handleEvent :: "'s callbacks \<Rightarrow> u32 \<Rightarrow> 's \<Rightarrow> 's" where
  "handleEvent cbs revents s =
    (if revents AND (EPOLLERR OR EPOLLHUP) \<noteq> 0 then invoke (error_callback cbs) s
     else
       let s1 = (if revents AND EPOLLIN \<noteq> 0 then invoke (read_callback cbs) s else s)
       in if revents AND EPOLLOUT \<noteq> 0 then invoke (write_callback cbs) s1 else s1)"

definition wants_read :: "channel \<Rightarrow> bool" where
  "wants_read c \<longleftrightarrow> channel_events c AND EPOLLIN \<noteq> 0"

definition wants_write :: "channel \<Rightarrow> bool" where
  "wants_write c \<longleftrightarrow> channel_events c AND EPOLLOUT \<noteq> 0"

lemma and_bit_0: "(w AND 1 :: u32) \<noteq> 0 \<longleftrightarrow> bit w 0"
  by (simp add: and_one_eq odd_iff_mod_2_eq_one bit_0)

lemma bit_exp_32: "k < 32 \<Longrightarrow> bit (2 ^ k :: u32) n \<longleftrightarrow> n = k"
  by (auto simp: bit_exp_iff)

lemma and_exp_32: "k < 32 \<Longrightarrow> (w AND 2 ^ k :: u32) \<noteq> 0 \<longleftrightarrow> bit w k"
  by (metis (no_types, lifting) bit_and_iff bit_eq_iff bit_exp_32 bit_0_eq bot_apply bot_bool_def)

lemma bit_4: "bit (4 :: u32) n \<longleftrightarrow> n = 2" and bit_8: "bit (8 :: u32) n \<longleftrightarrow> n = 3"
  and bit_16: "bit (16 :: u32) n \<longleftrightarrow> n = 4"
  using bit_exp_32 [of 2 n] bit_exp_32 [of 3 n] bit_exp_32 [of 4 n] by simp_all

lemma and_bit_2: "(w AND 4 :: u32) \<noteq> 0 \<longleftrightarrow> bit w 2"
  using and_exp_32 [of 2 w] by simp

text \<open>The interest after each operation.\<close>

lemma wants_simps [simp]:
  "wants_read (new_channel n) = False" "wants_write (new_channel n) = False"
  "wants_read (enableReading c) = True" "wants_write (enableReading c) = wants_write c"
  "wants_read (enableWriting c) = wants_read c" "wants_write (enableWriting c) = True"
  "wants_read (disableWriting c) = wants_read c" "wants_write (disableWriting c) = False"
  "wants_read (disableAll c) = False" "wants_write (disableAll c) = False"
  by (simp_all add: wants_read_def wants_write_def and_bit_0 and_bit_2 new_channel_def enableReading_def
      enableWriting_def disableWriting_def disableAll_def bit_simps bit_4)

lemma channel_fd_simps [simp]:
  "channel_fd (new_channel n) = n" "channel_fd (enableReading c) = channel_fd c"
  "channel_fd (enableWriting c) = channel_fd c" "channel_fd (disableWriting c) = channel_fd c"
  "channel_fd (disableAll c) = channel_fd c"
  by (simp_all add: new_channel_def enableReading_def enableWriting_def disableWriting_def disableAll_def)

lemma and_error_bits: "revents AND (EPOLLERR OR EPOLLHUP) \<noteq> 0 \<longleftrightarrow> bit revents 3 \<or> bit revents 4"
  using and_exp_32 [of 3 revents] and_exp_32 [of 4 revents]
  by (simp only: EPOLLERR_def EPOLLHUP_def bit.conj_disj_distrib or_eq_0_iff) simp

lemma in_out_bits: "revents AND EPOLLIN \<noteq> 0 \<longleftrightarrow> bit revents 0" "revents AND EPOLLOUT \<noteq> 0 \<longleftrightarrow> bit revents 2"
  by (simp_all only: EPOLLIN_def EPOLLOUT_def and_bit_0 and_bit_2)

lemma bit_1_32: "bit (1 :: u32) n \<longleftrightarrow> n = 0"
  using bit_exp_32 [of 0 n] by simp

lemma enable_bits:
  "bit (w OR EPOLLIN) n \<longleftrightarrow> bit w n \<or> n = 0" "bit (w OR EPOLLOUT) n \<longleftrightarrow> bit w n \<or> n = 2"
  "bit (w AND NOT EPOLLOUT) n \<longleftrightarrow> bit w n \<and> n \<noteq> 2"
  using bit_imp_le_length [of w n]
  by (auto simp only: EPOLLIN_def EPOLLOUT_def bit_or_iff bit_and_iff bit_not_iff bit_1_32 bit_4 possible_bit_word)

text \<open>Event dispatch: an error or hang-up runs the error callback and nothing else; otherwise a
  readable event runs the read callback and a writable one the write callback, the read callback
  first and each at most once; every other event bit is ignored, and a missing callback is skipped.
  Enabling and disabling interest touches exactly the bit it names.\<close>

theorem channel_dispatch:
  "handleEvent \<lparr>read_callback = Some (\<lambda>l. l @ [''read'']), write_callback = Some (\<lambda>l. l @ [''write'']),
                error_callback = Some (\<lambda>l. l @ [''error''])\<rparr> revents [] =
     (if bit revents 3 \<or> bit revents 4 then [''error'']
      else (if bit revents 0 then [''read''] else []) @ (if bit revents 2 then [''write''] else [])) \<and>
   handleEvent \<lparr>read_callback = None, write_callback = None, error_callback = None\<rparr> revents s = s \<and>
   bit (channel_events (enableReading c)) n = (bit (channel_events c) n \<or> n = 0) \<and>
   bit (channel_events (enableWriting c)) n = (bit (channel_events c) n \<or> n = 2) \<and>
   bit (channel_events (disableWriting c)) n = (bit (channel_events c) n \<and> n \<noteq> 2)"
  unfolding handleEvent_def and_error_bits in_out_bits
  by (simp add: enableReading_def enableWriting_def disableWriting_def enable_bits invoke_def Let_def del: epoll_bits)

end
