(* ===== verification/Epoller.thy ===== *)
theory Epoller
  imports Prelude
begin

text \<open>
  \<open>src/net/Epoller.h\<close>, \<open>src/net/Epoller.cpp\<close>: the wrapper of an epoll instance. The interest list is
  kept by the kernel; \<open>epoll_ctl\<close> follows its manual: adding a descriptor that is in the list fails
  with \<open>EEXIST\<close>, changing or removing one that is not fails with \<open>ENOENT\<close>, and any call may be refused
  for another reason (no memory, a bad descriptor), which is an argument. A failing call changes nothing.
\<close>

type_synonym interest_list = "int \<rightharpoonup> u32"

datatype ctl_operation = Ctl_add | Ctl_mod | Ctl_del

definition epoll_ctl :: "bool \<Rightarrow> ctl_operation \<Rightarrow> int \<Rightarrow> u32 \<Rightarrow> interest_list \<Rightarrow> interest_list option" where
  "epoll_ctl refused operation n events l =
    (if refused then None
     else case operation of
       Ctl_add \<Rightarrow> if l n = None then Some (l(n \<mapsto> events)) else None
     | Ctl_mod \<Rightarrow> if l n = None then None else Some (l(n \<mapsto> events))
     | Ctl_del \<Rightarrow> if l n = None then None else Some (l(n := None)))"

datatype epoller_error =
  Epoll_create_failed | Max_events_not_positive | Ctl_update_failed | Ctl_del_failed | Epoll_wait_failed

record epoller =
  epoll_fd :: int
  max_events :: nat
  interest :: interest_list

text \<open>The constructor, with the descriptor that \<open>epoll_create1\<close> returns and the descriptors it closes.\<close>

definition Epoller :: "int \<Rightarrow> int \<Rightarrow> (epoller_error \<times> int list) + epoller" where
  "Epoller created n =
    (if created < 0 then Inl (Epoll_create_failed, [])
     else if n \<le> 0 then Inl (Max_events_not_positive, [created])
     else Inr \<lparr>epoll_fd = created, max_events = nat n, interest = Map.empty\<rparr>)"

definition destroy_epoller :: "epoller \<Rightarrow> int list" where
  "destroy_epoller e = (if 0 \<le> epoll_fd e then [epoll_fd e] else [])"

definition epoller_update :: "bool \<Rightarrow> ctl_operation \<Rightarrow> int \<Rightarrow> u32 \<Rightarrow> epoller \<Rightarrow> epoller_error + epoller" where
  "epoller_update refused operation n events e =
    (case epoll_ctl refused operation n events (interest e) of
       None \<Rightarrow> Inl Ctl_update_failed
     | Some l \<Rightarrow> Inr (e\<lparr>interest := l\<rparr>))"

definition addFd :: "bool \<Rightarrow> int \<Rightarrow> u32 \<Rightarrow> epoller \<Rightarrow> epoller_error + epoller" where
  "addFd refused n events e = epoller_update refused Ctl_add n events e"

definition modFd :: "bool \<Rightarrow> int \<Rightarrow> u32 \<Rightarrow> epoller \<Rightarrow> epoller_error + epoller" where
  "modFd refused n events e = epoller_update refused Ctl_mod n events e"

definition delFd :: "bool \<Rightarrow> int \<Rightarrow> epoller \<Rightarrow> epoller_error + epoller" where
  "delFd refused n e =
    (case epoll_ctl refused Ctl_del n 0 (interest e) of
       None \<Rightarrow> Inl Ctl_del_failed
     | Some l \<Rightarrow> Inr (e\<lparr>interest := l\<rparr>))"

text \<open>What \<open>epoll_wait\<close> answered.\<close>

datatype wait_result = Ready "(int \<times> u32) list" | Wait_interrupted | Wait_error

definition wait :: "wait_result \<Rightarrow> epoller_error + (int \<times> u32) list" where
  "wait r = (case r of Ready evs \<Rightarrow> Inr evs | Wait_interrupted \<Rightarrow> Inr [] | Wait_error \<Rightarrow> Inl Epoll_wait_failed)"

lemma epoller_simps:
  "addFd r n ev e = (if r \<or> interest e n \<noteq> None then Inl Ctl_update_failed else Inr (e\<lparr>interest := (interest e)(n \<mapsto> ev)\<rparr>))"
  "modFd r n ev e = (if r \<or> interest e n = None then Inl Ctl_update_failed else Inr (e\<lparr>interest := (interest e)(n \<mapsto> ev)\<rparr>))"
  "delFd r n e = (if r \<or> interest e n = None then Inl Ctl_del_failed else Inr (e\<lparr>interest := (interest e)(n := None)\<rparr>))"
  by (auto simp: addFd_def modFd_def delFd_def epoller_update_def epoll_ctl_def)

text \<open>The constructor owns the descriptor or has closed it.\<close>

lemma Epoller_owns: "0 \<le> created \<Longrightarrow>
  (case Epoller created n of Inl (e, closed) \<Rightarrow> closed = [created] | Inr e \<Rightarrow> destroy_epoller e = [created])"
  by (simp add: Epoller_def destroy_epoller_def)

end
