(* ===== verification/TimerQueue.thy ===== *)
theory TimerQueue
  imports Prelude
begin

text \<open>
  \<open>src/net/TimerQueue.h\<close>, \<open>src/net/TimerQueue.cpp\<close>: the timers of an event loop. The priority queue
  is a list with a function \<open>pick\<close> that gives the position of its top; the C++ standard says only
  that the top is a timer that expires first, not which of several with equal expiry, so nothing
  else is assumed of \<open>pick\<close>. A callback acts on a state and may add timers.
\<close>

section \<open>Model\<close>

record 'c timer =
  deadline :: time_point
  callback :: 'c

type_synonym 'c timer_queue = "'c timer list"

definition valid_top :: "('c timer_queue \<Rightarrow> nat) \<Rightarrow> bool" where
  "valid_top pick \<longleftrightarrow>
     (\<forall>q. q \<noteq> [] \<longrightarrow> pick q < length q \<and> (\<forall>t \<in> set q. deadline (q ! pick q) \<le> deadline t))"

definition timer_top :: "('c timer_queue \<Rightarrow> nat) \<Rightarrow> 'c timer_queue \<Rightarrow> 'c timer" where
  "timer_top pick q = q ! pick q"

definition timer_pop :: "('c timer_queue \<Rightarrow> nat) \<Rightarrow> 'c timer_queue \<Rightarrow> 'c timer_queue" where
  "timer_pop pick q = take (pick q) q @ drop (Suc (pick q)) q"

definition addTimer :: "time_point \<Rightarrow> 'c \<Rightarrow> 'c timer_queue \<Rightarrow> 'c timer_queue" where
  "addTimer t c q = q @ [\<lparr>deadline = t, callback = c\<rparr>]"

definition int_max :: int where
  "int_max = 2147483647"

text \<open>\<open>std::chrono::ceil\<close> from nanoseconds to milliseconds.\<close>

definition ceil_ms :: "int \<Rightarrow> int" where
  "ceil_ms ns = - ((- ns) div 1000000)"

definition millisecondsUntilNextTimer :: "('c timer_queue \<Rightarrow> nat) \<Rightarrow> time_point \<Rightarrow> 'c timer_queue \<Rightarrow> int" where
  "millisecondsUntilNextTimer pick now q =
    (if q = [] then - 1
     else let expires = deadline (timer_top pick q)
          in if expires \<le> now then 0
             else let remaining = ceil_ms (expires - now)
                  in if remaining \<ge> int_max then int_max else remaining)"

partial_function (option) runExpiredTimers ::
    "('c timer_queue \<Rightarrow> nat) \<Rightarrow> ('c \<Rightarrow> 's \<Rightarrow> 's \<times> 'c timer list) \<Rightarrow> time_point \<Rightarrow> 'c timer_queue \<Rightarrow> 's \<Rightarrow>
      ('c timer_queue \<times> 's) option" where
  "runExpiredTimers pick run now q s =
    (if q \<noteq> [] \<and> deadline (timer_top pick q) \<le> now then
       (case run (callback (timer_top pick q)) s of
          (s', added) \<Rightarrow> runExpiredTimers pick run now (timer_pop pick q @ added) s')
     else Some (q, s))"

declare runExpiredTimers.simps [code]

section \<open>The interface\<close>

text \<open>What the loop relies on: the top expires first, and popping it leaves the others.\<close>

locale priority_queue =
  fixes first :: "'c timer_queue \<Rightarrow> 'c timer" and rest :: "'c timer_queue \<Rightarrow> 'c timer_queue"
  assumes first_least: "q \<noteq> [] \<Longrightarrow> t \<in> set q \<Longrightarrow> deadline (first q) \<le> deadline t"
    and first_rest: "q \<noteq> [] \<Longrightarrow> mset q = add_mset (first q) (mset (rest q))"
begin

lemma none_due_iff: "(q \<noteq> [] \<and> deadline (first q) \<le> now) \<longleftrightarrow> (\<exists>t \<in> set q. deadline t \<le> now)"
proof (cases "q = []")
  case False
  then have "first q \<in> set q" using first_rest [OF False] by (metis set_mset_mset union_single_eq_member)
  then show ?thesis using False first_least [OF False] by (meson order_trans)
qed simp

lemma due_rest:
  assumes "q \<noteq> []" and "deadline (first q) \<le> now"
  shows "filter_mset (\<lambda>t. deadline t \<le> now) (mset q) =
      add_mset (first q) (filter_mset (\<lambda>t. deadline t \<le> now) (mset (rest q)))"
    and "filter_mset (\<lambda>t. \<not> deadline t \<le> now) (mset q) = filter_mset (\<lambda>t. \<not> deadline t \<le> now) (mset (rest q))"
  using assms first_rest [OF assms(1)] by simp_all

end

lemma mset_take_drop_nth: "i < length q \<Longrightarrow> mset q = add_mset (q ! i) (mset (take i q @ drop (Suc i) q))"
  by (metis id_take_nth_drop mset_append mset.simps(2) union_mset_add_mset_right)

lemma priority_queue_valid_top: "valid_top pick \<Longrightarrow> priority_queue (timer_top pick) (timer_pop pick)"
  by unfold_locales (auto simp: valid_top_def timer_top_def timer_pop_def mset_take_drop_nth simp del: mset_append)

text \<open>A queue whose top is the first of the timers that expire first.\<close>

definition first_top :: "'c timer_queue \<Rightarrow> nat" where
  "first_top q = length (takeWhile (\<lambda>t. deadline t \<noteq> Min (set (map deadline q))) q)"

lemma valid_first_top: "valid_top (first_top :: 'c timer_queue \<Rightarrow> nat)"
proof -
  have "first_top q < length q \<and> (\<forall>t \<in> set q. deadline (q ! first_top q) \<le> deadline t)" if "q \<noteq> []" for q :: "'c timer_queue"
  proof -
    have "Min (set (map deadline q)) \<in> set (map deadline q)" using that by (intro Min_in) auto
    then have "\<exists>t \<in> set q. deadline t = Min (set (map deadline q))" by auto
    then have less: "first_top q < length q"
      unfolding first_top_def
      by (metis (mono_tags, lifting) length_takeWhile_le nat_less_le takeWhile_eq_all_conv takeWhile_eq_take take_all_iff)
    then have "deadline (q ! first_top q) = Min (set (map deadline q))"
      unfolding first_top_def by (metis (mono_tags, lifting) nth_length_takeWhile)
    with less show ?thesis by simp
  qed
  then show ?thesis by (simp add: valid_top_def)
qed

interpretation timers: priority_queue "timer_top first_top" "timer_pop first_top"
  by (rule priority_queue_valid_top [OF valid_first_top])

section \<open>The poll timeout\<close>

lemma ceil_ms_bounds: "ns \<le> ceil_ms ns * 1000000" "(ceil_ms ns - 1) * 1000000 < ns"
proof -
  define d m where "d = (- ns) div 1000000" and "m = (- ns) mod 1000000"
  have "- ns = d * 1000000 + m" "0 \<le> m" "m < 1000000" unfolding d_def m_def by simp_all
  moreover have "ceil_ms ns = - d" by (simp add: ceil_ms_def d_def)
  ultimately show "ns \<le> ceil_ms ns * 1000000" "(ceil_ms ns - 1) * 1000000 < ns" by simp_all
qed

text \<open>C30: The timeout that the loop passes to \<open>epoll_wait\<close> is right: it is infinite (\<open>-1\<close>) exactly
  when there is no timer, \<open>0\<close> exactly when a timer has expired, and otherwise the least number of
  milliseconds after which the earliest timer has expired, cut to what an \<open>int\<close> holds: a loop that
  sleeps that long neither polls in vain nor oversleeps by a millisecond.\<close>

theorem poll_timeout_exact:
  assumes "valid_top pick"
  shows "let ms = millisecondsUntilNextTimer pick now q in
    (ms = - 1 \<longleftrightarrow> q = []) \<and> (ms = 0 \<longleftrightarrow> (\<exists>t \<in> set q. deadline t \<le> now)) \<and> - 1 \<le> ms \<and> ms \<le> int_max \<and>
    (0 < ms \<longrightarrow> (\<forall>t \<in> set q. now + (ms - 1) * 1000000 < deadline t)) \<and>
    (0 < ms \<and> ms < int_max \<longrightarrow> (\<exists>t \<in> set q. deadline t \<le> now + ms * 1000000))"
proof (cases "q = []")
  case True
  then show ?thesis by (simp add: millisecondsUntilNextTimer_def int_max_def)
next
  case False
  note pq = priority_queue_valid_top [OF assms]
  let ?d = "deadline (timer_top pick q)"
  have least: "?d \<le> deadline t" if "t \<in> set q" for t
    using priority_queue.first_least [OF pq False that] .
  have due: "?d \<le> now \<longleftrightarrow> (\<exists>t \<in> set q. deadline t \<le> now)" for now
    using priority_queue.none_due_iff [OF pq, of q now] False by blast
  show ?thesis
  proof (cases "?d \<le> now")
    case True
    then show ?thesis using False due [of now] by (simp add: millisecondsUntilNextTimer_def int_max_def)
  next
    case notdue: False
    let ?r = "ceil_ms (?d - now)"
    obtain ms where ms: "millisecondsUntilNextTimer pick now q = ms" by simp
    then have ms_eq: "ms = (if ?r \<ge> int_max then int_max else ?r)"
      using False notdue by (simp add: millisecondsUntilNextTimer_def Let_def)
    have "0 < ?r" using ceil_ms_bounds(1) [of "?d - now"] notdue by linarith
    then have pos: "0 < ms" "ms \<le> int_max" "ms \<le> ?r"
      using ms_eq by (auto simp: int_max_def)
    have early: "now + (ms - 1) * 1000000 < ?d"
    proof -
      have "(ms - 1) * 1000000 \<le> (?r - 1) * 1000000" using pos(3) by (intro mult_right_mono) simp_all
      with ceil_ms_bounds(2) [of "?d - now"] show ?thesis by simp
    qed
    have late: "?d \<le> now + ms * 1000000" if "ms < int_max"
      using ceil_ms_bounds(1) [of "?d - now"] that ms_eq by (auto split: if_splits)
    have no_due: "\<not> (\<exists>t \<in> set q. deadline t \<le> now)" using due [of now] notdue by blast
    have "\<forall>t \<in> set q. now + (ms - 1) * 1000000 < deadline t" using least early by fastforce
    moreover have "ms < int_max \<longrightarrow> (\<exists>t \<in> set q. deadline t \<le> now + ms * 1000000)"
      using late due [of "now + ms * 1000000"] by blast
    ultimately show ?thesis unfolding Let_def ms using pos False no_due by simp
  qed
qed

lemma poll_timeout_exact_witness:
  "millisecondsUntilNextTimer first_top 0 (addTimer 1500000 () []) = 2"
proof -
  let ?q = "addTimer 1500000 () []"
  have "millisecondsUntilNextTimer first_top 0 ?q = 2"
    by (simp add: millisecondsUntilNextTimer_def timer_top_def first_top_def addTimer_def ceil_ms_def int_max_def)
  moreover from poll_timeout_exact [OF valid_first_top, of 0 ?q] this
  have "\<forall>t \<in> set ?q. 0 + (2 - 1) * 1000000 < deadline t" by (simp add: Let_def)
  ultimately show ?thesis by simp
qed

section \<open>Running timers\<close>

text \<open>Running the callbacks of a list of timers in order, collecting the timers they add.\<close>

fun run_callbacks :: "('c \<Rightarrow> 's \<Rightarrow> 's \<times> 'c timer list) \<Rightarrow> 'c timer list \<Rightarrow> 's \<Rightarrow> 's \<times> 'c timer list" where
  "run_callbacks run [] s = (s, [])"
| "run_callbacks run (t # ts) s =
     (let (s1, added1) = run (callback t) s; (s2, added2) = run_callbacks run ts s1 in (s2, added1 @ added2))"

lemma run_callbacks_Cons:
  "fst (run_callbacks run (t # ts) s) = fst (run_callbacks run ts (fst (run (callback t) s)))"
  "snd (run_callbacks run (t # ts) s) =
     snd (run (callback t) s) @ snd (run_callbacks run ts (fst (run (callback t) s)))"
  by (simp_all add: case_prod_beta Let_def)

text \<open>Running a list of timers so that each is, when it is run, one that expires first of those pending.\<close>

fun earliest_first :: "('c \<Rightarrow> 's \<Rightarrow> 's \<times> 'c timer list) \<Rightarrow> 'c timer multiset \<Rightarrow> 'c timer list \<Rightarrow> 's \<Rightarrow> bool" where
  "earliest_first run pending [] s \<longleftrightarrow> True"
| "earliest_first run pending (t # ts) s \<longleftrightarrow>
     t \<in># pending \<and> (\<forall>u \<in># pending. deadline t \<le> deadline u) \<and>
     earliest_first run (pending - {#t#} + mset (snd (run (callback t) s))) ts (fst (run (callback t) s))"

text \<open>
  A callback may also add timers that have expired already (the idle check of a connection does), and they
  run in the same pass. The pass ends if that is bounded: \<open>budget s c\<close> is how many more timers the callback
  \<open>c\<close> can make due in the state \<open>s\<close>; running one pays for those it makes due, with their own budgets, and
  raises that of no other. Callbacks that schedule only for later have the budget 0.
\<close>

locale timer_callbacks =
  fixes run :: "'c \<Rightarrow> 's \<Rightarrow> 's \<times> 'c timer list" and now :: time_point
    and holds :: "'s \<Rightarrow> bool" and budget :: "'s \<Rightarrow> 'c \<Rightarrow> nat"
  assumes run_inv: "holds s \<Longrightarrow> holds (fst (run c s))"
    and run_others: "holds s \<Longrightarrow> budget (fst (run c s)) c' \<le> budget s c'"
    and run_pays: "holds s \<Longrightarrow>
      (\<Sum>t\<leftarrow>filter (\<lambda>t. deadline t \<le> now) (snd (run c s)). Suc (budget (fst (run c s)) (callback t))) \<le> budget s c"
begin

definition cost :: "'s \<Rightarrow> 'c timer multiset \<Rightarrow> nat" where
  "cost s M = (\<Sum>t\<in>#filter_mset (\<lambda>t. deadline t \<le> now) M. Suc (budget s (callback t)))"

lemma cost_mono: "holds s \<Longrightarrow> cost (fst (run c s)) M \<le> cost s M"
  unfolding cost_def by (intro sum_mset_mono) (simp add: run_others)

lemma cost_run:
  assumes "holds s" and "deadline t \<le> now" and "run (callback t) s = (s1, added)"
  shows "cost s1 (M + mset added) < cost s (add_mset t M)"
proof -
  have "cost s1 (M + mset added) = cost s1 M +
      (\<Sum>t\<leftarrow>filter (\<lambda>t. deadline t \<le> now) added. Suc (budget s1 (callback t)))"
    by (simp add: cost_def flip: mset_filter sum_mset_sum_list)
  also have "\<dots> \<le> cost s M + budget s (callback t)"
    using cost_mono [OF assms(1), of "callback t" M] run_pays [OF assms(1), of "callback t"] assms(3) by (simp add: add_mono)
  also have "\<dots> < cost s (add_mset t M)" using assms(2) by (simp add: cost_def)
  finally show ?thesis .
qed

lemma run_due:
  assumes top: "valid_top pick"
  shows "holds s \<Longrightarrow> \<exists>due q'. runExpiredTimers pick run now q s = Some (q', fst (run_callbacks run due s)) \<and>
    mset due = filter_mset (\<lambda>t. deadline t \<le> now) (mset q + mset (snd (run_callbacks run due s))) \<and>
    mset q' = filter_mset (\<lambda>t. \<not> deadline t \<le> now) (mset q + mset (snd (run_callbacks run due s))) \<and>
    earliest_first run (mset q) due s \<and> length due \<le> cost s (mset q)"
proof (induction "cost s (mset q)" arbitrary: q s rule: less_induct)
  case less
  note pq = priority_queue_valid_top [OF top]
  let ?top = "timer_top pick q"
  show ?case
  proof (cases "q \<noteq> [] \<and> deadline ?top \<le> now")
    case False
    then have "runExpiredTimers pick run now q s = Some (q, s)" by (subst runExpiredTimers.simps) auto
    moreover have "\<not> (\<exists>t \<in> set q. deadline t \<le> now)"
      using False priority_queue.none_due_iff [OF pq, of q now] by blast
    then have "filter (\<lambda>t. deadline t \<le> now) q = []" "filter (\<lambda>t. \<not> deadline t \<le> now) q = q"
      by (auto simp: filter_empty_conv filter_id_conv)
    then have "filter_mset (\<lambda>t. deadline t \<le> now) (mset q) = {#}" "filter_mset (\<lambda>t. \<not> deadline t \<le> now) (mset q) = mset q"
      by (simp_all only: mset.simps flip: mset_filter)
    ultimately show ?thesis by (intro exI [of _ "[]"] exI [of _ q]) simp
  next
    case True
    obtain s1 added where run: "run (callback ?top) s = (s1, added)" by (meson prod.exhaust)
    let ?rest = "timer_pop pick q"
    have q: "mset q = add_mset ?top (mset ?rest)" using priority_queue.first_rest [OF pq] True by blast
    have "cost s1 (mset (?rest @ added)) < cost s (mset q)"
      using cost_run [OF less.prems _ run, of "mset ?rest"] True by (simp add: q)
    moreover have "holds s1" using run_inv [OF less.prems, of "callback ?top"] run by simp
    ultimately obtain due q' where IH:
      "runExpiredTimers pick run now (?rest @ added) s1 = Some (q', fst (run_callbacks run due s1))"
      "mset due = filter_mset (\<lambda>t. deadline t \<le> now) (mset (?rest @ added) + mset (snd (run_callbacks run due s1)))"
      "mset q' = filter_mset (\<lambda>t. \<not> deadline t \<le> now) (mset (?rest @ added) + mset (snd (run_callbacks run due s1)))"
      "earliest_first run (mset (?rest @ added)) due s1" "length due \<le> cost s1 (mset (?rest @ added))"
      using less.hyps by blast
    have "runExpiredTimers pick run now q s = runExpiredTimers pick run now (?rest @ added) s1"
      using True run by (subst runExpiredTimers.simps) simp
    moreover have "\<forall>u \<in># mset q. deadline ?top \<le> deadline u"
      using priority_queue.first_least [OF pq] True by auto
    moreover have "?top \<in># mset q" "mset q - {#?top#} = mset ?rest" using q by simp_all
    moreover have "length (?top # due) \<le> cost s (mset q)"
      using IH(5) \<open>cost s1 (mset (?rest @ added)) < cost s (mset q)\<close> by simp
    moreover have "run_callbacks run (?top # due) s =
        (fst (run_callbacks run due s1), added @ snd (run_callbacks run due s1))"
      using run by (simp add: prod_eq_iff run_callbacks_Cons del: run_callbacks.simps)
    ultimately have "runExpiredTimers pick run now q s = Some (q', fst (run_callbacks run (?top # due) s)) \<and>
        mset (?top # due) = filter_mset (\<lambda>t. deadline t \<le> now) (mset q + mset (snd (run_callbacks run (?top # due) s))) \<and>
        mset q' = filter_mset (\<lambda>t. \<not> deadline t \<le> now) (mset q + mset (snd (run_callbacks run (?top # due) s))) \<and>
        earliest_first run (mset q) (?top # due) s \<and> length (?top # due) \<le> cost s (mset q)"
      using IH True run by (simp add: q add.assoc del: run_callbacks.simps)
    then show ?thesis by blast
  qed
qed

end

text \<open>If nothing that a callback adds is due, the order of the callbacks is that of the deadlines.\<close>

lemma earliest_first_sorted:
  "earliest_first run M due s \<Longrightarrow> \<forall>t \<in> set due. deadline t \<le> now \<Longrightarrow>
    \<forall>t \<in> set (snd (run_callbacks run due s)). now < deadline t \<Longrightarrow> sorted (map deadline due) \<and> set due \<subseteq> set_mset M"
proof (induction due arbitrary: M s)
  case (Cons t due)
  obtain s1 added where run: "run (callback t) s = (s1, added)" by (meson prod.exhaust)
  have later: "\<forall>t \<in> set added. now < deadline t" "\<forall>t \<in> set (snd (run_callbacks run due s1)). now < deadline t"
    using Cons.prems(3) run by (auto split: prod.splits)
  have rest: "earliest_first run (M - {#t#} + mset added) due s1" "\<forall>t \<in> set due. deadline t \<le> now"
    using Cons.prems(1,2) by (simp_all only: earliest_first.simps run fst_conv snd_conv) auto
  note IH = Cons.IH [OF rest later(2)]
  have "set due \<subseteq> set_mset M"
    using conjunct2 [OF IH] later(1) rest(2) by (fastforce dest: in_diffD)
  then show ?case using conjunct1 [OF IH] Cons.prems(1) by auto
qed simp

text \<open>C31: Expired timers run, and only those, also when callbacks add timers that have expired already, as
  long as each callback can make only a bounded number of further timers due (callbacks that schedule only
  for later are the case of bound 0; the idle check of a connection is bounded by 1). Then the loop
  terminates, after at most as many callbacks as the bounds of the expired timers allow; it has run exactly
  the timers that had expired, of those that were there and of those that were added, each once, each one
  that expires first of those then pending, and each on the state the previous one left; what remains are
  exactly the timers that have not expired; and if nothing that was added had expired, the order of the
  callbacks is that of the deadlines.\<close>

theorem expired_timers_run_in_order:
  assumes "valid_top pick" and "holds s" and "\<And>c s. holds s \<Longrightarrow> holds (fst (run c s))"
    and "\<And>c c' s. holds s \<Longrightarrow> budget (fst (run c s)) c' \<le> budget s c'"
    and "\<And>c s. holds s \<Longrightarrow>
      (\<Sum>t\<leftarrow>filter (\<lambda>t. deadline t \<le> now) (snd (run c s)). Suc (budget (fst (run c s)) (callback t))) \<le> budget s c"
  shows "\<exists>due q' added s'. run_callbacks run due s = (s', added) \<and>
    runExpiredTimers pick run now q s = Some (q', s') \<and>
    mset due = mset (filter (\<lambda>t. deadline t \<le> now) (q @ added)) \<and>
    mset q' = mset (filter (\<lambda>t. now < deadline t) (q @ added)) \<and>
    earliest_first run (mset q) due s \<and>
    length due \<le> (\<Sum>t\<leftarrow>filter (\<lambda>t. deadline t \<le> now) q. Suc (budget s (callback t))) \<and>
    (list_all (\<lambda>t. now < deadline t) added \<longrightarrow> sorted (map deadline due))"
proof -
  have cb: "timer_callbacks run now holds budget" by (rule timer_callbacks.intro) (use assms(3-5) in blast)+
  obtain due q' where run: "runExpiredTimers pick run now q s = Some (q', fst (run_callbacks run due s))"
    "mset due = filter_mset (\<lambda>t. deadline t \<le> now) (mset q + mset (snd (run_callbacks run due s)))"
    "mset q' = filter_mset (\<lambda>t. \<not> deadline t \<le> now) (mset q + mset (snd (run_callbacks run due s)))"
    "earliest_first run (mset q) due s" "length due \<le> timer_callbacks.cost now budget s (mset q)"
    using timer_callbacks.run_due [OF cb assms(1,2)] by blast
  have "\<forall>t \<in> set due. deadline t \<le> now" using arg_cong [OF run(2), of set_mset] by auto
  then have "sorted (map deadline due)" if "list_all (\<lambda>t. now < deadline t) (snd (run_callbacks run due s))"
    using earliest_first_sorted [OF run(4)] that by (simp add: list_all_iff)
  moreover have "timer_callbacks.cost now budget s (mset q) =
      (\<Sum>t\<leftarrow>filter (\<lambda>t. deadline t \<le> now) q. Suc (budget s (callback t)))"
    by (simp add: timer_callbacks.cost_def [OF cb] flip: mset_filter sum_mset_sum_list)
  moreover obtain s' added where "run_callbacks run due s = (s', added)" by (rule prod.exhaust)
  ultimately show ?thesis using run by (auto simp: mset_filter not_le)
qed

text \<open>Three timers with callbacks that log their number; the second of them schedules a later timer and one
  that has expired already.\<close>

definition log_callback :: "nat \<Rightarrow> nat list \<Rightarrow> nat list \<times> nat timer list" where
  "log_callback n l =
    (l @ [n], if n = 2 then [\<lparr>deadline = 99, callback = 4\<rparr>, \<lparr>deadline = 6, callback = 5\<rparr>] else [])"

definition log_queue :: "nat timer_queue" where
  "log_queue = addTimer 50 3 (addTimer 5 2 (addTimer 7 1 []))"

lemma log_callback_calls: "fst (run_callbacks log_callback due l) = l @ map callback due"
  by (induction due arbitrary: l) (simp_all add: run_callbacks_Cons log_callback_def del: run_callbacks.simps(2))

lemma expired_timers_run_in_order_witness:
  "\<exists>due q'. runExpiredTimers first_top log_callback 10 log_queue [] = Some (q', [2, 5, 1]) \<and>
    map callback due = [2, 5, 1] \<and> earliest_first log_callback (mset log_queue) due [] \<and> length q' = 2"
proof -
  define budget :: "nat list \<Rightarrow> nat \<Rightarrow> nat" where "budget = (\<lambda>s n. if n = 2 then 1 else 0)"
  have "(\<Sum>t\<leftarrow>filter (\<lambda>t. deadline t \<le> 10) (snd (log_callback c s)). Suc (budget (fst (log_callback c s)) (callback t)))
      \<le> budget s c" for c s by (simp add: budget_def log_callback_def)
  then obtain due q' added s' where cb: "run_callbacks log_callback due [] = (s', added)"
    and run: "runExpiredTimers first_top log_callback 10 log_queue [] = Some (q', s')"
    and first: "earliest_first log_callback (mset log_queue) due []"
    using expired_timers_run_in_order [of first_top "\<lambda>_. True" "[]" log_callback budget 10 log_queue, OF valid_first_top]
    unfolding budget_def by blast
  have "map_option (\<lambda>(q, s). (length q, s)) (runExpiredTimers first_top log_callback 10 log_queue []) = Some (2, [2, 5, 1])"
    by code_simp
  with run have "length q' = 2" "s' = [2, 5, 1]" by simp_all
  moreover have "s' = map callback due" using log_callback_calls [of due "[]"] cb by simp
  ultimately show ?thesis using run first by metis
qed

end
