(* ===== verification/EventLoop.thy ===== *)
theory EventLoop
  imports Machine Channel Epoller TimerQueue
begin

text \<open>
  \<open>src/net/EventLoop.h\<close>, \<open>src/net/EventLoop.cpp\<close>: an event loop with its epoll instance, timers,
  channels, wake-up descriptor and the queue of tasks that other threads fill. Callbacks, timers and
  tasks are names (type \<open>'c\<close>): what they do to the loop is any sequence of calls made while they run. The
  loop thread and the threads that call \<open>queueInLoop\<close> and \<open>quit\<close> interleave at single accesses to shared
  state: the locked push and swap of the queue, the atomic flag, and the reads and writes of the eventfd.
  The eventfd follows its manual: a write of 1 adds 1 to the counter, or would block from \<open>2^64 - 2\<close> on; a read
  takes the counter, or would block at 0. The constructor, \<open>addChannel\<close>, \<open>updateChannel\<close> and
  \<open>removeChannel\<close> return the state that is left also when they raise.
\<close>

section \<open>State\<close>

text \<open>The callbacks of a channel: the loop's own wake-up channel, or those of a client of the loop.\<close>

datatype 'c handler = Wakeup_handler | Handler 'c

datatype loop_exception = Epoller_raised epoller_error | Eventfd_failed

record 'c event_loop =
  quit_flag :: bool
  loop_epoller :: epoller
  loop_timers :: "'c timer_queue"
  loop_channels :: "int \<rightharpoonup> 'c handler"
  wakeup_fd :: int
  eventfd_counter :: u64
  pending_tasks :: "'c list"

abbreviation loop_interest :: "'c event_loop \<Rightarrow> interest_list" where
  "loop_interest l \<equiv> interest (loop_epoller l)"

type_synonym 'c loop_result = "loop_exception option \<times> 'c event_loop"

section \<open>Operations\<close>

definition addChannel :: "bool \<Rightarrow> channel \<Rightarrow> 'c handler \<Rightarrow> 'c event_loop \<Rightarrow> 'c loop_result" where
  "addChannel refused ch h l =
    (let l1 = l\<lparr>loop_channels := (loop_channels l)(channel_fd ch \<mapsto> h)\<rparr>
     in case addFd refused (channel_fd ch) (channel_events ch) (loop_epoller l1) of
          Inl e \<Rightarrow> (Some (Epoller_raised e), l1)
        | Inr ep \<Rightarrow> (None, l1\<lparr>loop_epoller := ep\<rparr>))"

definition updateChannel :: "bool \<Rightarrow> channel \<Rightarrow> 'c event_loop \<Rightarrow> 'c loop_result" where
  "updateChannel refused ch l =
    (case modFd refused (channel_fd ch) (channel_events ch) (loop_epoller l) of
       Inl e \<Rightarrow> (Some (Epoller_raised e), l)
     | Inr ep \<Rightarrow> (None, l\<lparr>loop_epoller := ep\<rparr>))"

definition removeChannel :: "bool \<Rightarrow> int \<Rightarrow> 'c event_loop \<Rightarrow> 'c loop_result" where
  "removeChannel refused n l =
    (if loop_channels l n = None then (None, l)
     else case delFd refused n (loop_epoller l) of
       Inl e \<Rightarrow> (Some (Epoller_raised e), l)
     | Inr ep \<Rightarrow> (None, l\<lparr>loop_epoller := ep, loop_channels := (loop_channels l)(n := None)\<rparr>))"

definition runAt :: "time_point \<Rightarrow> 'c \<Rightarrow> 'c event_loop \<Rightarrow> 'c event_loop" where
  "runAt expires_at cb l = l\<lparr>loop_timers := addTimer expires_at cb (loop_timers l)\<rparr>"

definition runAfter :: "int \<Rightarrow> 'c \<Rightarrow> time_point \<Rightarrow> 'c event_loop \<Rightarrow> 'c event_loop" where
  "runAfter delay cb now l = runAt (now + delay) cb l"

text \<open>The constructor, given the epoll instance and the descriptor that \<open>eventfd\<close> returned.\<close>

definition EventLoop :: "epoller \<Rightarrow> bool \<Rightarrow> int \<Rightarrow> 'c loop_result" where
  "EventLoop ep refused efd =
    (let l = \<lparr>quit_flag = False, loop_epoller = ep, loop_timers = [], loop_channels = Map.empty,
              wakeup_fd = efd, eventfd_counter = 0, pending_tasks = []\<rparr>
     in if efd < 0 then (Some Eventfd_failed, l)
        else addChannel refused (enableReading (new_channel efd)) Wakeup_handler l)"

text \<open>The destructor: the wake-up channel is removed, whatever \<open>removeChannel\<close> raises, and the descriptor
  closed; the result is the descriptors closed.\<close>

definition destroy_loop :: "bool \<Rightarrow> 'c event_loop \<Rightarrow> int list \<times> 'c event_loop" where
  "destroy_loop refused l =
    (if wakeup_fd l < 0 then ([], l)
     else case removeChannel refused (wakeup_fd l) l of (err, l') \<Rightarrow> ([wakeup_fd l], l'))"

text \<open>The locked push of \<open>queueInLoop\<close>, the store of \<open>quit\<close>, one attempt of the write loop of \<open>wakeup\<close>
  (which returns on success and on \<open>EAGAIN\<close>), one attempt of the read loop of \<open>handleWakeup\<close> (\<open>None\<close> on
  \<open>EAGAIN\<close>), and its locked swap.\<close>

definition queue_push :: "'c \<Rightarrow> 'c event_loop \<Rightarrow> 'c event_loop" where
  "queue_push task l = l\<lparr>pending_tasks := pending_tasks l @ [task]\<rparr>"

definition quit :: "'c event_loop \<Rightarrow> 'c event_loop" where
  "quit l = l\<lparr>quit_flag := True\<rparr>"

definition eventfd_max :: u64 where
  "eventfd_max = - 2"

definition wakeup :: "'c event_loop \<Rightarrow> 'c event_loop" where
  "wakeup l = (if eventfd_max \<le> eventfd_counter l then l else l\<lparr>eventfd_counter := eventfd_counter l + 1\<rparr>)"

definition wakeup_read :: "'c event_loop \<Rightarrow> 'c event_loop option" where
  "wakeup_read l = (if eventfd_counter l = 0 then None else Some (l\<lparr>eventfd_counter := 0\<rparr>))"

definition swap_tasks :: "'c event_loop \<Rightarrow> 'c list \<times> 'c event_loop" where
  "swap_tasks l = (pending_tasks l, l\<lparr>pending_tasks := []\<rparr>)"

section \<open>The registry\<close>

text \<open>The calls that clients make, with whether the kernel refuses them.\<close>

datatype 'c client_call = Add bool channel 'c | Update bool channel | Remove bool int | Run_at_call time_point 'c

fun loop_call :: "'c client_call \<Rightarrow> 'c event_loop \<Rightarrow> 'c loop_result" where
  "loop_call (Add refused ch c) l = addChannel refused ch (Handler c) l"
| "loop_call (Update refused ch) l = updateChannel refused ch l"
| "loop_call (Remove refused n) l = removeChannel refused n l"
| "loop_call (Run_at_call t c) l = (None, runAt t c l)"

fun call_fd :: "'c client_call \<Rightarrow> int option" where
  "call_fd (Add refused ch c) = Some (channel_fd ch)"
| "call_fd (Update refused ch) = Some (channel_fd ch)"
| "call_fd (Remove refused n) = Some n"
| "call_fd (Run_at_call t c) = None"

fun refused_add :: "'c client_call \<Rightarrow> bool" where
  "refused_add (Add refused ch c) = refused"
| "refused_add call = False"

lemmas loop_defs = addChannel_def updateChannel_def removeChannel_def epoller_simps Let_def

text \<open>Only the channels and the epoll instance change, and only at the descriptor of the call.\<close>

lemma loop_call_frame:
  assumes "loop_call call l = (err, l')"
  shows "quit_flag l' = quit_flag l" "wakeup_fd l' = wakeup_fd l" "eventfd_counter l' = eventfd_counter l"
    "pending_tasks l' = pending_tasks l" "max_events (loop_epoller l') = max_events (loop_epoller l)"
    "call_fd call \<noteq> Some n \<Longrightarrow> loop_channels l' n = loop_channels l n \<and> loop_interest l' n = loop_interest l n"
  using assms by (cases call; auto simp: loop_defs runAt_def split: if_splits)+

text \<open>What is watched is in the table; what is in the table but not watched, a refused addition has left.\<close>

definition unwatched :: "'c event_loop \<Rightarrow> int set" where
  "unwatched l = dom (loop_channels l) - dom (loop_interest l)"

definition refused_additions :: "'c client_call list \<Rightarrow> int set" where
  "refused_additions calls = set (List.map_filter call_fd (filter refused_add calls))"

lemma refused_additions_simps [simp]:
  "refused_additions [] = {}"
  "refused_additions (call # calls) = (if refused_add call then set_option (call_fd call) else {}) \<union> refused_additions calls"
  by (auto simp: refused_additions_def map_filter_simps split: option.split)

lemma loop_call_registry:
  assumes "loop_call call l = (err, l')"
  shows "dom (loop_interest l) \<subseteq> dom (loop_channels l) \<Longrightarrow> dom (loop_interest l') \<subseteq> dom (loop_channels l')"
    and "unwatched l' \<subseteq> unwatched l \<union> refused_additions [call]"
  using assms by (cases call; auto simp: loop_defs runAt_def unwatched_def dom_def split: if_splits)+

text \<open>Clients that make any sequence of calls and survive the exceptions.\<close>

definition run_calls :: "'c client_call list \<Rightarrow> 'c event_loop \<Rightarrow> 'c event_loop" where
  "run_calls calls l = fold (\<lambda>call l. snd (loop_call call l)) calls l"

lemma run_calls_registry:
  assumes "dom (loop_interest l) \<subseteq> dom (loop_channels l)"
  shows "dom (loop_interest (run_calls calls l)) \<subseteq> dom (loop_channels (run_calls calls l)) \<and>
    unwatched (run_calls calls l) \<subseteq> unwatched l \<union> refused_additions calls"
  using assms
proof (induction calls arbitrary: l)
  case (Cons call calls)
  obtain err l' where call: "loop_call call l = (err, l')" by (rule prod.exhaust)
  note step = loop_call_registry [OF call]
  have run: "run_calls (call # calls) l = run_calls calls l'" using call by (simp add: run_calls_def)
  show ?case using Cons.IH [OF step(1) [OF Cons.prems]] step(2) unfolding run by auto
qed (simp add: run_calls_def)

text \<open>C28: The loop's table of channels follows the kernel's interest list. From a loop that was
  constructed, after any sequence of calls by clients, any of them refused by the kernel and all
  exceptions survived: every descriptor that epoll watches is in the table; one that is in the table but
  not watched was left there by a refused addition of that very descriptor, so that the two have the same
  descriptors if no addition was refused; and a call raises exactly in these cases: an addition if it is
  refused or the descriptor is watched already, an update if it is refused or the descriptor is not
  watched, a removal if the descriptor is in the table and the removal is refused or it is not watched.\<close>

theorem registry_follows_epoll:
  assumes "Epoller created n = Inr ep" and "EventLoop ep False efd = (None, l0)" and "l = run_calls calls l0"
  shows "dom (loop_interest l) \<subseteq> dom (loop_channels l) \<and>
    dom (loop_channels l) - dom (loop_interest l) \<subseteq> refused_additions calls \<and>
    (list_all (\<lambda>call. \<not> refused_add call) calls \<longrightarrow> dom (loop_interest l) = dom (loop_channels l)) \<and>
    (fst (addChannel refused ch h l) \<noteq> None \<longleftrightarrow> refused \<or> channel_fd ch \<in> dom (loop_interest l)) \<and>
    (fst (updateChannel refused ch l) \<noteq> None \<longleftrightarrow> refused \<or> channel_fd ch \<notin> dom (loop_interest l)) \<and>
    (fst (removeChannel refused m l) \<noteq> None \<longleftrightarrow>
       m \<in> dom (loop_channels l) \<and> (refused \<or> m \<notin> dom (loop_interest l)))"
proof -
  have "dom (loop_interest l0) = dom (loop_channels l0)"
    using assms(1,2) by (auto simp: Epoller_def EventLoop_def loop_defs split: if_splits)
  then have sub: "dom (loop_interest l) \<subseteq> dom (loop_channels l)" and left: "unwatched l \<subseteq> refused_additions calls"
    using run_calls_registry [of l0 calls] assms(3) by (auto simp: unwatched_def)
  moreover have "refused_additions calls = {}" if "list_all (\<lambda>call. \<not> refused_add call) calls"
    using that by (induction calls) simp_all
  ultimately have "list_all (\<lambda>call. \<not> refused_add call) calls \<longrightarrow> dom (loop_interest l) = dom (loop_channels l)"
    by (auto simp: unwatched_def)
  then show ?thesis using sub left by (auto simp: unwatched_def loop_defs)
qed

definition demo_calls :: "nat client_call list" where
  "demo_calls = [Add False (enableReading (new_channel 5)) 50, Add False (enableReading (new_channel 5)) 51,
     Update True (new_channel 5), Remove False 6, Add True (enableReading (new_channel 8)) 80,
     Add False (enableReading (new_channel 6)) 60, Remove False 5]"

lemma registry_follows_epoll_witness:
  "fst (updateChannel False (new_channel 5) (run_calls demo_calls (snd (EventLoop (projr (Epoller 3 16)) False 4)))) \<noteq> None \<and>
   fst (removeChannel False 8 (run_calls demo_calls (snd (EventLoop (projr (Epoller 3 16)) False 4)))) \<noteq> None"
proof -
  let ?l0 = "snd (EventLoop (projr (Epoller 3 16)) False 4) :: nat event_loop"
  have made: "Epoller 3 16 = Inr (projr (Epoller 3 16))" "EventLoop (projr (Epoller 3 16)) False 4 = (None, ?l0)"
    by (simp_all add: Epoller_def EventLoop_def loop_defs)
  have "loop_interest (run_calls demo_calls ?l0) 5 = None" "loop_interest (run_calls demo_calls ?l0) 8 = None"
    "\<not> Option.is_none (loop_channels (run_calls demo_calls ?l0) 8)" by code_simp+
  then show ?thesis
    using registry_follows_epoll [OF made refl, of demo_calls False "new_channel 5" Wakeup_handler 8]
    by (auto simp: new_channel_def domIff Option.is_none_def)
qed

text \<open>A refused addition leaves the descriptor in the table but not with epoll; its removal then raises
  too, and never succeeds.\<close>

lemma refused_add_leaves_channel:
  assumes "loop_channels l (channel_fd ch) = None" and "loop_interest l (channel_fd ch) = None"
  shows "\<exists>l'. addChannel True ch h l = (Some (Epoller_raised Ctl_update_failed), l') \<and>
    loop_channels l' (channel_fd ch) = Some h \<and>
    removeChannel refused (channel_fd ch) l' = (Some (Epoller_raised Ctl_del_failed), l')"
  using assms by (simp add: loop_defs)

end
