(* ===== verification/EventLoopRun.thy ===== *)
theory EventLoopRun
  imports EventLoop
begin

text \<open>
  \<open>EventLoop::loop\<close> and its callers as a machine. The loop thread is in one of the places below; other
  threads (and callbacks) push tasks and set the quit flag, and each such thread then still has its
  write to the eventfd before it (\<open>writers\<close>). Callbacks may make any calls on the loop, except on its own
  wake-up descriptor; an exception that escapes a callback ends \<open>loop\<close>. What \<open>epoll_wait\<close> may report is
  restricted to what its manual promises. The tasks pushed and executed, the callbacks invoked and the
  number of polls are kept as history.
\<close>

section \<open>Places of the loop thread\<close>

datatype place =
  Not_started | At_check | At_poll | Dispatching "(int \<times> u32) list" | Reading "(int \<times> u32) list"
| Swapping "(int \<times> u32) list" | Running_tasks "(int \<times> u32) list" | At_timers | Running_timers time_point
| In_callback place | Finished | Raised loop_exception

record 'c loop_run =
  the_loop :: "'c event_loop"
  place :: place
  batch :: "'c list"
  writers :: nat
  pushed :: "'c list"
  executed :: "'c list"
  invoked :: "(int \<times> u32 \<times> 'c) list"
  polls :: nat

definition start_run :: "'c event_loop \<Rightarrow> 'c loop_run" where
  "start_run l = \<lparr>the_loop = l, place = Not_started, batch = [], writers = 0, pushed = [], executed = [],
     invoked = [], polls = 0\<rparr>"

datatype 'c loop_event =
  Push 'c | Set_quit | Write_eventfd bool | Start | Check | Poll time_point wait_result | Dispatch_next
| Call "'c client_call" | Callback_returns | Read_eventfd bool | Swap | Next_task | Timers time_point | Next_timer

section \<open>What epoll may report\<close>

definition reportable :: "interest_list \<Rightarrow> int \<times> u32 \<Rightarrow> bool" where
  "reportable l ev =
    (case l (fst ev) of None \<Rightarrow> False
     | Some events \<Rightarrow> snd ev \<noteq> 0 \<and> snd ev AND NOT (events OR EPOLLERR OR EPOLLHUP) = 0)"

definition readable_event :: "u32 \<Rightarrow> bool" where
  "readable_event ev \<longleftrightarrow> ev AND EPOLLIN \<noteq> 0"

definition wakeup_reported :: "'c event_loop \<Rightarrow> (int \<times> u32) list \<Rightarrow> bool" where
  "wakeup_reported l evs = list_ex (\<lambda>ev. fst ev = wakeup_fd l \<and> readable_event (snd ev)) evs"

definition poll_allowed :: "'c event_loop \<Rightarrow> int \<Rightarrow> wait_result \<Rightarrow> bool" where
  "poll_allowed l timeout_ms r =
    (case r of
       Ready evs \<Rightarrow>
         distinct (map fst evs) \<and> length evs \<le> max_events (loop_epoller l) \<and>
         list_all (reportable (loop_interest l)) evs \<and> (evs = [] \<longrightarrow> timeout_ms \<noteq> - 1) \<and>
         (wakeup_reported l evs \<longrightarrow> eventfd_counter l \<noteq> 0) \<and>
         (eventfd_counter l \<noteq> 0 \<longrightarrow> wakeup_reported l evs \<or> length evs = max_events (loop_epoller l))
     | Wait_interrupted \<Rightarrow> True
     | Wait_error \<Rightarrow> True)"

section \<open>Steps of the loop thread\<close>

definition goto :: "place \<Rightarrow> 'c loop_run \<Rightarrow> 'c loop_run" where
  "goto p s = s\<lparr>place := p\<rparr>"

definition loop_check :: "'c loop_run \<Rightarrow> 'c loop_run" where
  "loop_check s = goto (if quit_flag (the_loop s) then Finished else At_poll) s"

definition loop_poll :: "('c timer_queue \<Rightarrow> nat) \<Rightarrow> time_point \<Rightarrow> wait_result \<Rightarrow> 'c loop_run \<Rightarrow> 'c loop_run option" where
  "loop_poll pick now r s =
    (if poll_allowed (the_loop s) (millisecondsUntilNextTimer pick now (loop_timers (the_loop s))) r then
       Some (case wait r of
               Inl e \<Rightarrow> goto (Raised (Epoller_raised e)) (s\<lparr>polls := polls s + 1\<rparr>)
             | Inr evs \<Rightarrow> goto (Dispatching evs) (s\<lparr>polls := polls s + 1\<rparr>))
     else None)"

definition request_quit :: "'c loop_run \<Rightarrow> 'c loop_run" where
  "request_quit s = s\<lparr>the_loop := quit (the_loop s), writers := writers s + 1\<rparr>"

text \<open>\<open>dispatch\<close> of one event: nothing if the descriptor is no longer registered; for the wake-up channel
  its two callbacks; otherwise the callbacks of the client's channel.\<close>

definition dispatch :: "int \<Rightarrow> u32 \<Rightarrow> (int \<times> u32) list \<Rightarrow> 'c loop_run \<Rightarrow> 'c loop_run" where
  "dispatch n events rest s =
    (case loop_channels (the_loop s) n of
       None \<Rightarrow> goto (Dispatching rest) s
     | Some Wakeup_handler \<Rightarrow>
         handleEvent (setErrorCallback (Some request_quit) (setReadCallback (Some (goto (Reading rest))) no_callbacks))
           events (goto (Dispatching rest) s)
     | Some (Handler c) \<Rightarrow> goto (In_callback (Dispatching rest)) (s\<lparr>invoked := invoked s @ [(n, events, c)]\<rparr>))"

definition loop_dispatch :: "(int \<times> u32) list \<Rightarrow> 'c loop_run \<Rightarrow> 'c loop_run" where
  "loop_dispatch evs s = (case evs of [] \<Rightarrow> goto At_timers s | ev # rest \<Rightarrow> dispatch (fst ev) (snd ev) rest s)"

definition handleWakeup_read :: "bool \<Rightarrow> (int \<times> u32) list \<Rightarrow> 'c loop_run \<Rightarrow> 'c loop_run" where
  "handleWakeup_read interrupted rest s =
    (if interrupted then s
     else case wakeup_read (the_loop s) of
       None \<Rightarrow> goto (Dispatching rest) s
     | Some l \<Rightarrow> goto (Swapping rest) (s\<lparr>the_loop := l\<rparr>))"

definition handleWakeup_swap :: "(int \<times> u32) list \<Rightarrow> 'c loop_run \<Rightarrow> 'c loop_run" where
  "handleWakeup_swap rest s =
    (case swap_tasks (the_loop s) of (tasks, l) \<Rightarrow> goto (Running_tasks rest) (s\<lparr>the_loop := l, batch := tasks\<rparr>))"

definition handleWakeup_task :: "(int \<times> u32) list \<Rightarrow> 'c loop_run \<Rightarrow> 'c loop_run" where
  "handleWakeup_task rest s =
    (case batch s of
       [] \<Rightarrow> goto (Dispatching rest) s
     | task # tasks \<Rightarrow>
         goto (In_callback (Running_tasks rest)) (s\<lparr>batch := tasks, executed := executed s @ [task]\<rparr>))"

definition loop_timer :: "('c timer_queue \<Rightarrow> nat) \<Rightarrow> time_point \<Rightarrow> 'c loop_run \<Rightarrow> 'c loop_run" where
  "loop_timer pick now s =
    (let q = loop_timers (the_loop s)
     in if q \<noteq> [] \<and> deadline (timer_top pick q) \<le> now then
          goto (In_callback (Running_timers now)) (s\<lparr>the_loop := (the_loop s)\<lparr>loop_timers := timer_pop pick q\<rparr>\<rparr>)
        else goto At_check s)"

text \<open>A call from a callback, or before the loop runs; an exception ends the loop.\<close>

definition client_step :: "'c client_call \<Rightarrow> 'c loop_run \<Rightarrow> 'c loop_run option" where
  "client_step call s =
    (if call_fd call = Some (wakeup_fd (the_loop s)) then None
     else case loop_call call (the_loop s) of
       (None, l) \<Rightarrow> Some (s\<lparr>the_loop := l\<rparr>)
     | (Some e, l) \<Rightarrow> Some (goto (Raised e) (s\<lparr>the_loop := l\<rparr>)))"

fun loop_step :: "('c timer_queue \<Rightarrow> nat) \<Rightarrow> 'c loop_event \<Rightarrow> 'c loop_run \<Rightarrow> 'c loop_run option" where
  "loop_step pick (Push task) s =
     Some (s\<lparr>the_loop := queue_push task (the_loop s), writers := writers s + 1, pushed := pushed s @ [task]\<rparr>)"
| "loop_step pick Set_quit s = Some (request_quit s)"
| "loop_step pick (Write_eventfd interrupted) s =
     (if writers s = 0 then None
      else if interrupted then Some s
      else Some (s\<lparr>the_loop := wakeup (the_loop s), writers := writers s - 1\<rparr>))"
| "loop_step pick Start s = (if place s = Not_started then Some (goto At_check s) else None)"
| "loop_step pick Check s = (if place s = At_check then Some (loop_check s) else None)"
| "loop_step pick (Poll now r) s = (if place s = At_poll then loop_poll pick now r s else None)"
| "loop_step pick Dispatch_next s =
     (case place s of Dispatching evs \<Rightarrow> Some (loop_dispatch evs s) | _ \<Rightarrow> None)"
| "loop_step pick (Call call) s =
     (case place s of In_callback _ \<Rightarrow> client_step call s | Not_started \<Rightarrow> client_step call s | _ \<Rightarrow> None)"
| "loop_step pick Callback_returns s = (case place s of In_callback p \<Rightarrow> Some (goto p s) | _ \<Rightarrow> None)"
| "loop_step pick (Read_eventfd interrupted) s =
     (case place s of Reading rest \<Rightarrow> Some (handleWakeup_read interrupted rest s) | _ \<Rightarrow> None)"
| "loop_step pick Swap s = (case place s of Swapping rest \<Rightarrow> Some (handleWakeup_swap rest s) | _ \<Rightarrow> None)"
| "loop_step pick Next_task s = (case place s of Running_tasks rest \<Rightarrow> Some (handleWakeup_task rest s) | _ \<Rightarrow> None)"
| "loop_step pick (Timers now) s = (if place s = At_timers then Some (goto (Running_timers now) s) else None)"
| "loop_step pick Next_timer s = (case place s of Running_timers now \<Rightarrow> Some (loop_timer pick now s) | _ \<Rightarrow> None)"

section \<open>Invariant\<close>

fun in_batch :: "place \<Rightarrow> bool" where
  "in_batch (Running_tasks rest) = True"
| "in_batch (In_callback p) = in_batch p"
| "in_batch (Raised e) = True"
| "in_batch p = False"

fun before_swap :: "place \<Rightarrow> bool" where
  "before_swap (Swapping rest) = True"
| "before_swap p = False"

text \<open>Places a callback returns to.\<close>

fun place_ok :: "place \<Rightarrow> bool" where
  "place_ok (In_callback p) = (case p of Dispatching _ \<Rightarrow> True | Running_tasks _ \<Rightarrow> True | Running_timers _ \<Rightarrow> True | _ \<Rightarrow> False)"
| "place_ok p = True"

definition wakeup_registered :: "'c event_loop \<Rightarrow> bool" where
  "wakeup_registered l \<longleftrightarrow> loop_channels l (wakeup_fd l) = Some Wakeup_handler \<and>
     loop_interest l (wakeup_fd l) = Some EPOLLIN \<and> (\<forall>n. loop_channels l n = Some Wakeup_handler \<longrightarrow> n = wakeup_fd l)"

definition loop_inv :: "'c loop_run \<Rightarrow> bool" where
  "loop_inv s \<longleftrightarrow>
     pushed s = executed s @ batch s @ pending_tasks (the_loop s) \<and>
     (\<not> in_batch (place s) \<longrightarrow> batch s = []) \<and> place_ok (place s) \<and>
     (pending_tasks (the_loop s) \<noteq> [] \<longrightarrow> eventfd_counter (the_loop s) \<noteq> 0 \<or> 0 < writers s \<or> before_swap (place s)) \<and>
     (quit_flag (the_loop s) \<and> place s = At_poll \<longrightarrow> eventfd_counter (the_loop s) \<noteq> 0 \<or> 0 < writers s) \<and>
     dom (loop_interest (the_loop s)) \<subseteq> dom (loop_channels (the_loop s)) \<and> wakeup_registered (the_loop s) \<and>
     0 < max_events (loop_epoller (the_loop s))"

lemma goto_simps [simp]:
  "place (goto p s) = p" "the_loop (goto p s) = the_loop s" "batch (goto p s) = batch s" "writers (goto p s) = writers s"
  "pushed (goto p s) = pushed s" "executed (goto p s) = executed s" "polls (goto p s) = polls s"
  "invoked (goto p s) = invoked s"
  by (simp_all add: goto_def)

lemma wakeup_simps [simp]:
  "pending_tasks (wakeup l) = pending_tasks l" "quit_flag (wakeup l) = quit_flag l"
  "loop_epoller (wakeup l) = loop_epoller l" "loop_channels (wakeup l) = loop_channels l"
  "wakeup_fd (wakeup l) = wakeup_fd l" "loop_timers (wakeup l) = loop_timers l"
  by (simp_all add: wakeup_def)

lemma wakeup_counts [simp]: "eventfd_counter (wakeup l) \<noteq> 0"
proof (cases "eventfd_max \<le> eventfd_counter l")
  case True
  then show ?thesis by (auto simp: wakeup_def eventfd_max_def)
next
  case False
  have "eventfd_counter l \<noteq> - 1" using False by (auto simp: eventfd_max_def)
  then have "eventfd_counter l + 1 \<noteq> 0" by (metis add_eq_0_iff2)
  with False show ?thesis by (simp add: wakeup_def)
qed

lemma registered_wakeup_cong:
  "loop_channels l' = loop_channels l \<Longrightarrow> loop_epoller l' = loop_epoller l \<Longrightarrow> wakeup_fd l' = wakeup_fd l \<Longrightarrow>
    wakeup_registered l' = wakeup_registered l"
  by (simp add: wakeup_registered_def)

lemma inv_shared:
  "loop_inv s \<Longrightarrow> loop_inv (s\<lparr>the_loop := queue_push task (the_loop s), writers := writers s + 1, pushed := pushed s @ [task]\<rparr>)"
  "loop_inv s \<Longrightarrow> loop_inv (request_quit s)"
  "loop_inv s \<Longrightarrow> loop_inv (s\<lparr>the_loop := wakeup (the_loop s), writers := writers s - 1\<rparr>)"
  by (auto simp: loop_inv_def queue_push_def request_quit_def quit_def wakeup_registered_def)

lemma inv_goto:
  assumes "loop_inv s" and "in_batch (place s) \<longrightarrow> in_batch p" and "place_ok p" and "\<not> before_swap (place s)"
    and "p = At_poll \<longrightarrow> \<not> quit_flag (the_loop s)"
  shows "loop_inv (goto p s)"
  using assms unfolding loop_inv_def by auto

lemma inv_polls [simp]: "loop_inv (s\<lparr>polls := k\<rparr>) = loop_inv s" "loop_inv (s\<lparr>invoked := i\<rparr>) = loop_inv s"
  by (simp_all add: loop_inv_def)

lemma inv_check: "loop_inv s \<Longrightarrow> place s = At_check \<Longrightarrow> loop_inv (loop_check s)"
  by (simp add: loop_check_def inv_goto)

lemma inv_poll:
  assumes "loop_inv s" and "place s = At_poll" and "loop_poll pick now r s = Some s'"
  shows "loop_inv s'"
proof -
  have "loop_inv (goto (Raised e) (s\<lparr>polls := k\<rparr>))" "loop_inv (goto (Dispatching evs) (s\<lparr>polls := k\<rparr>))" for e evs k
    using assms(1,2) by (simp_all add: inv_goto)
  with assms(3) show ?thesis by (auto simp: loop_poll_def split: if_splits sum.splits)
qed

lemma inv_dispatch:
  assumes "loop_inv s" and "place s = Dispatching evs"
  shows "loop_inv (loop_dispatch evs s)"
proof (cases evs)
  case Nil
  then show ?thesis using assms by (simp add: loop_dispatch_def inv_goto)
next
  case (Cons ev rest)
  have d: "loop_inv (goto (Dispatching rest) s)" "loop_inv (goto (Reading rest) s)"
    "loop_inv (goto (In_callback (Dispatching rest)) (s\<lparr>invoked := x\<rparr>))" for x
    using assms by (simp_all add: inv_goto)
  have q: "loop_inv (request_quit (goto (Dispatching rest) s))" by (rule inv_shared(2) [OF d(1)])
  have r: "goto (Reading rest) (goto (Dispatching rest) s) = goto (Reading rest) s" by (simp add: goto_def)
  show ?thesis
    using q d by (simp add: Cons loop_dispatch_def dispatch_def handleEvent_def invoke_def Let_def r split: option.split handler.split)
qed

lemma inv_read: "loop_inv s \<Longrightarrow> place s = Reading rest \<Longrightarrow> loop_inv (handleWakeup_read b rest s)"
  by (auto simp: loop_inv_def handleWakeup_read_def wakeup_read_def wakeup_registered_def split: option.split)

lemma inv_swap: "loop_inv s \<Longrightarrow> place s = Swapping rest \<Longrightarrow> loop_inv (handleWakeup_swap rest s)"
  by (auto simp: loop_inv_def handleWakeup_swap_def swap_tasks_def wakeup_registered_def)

lemma inv_task: "loop_inv s \<Longrightarrow> place s = Running_tasks rest \<Longrightarrow> loop_inv (handleWakeup_task rest s)"
  by (auto simp: loop_inv_def handleWakeup_task_def split: list.split)

lemma inv_timer: "loop_inv s \<Longrightarrow> place s = Running_timers now \<Longrightarrow> loop_inv (loop_timer pick now s)"
  by (auto simp: loop_inv_def loop_timer_def Let_def wakeup_registered_def)

lemma inv_return:
  "loop_inv s \<Longrightarrow> place s = In_callback p \<Longrightarrow> loop_inv (goto p s)"
  by (cases p) (auto simp: loop_inv_def)

lemma wakeup_channel_kept:
  assumes "wakeup_registered l" and "loop_call call l = (err, l')" and "call_fd call \<noteq> Some (wakeup_fd l)"
  shows "wakeup_registered l'"
proof -
  note frame = loop_call_frame [OF assms(2)]
  have "loop_channels l' n = Some Wakeup_handler \<Longrightarrow> n = wakeup_fd l" for n
  proof (rule ccontr)
    assume n: "loop_channels l' n = Some Wakeup_handler" "n \<noteq> wakeup_fd l"
    then have "loop_channels l n \<noteq> Some Wakeup_handler" using assms(1) unfolding wakeup_registered_def by blast
    with n(1) assms(2) show False by (cases call) (auto simp: loop_defs runAt_def split: if_splits)
  qed
  then show ?thesis using assms(1,3) frame(2) frame(6) unfolding wakeup_registered_def by metis
qed

lemma inv_client:
  assumes "loop_inv s" and "client_step call s = Some s'" and "place s = Not_started \<or> (\<exists>p. place s = In_callback p)"
  shows "loop_inv s'"
proof -
  obtain err l' where call: "loop_call call (the_loop s) = (err, l')" by (rule prod.exhaust)
  have "call_fd call \<noteq> Some (wakeup_fd (the_loop s))" using assms(2) by (auto simp: client_step_def)
  note keep = wakeup_channel_kept [OF _ call this] loop_call_registry(1) [OF call] loop_call_frame(1-5) [OF call]
  have "loop_inv (goto p (s\<lparr>the_loop := l'\<rparr>))" if "p = place s \<or> (\<exists>e. p = Raised e)" for p
    using assms(1,3) keep that unfolding loop_inv_def by auto
  moreover have "goto (place s) (s\<lparr>the_loop := l'\<rparr>) = s\<lparr>the_loop := l'\<rparr>" by (simp add: goto_def)
  ultimately have "loop_inv (s\<lparr>the_loop := l'\<rparr>)" "loop_inv (goto (Raised e) (s\<lparr>the_loop := l'\<rparr>))" for e by metis+
  then show ?thesis using assms(2) call by (cases err) (auto simp: client_step_def split: if_splits)
qed

lemma loop_step_inv:
  assumes "loop_inv s" and "loop_step pick e s = Some s'"
  shows "loop_inv s'"
  using assms
  by (cases e; cases "place s")
    (auto simp: inv_shared(2) inv_shared(1,3) [simplified] inv_check inv_dispatch inv_read inv_swap inv_task inv_timer inv_return inv_goto
      intro: inv_poll inv_client split: if_splits)

interpretation loop_run: machine "loop_step pick" loop_inv
  by unfold_locales (rule loop_step_inv)

end
