(* ===== verification/EventLoopThread.thy ===== *)
theory EventLoopThread
  imports Machine
begin

text \<open>
  \<open>src/net/EventLoopThread.h\<close>, \<open>src/net/EventLoopThread.cpp\<close>: an object that runs an event loop on a
  thread of its own. Two threads step: the owner, which calls \<open>startLoop\<close> and later the destructor, and
  the loop thread. Each step is one critical section or one notification. The loop object lives on the
  stack of \<open>threadMain\<close>; the owner holds a pointer to it, so \<open>loop_alive\<close> tells whether a use of the
  pointer is legal. The loop runs until its quit flag is set (\<open>EventLoopLiveness\<close> shows that it then ends).
\<close>

section \<open>Model\<close>

datatype owner_place = Idle | Claimed | Waiting | Sleeping | Returned | Joining | Destroyed

datatype thread_place = No_thread | Constructing | Publishing | Notifying | Looping | Unpublishing | Destroying | Ended

record loop_thread =
  owner :: owner_place
  thread :: thread_place
  started :: bool
  loop_pointer :: bool
  loop_alive :: bool
  loop_quit :: bool
  dangling :: bool

datatype thread_error = Already_started

definition EventLoopThread :: loop_thread where
  "EventLoopThread = \<lparr>owner = Idle, thread = No_thread, started = False, loop_pointer = False, loop_alive = False,
     loop_quit = False, dangling = False\<rparr>"

text \<open>\<open>startLoop\<close>: the claim under the lock, the creation of the thread, and the wait for the pointer,
  which ends with a use of it.\<close>

definition start_claim :: "loop_thread \<Rightarrow> thread_error + loop_thread" where
  "start_claim t = (if started t then Inl Already_started else Inr (t\<lparr>started := True, owner := Claimed\<rparr>))"

definition start_spawn :: "loop_thread \<Rightarrow> loop_thread" where
  "start_spawn t = t\<lparr>thread := Constructing, owner := Waiting\<rparr>"

definition start_wait :: "loop_thread \<Rightarrow> loop_thread" where
  "start_wait t =
    (if loop_pointer t then t\<lparr>owner := Returned, dangling := dangling t \<or> \<not> loop_alive t\<rparr> else t\<lparr>owner := Sleeping\<rparr>)"

text \<open>\<open>threadMain\<close>, from one critical section to the next; the loop is destroyed at the end of its scope.\<close>

definition threadMain :: "loop_thread \<Rightarrow> loop_thread option" where
  "threadMain t =
    (case thread t of
       Constructing \<Rightarrow> Some (t\<lparr>thread := Publishing, loop_alive := True\<rparr>)
     | Publishing \<Rightarrow> Some (t\<lparr>thread := Notifying, loop_pointer := True\<rparr>)
     | Notifying \<Rightarrow> Some (t\<lparr>thread := Looping, owner := (if owner t = Sleeping then Waiting else owner t)\<rparr>)
     | Looping \<Rightarrow> if loop_quit t then Some (t\<lparr>thread := Unpublishing\<rparr>) else None
     | Unpublishing \<Rightarrow> Some (t\<lparr>thread := Destroying, loop_pointer := False\<rparr>)
     | Destroying \<Rightarrow> Some (t\<lparr>thread := Ended, loop_alive := False\<rparr>)
     | _ \<Rightarrow> None)"

text \<open>The destructor: its critical section, and the join.\<close>

definition destroy_quit :: "loop_thread \<Rightarrow> loop_thread" where
  "destroy_quit t =
    (if loop_pointer t then t\<lparr>loop_quit := True, owner := Joining, dangling := dangling t \<or> \<not> loop_alive t\<rparr>
     else t\<lparr>owner := Joining\<rparr>)"

definition destroy_join :: "loop_thread \<Rightarrow> loop_thread option" where
  "destroy_join t = (if thread t = No_thread \<or> thread t = Ended then Some (t\<lparr>owner := Destroyed\<rparr>) else None)"

datatype thread_event = Start_loop | Owner_step | Wake_owner | Thread_step | Destroy

fun thread_step :: "thread_event \<Rightarrow> loop_thread \<Rightarrow> loop_thread option" where
  "thread_step Start_loop t =
     (if owner t = Idle \<or> owner t = Returned then
        (case start_claim t of Inl e \<Rightarrow> None | Inr t' \<Rightarrow> Some t')
      else None)"
| "thread_step Owner_step t =
     (case owner t of
        Claimed \<Rightarrow> Some (start_spawn t)
      | Waiting \<Rightarrow> Some (start_wait t)
      | Joining \<Rightarrow> destroy_join t
      | _ \<Rightarrow> None)"
| "thread_step Wake_owner t = (if owner t = Sleeping then Some (t\<lparr>owner := Waiting\<rparr>) else None)"
| "thread_step Thread_step t = threadMain t"
| "thread_step Destroy t = (if owner t = Idle \<or> owner t = Returned then Some (destroy_quit t) else None)"

section \<open>Invariant\<close>

text \<open>The places determine the flags.\<close>

fun places_ok :: "owner_place \<Rightarrow> thread_place \<Rightarrow> bool" where
  "places_ok Idle w = (w = No_thread)"
| "places_ok Claimed w = (w = No_thread)"
| "places_ok Waiting w = (w \<in> {Constructing, Publishing, Notifying, Looping})"
| "places_ok Sleeping w = (w \<in> {Constructing, Publishing, Notifying})"
| "places_ok Returned w = (w \<in> {Notifying, Looping})"
| "places_ok Joining w = (w \<notin> {Constructing, Publishing})"
| "places_ok Destroyed w = (w \<in> {No_thread, Ended})"

definition state_at :: "owner_place \<Rightarrow> thread_place \<Rightarrow> loop_thread" where
  "state_at u w =
    \<lparr>owner = u, thread = w, started = (u = Claimed \<or> w \<noteq> No_thread),
     loop_pointer = (w = Notifying \<or> w = Looping \<or> w = Unpublishing),
     loop_alive = (w = Publishing \<or> w = Notifying \<or> w = Looping \<or> w = Unpublishing \<or> w = Destroying),
     loop_quit = (w \<noteq> No_thread \<and> (u = Joining \<or> u = Destroyed)), dangling = False\<rparr>"

definition thread_inv :: "loop_thread \<Rightarrow> bool" where
  "thread_inv t \<longleftrightarrow> places_ok (owner t) (thread t) \<and> t = state_at (owner t) (thread t)"

lemma state_at_simps [simp]:
  "owner (state_at u w) = u" "thread (state_at u w) = w"
  "started (state_at u w) = (u = Claimed \<or> w \<noteq> No_thread)" "dangling (state_at u w) = False"
  "loop_pointer (state_at u w) = (w = Notifying \<or> w = Looping \<or> w = Unpublishing)"
  "loop_alive (state_at u w) = (w = Publishing \<or> w = Notifying \<or> w = Looping \<or> w = Unpublishing \<or> w = Destroying)"
  "loop_quit (state_at u w) = (w \<noteq> No_thread \<and> (u = Joining \<or> u = Destroyed))"
  by (simp_all add: state_at_def)

lemma thread_inv_start: "thread_inv EventLoopThread"
  by (simp add: thread_inv_def EventLoopThread_def state_at_def)

lemma state_at_step:
  "places_ok u w \<Longrightarrow> thread_step e (state_at u w) = Some t' \<Longrightarrow> thread_inv t'"
  by (cases e; cases u; cases w)
    (simp_all add: start_claim_def start_spawn_def start_wait_def destroy_join_def destroy_quit_def threadMain_def,
     auto simp: thread_inv_def state_at_def)

lemma thread_step_inv: "thread_inv t \<Longrightarrow> thread_step e t = Some t' \<Longrightarrow> thread_inv t'"
  using state_at_step [of "owner t" "thread t" e t'] by (simp add: thread_inv_def)

interpretation loop_thread: machine thread_step thread_inv
  by unfold_locales (rule thread_step_inv)

section \<open>The life of the thread\<close>

fun rank :: "thread_place \<Rightarrow> nat" where
  "rank No_thread = 0"
| "rank Constructing = 0"
| "rank Publishing = 1"
| "rank Notifying = 2"
| "rank Looping = 3"
| "rank Unpublishing = 4"
| "rank Destroying = 5"
| "rank Ended = 6"

definition thread_steps :: "thread_event list \<Rightarrow> nat" where
  "thread_steps es = length (filter (\<lambda>e. e = Thread_step) es)"

lemma rank_step:
  "thread_inv t \<Longrightarrow> thread_step e t = Some t' \<Longrightarrow> rank (thread t') = rank (thread t) + (if e = Thread_step then 1 else 0)"
proof -
  have "places_ok u w \<Longrightarrow> thread_step e (state_at u w) = Some t' \<Longrightarrow>
      rank (thread t') = rank w + (if e = Thread_step then 1 else 0)" for u w
    by (cases e; cases u; cases w)
      (simp_all add: start_claim_def start_spawn_def start_wait_def destroy_join_def destroy_quit_def threadMain_def, auto)
  then show "thread_inv t \<Longrightarrow> thread_step e t = Some t' \<Longrightarrow> ?thesis" by (metis thread_inv_def)
qed

lemma thread_steps_rank:
  "run_steps thread_step es t = Some t' \<Longrightarrow> thread_inv t \<Longrightarrow> rank (thread t') = rank (thread t) + thread_steps es"
proof (induction es arbitrary: t)
  case (Cons e es)
  then obtain u where u: "thread_step e t = Some u" "run_steps thread_step es u = Some t'" by (auto split: option.splits)
  then show ?case using Cons.IH [OF u(2)] rank_step [OF Cons.prems(2) u(1)] thread_step_inv [OF Cons.prems(2) u(1)]
    by (simp add: thread_steps_def)
qed (simp add: thread_steps_def)

lemma rank_le: "rank w \<le> 6"
  by (cases w) simp_all

text \<open>C29: The hand-over of the loop is safe and does not hang: in every interleaving of the owner and the
  loop thread no pointer to a loop that is gone is used, neither by the return of \<open>startLoop\<close> nor by the
  destructor; \<open>startLoop\<close> returns only with a live loop, and a second call raises; the destructor returns
  only when the loop thread has ended or never ran; and whenever the owner is inside \<open>startLoop\<close> or the
  destructor, itself or the loop thread can step, where the loop thread makes at most six steps in all.\<close>

theorem loop_thread_is_safe:
  assumes "run_steps thread_step es EventLoopThread = Some t"
  shows "\<not> dangling t \<and> (owner t = Returned \<longrightarrow> loop_pointer t \<and> loop_alive t) \<and>
    (started t \<longrightarrow> start_claim t = Inl Already_started) \<and>
    (owner t = Destroyed \<longrightarrow> thread t = No_thread \<or> thread t = Ended) \<and>
    (owner t \<in> {Claimed, Waiting, Sleeping, Joining} \<longrightarrow>
      thread_step Owner_step t \<noteq> None \<or> thread_step Thread_step t \<noteq> None) \<and>
    thread_steps es \<le> 6"
proof -
  have inv: "thread_inv t" by (rule loop_thread.run_keeps [OF assms thread_inv_start])
  then have t: "places_ok (owner t) (thread t)" "t = state_at (owner t) (thread t)" by (simp_all add: thread_inv_def)
  have "places_ok u w \<Longrightarrow> u \<in> {Claimed, Waiting, Sleeping, Joining} \<Longrightarrow>
      thread_step Owner_step (state_at u w) \<noteq> None \<or> thread_step Thread_step (state_at u w) \<noteq> None" for u w
    by (cases u; cases w) (simp_all add: destroy_join_def threadMain_def)
  then have "owner t \<in> {Claimed, Waiting, Sleeping, Joining} \<longrightarrow>
      thread_step Owner_step t \<noteq> None \<or> thread_step Thread_step t \<noteq> None" using t by metis
  moreover have "thread_steps es \<le> 6"
    using thread_steps_rank [OF assms thread_inv_start] rank_le [of "thread t"] by (simp add: EventLoopThread_def)
  moreover have "\<not> dangling (state_at u w) \<and> (places_ok u w \<and> u = Returned \<longrightarrow> loop_pointer (state_at u w) \<and> loop_alive (state_at u w)) \<and>
      (started (state_at u w) \<longrightarrow> start_claim (state_at u w) = Inl Already_started) \<and>
      (places_ok u w \<and> u = Destroyed \<longrightarrow> w = No_thread \<or> w = Ended)" for u w
    by (cases u) (auto simp: start_claim_def)
  ultimately show ?thesis using t by metis
qed

lemma loop_thread_is_safe_witness:
  "\<not> dangling (the (run_steps thread_step [Start_loop, Owner_step, Owner_step, Thread_step, Thread_step, Thread_step,
     Owner_step, Destroy, Thread_step, Thread_step, Thread_step, Owner_step] EventLoopThread))"
proof -
  have "run_steps thread_step [Start_loop, Owner_step, Owner_step, Thread_step, Thread_step, Thread_step,
      Owner_step, Destroy, Thread_step, Thread_step, Thread_step, Owner_step] EventLoopThread = Some (state_at Destroyed Ended)"
    by code_simp
  from loop_thread_is_safe [OF this] show ?thesis by code_simp
qed

end
