(* ===== verification/EventLoopGroup.thy ===== *)
theory EventLoopGroup
  imports EventLoopThread
begin

text \<open>
  \<open>src/net/EventLoopGroup.h\<close>, \<open>src/net/EventLoopGroup.cc\<close>: the loops that share the connections, handed
  out in turn. A thread object is its \<open>EventLoopThread\<close>; what \<open>startLoop\<close> yields on a thread that was not
  started (a loop, or an exception of \<open>std::thread\<close>, \<open>None\<close>) is an argument. The state that \<open>start\<close> leaves
  when it raises is part of its result.
\<close>

section \<open>Model\<close>

datatype group_error = Group_is_empty | Group_already_started | Group_error | Thread_already_started | Thread_not_created

record 'l loop_group =
  threads :: "loop_thread list"
  loops :: "'l list"
  next_index :: nat
  group_started :: bool

definition EventLoopGroup :: "nat \<Rightarrow> group_error + 'l loop_group" where
  "EventLoopGroup loop_count =
    (if loop_count = 0 then Inl Group_is_empty
     else Inr \<lparr>threads = replicate loop_count EventLoopThread, loops = [], next_index = 0, group_started = False\<rparr>)"

text \<open>The loop of \<open>start\<close> over the threads.\<close>

fun start_threads :: "'l option list \<Rightarrow> loop_thread list \<Rightarrow> group_error option \<times> loop_thread list \<times> 'l list" where
  "start_threads outcomes [] = (None, [], [])"
| "start_threads outcomes (t # ts) =
     (case start_claim t of
        Inl e \<Rightarrow> (Some Thread_already_started, t # ts, [])
      | Inr t' \<Rightarrow>
          (case outcomes of
             Some l # os \<Rightarrow> (case start_threads os ts of (err, ts', ls) \<Rightarrow> (err, t' # ts', l # ls))
           | _ \<Rightarrow> (Some Thread_not_created, t' # ts, [])))"

definition start :: "'l option list \<Rightarrow> 'l loop_group \<Rightarrow> group_error option \<times> 'l loop_group" where
  "start outcomes g =
    (if group_started g then (Some Group_already_started, g)
     else case start_threads outcomes (threads g) of
       (err, ts, ls) \<Rightarrow>
         let g' = g\<lparr>threads := ts, loops := loops g @ ls\<rparr>
         in case err of None \<Rightarrow> (None, g'\<lparr>group_started := True\<rparr>) | Some e \<Rightarrow> (Some e, g'))"

definition nextLoop :: "'l loop_group \<Rightarrow> group_error + ('l \<times> 'l loop_group)" where
  "nextLoop g =
    (if \<not> group_started g \<or> loops g = [] then Inl Group_error
     else
       let l = loops g ! next_index g; i = next_index g + 1
       in Inr (l, g\<lparr>next_index := (if i \<ge> length (loops g) then 0 else i)\<rparr>))"

fun next_loops :: "nat \<Rightarrow> 'l loop_group \<Rightarrow> group_error + ('l list \<times> 'l loop_group)" where
  "next_loops 0 g = Inr ([], g)"
| "next_loops (Suc k) g =
     (case nextLoop g of
        Inl e \<Rightarrow> Inl e
      | Inr (l, g') \<Rightarrow> (case next_loops k g' of Inl e \<Rightarrow> Inl e | Inr (ls, g'') \<Rightarrow> Inr (l # ls, g'')))"

section \<open>Round robin\<close>

lemma start_threads_fresh:
  "\<forall>t \<in> set ts. \<not> started t \<Longrightarrow> length ls = length ts \<Longrightarrow>
    start_threads (map Some ls) ts = (None, map (\<lambda>t. t\<lparr>started := True, owner := Claimed\<rparr>) ts, ls)"
  by (induction ts arbitrary: ls) (auto simp: start_claim_def length_Suc_conv)

lemma nextLoop_index:
  assumes "group_started g" and "next_index g < length (loops g)"
  shows "nextLoop g = Inr (loops g ! next_index g, g\<lparr>next_index := (next_index g + 1) mod length (loops g)\<rparr>)"
proof -
  have "(if next_index g + 1 \<ge> length (loops g) then 0 else next_index g + 1) = (next_index g + 1) mod length (loops g)"
    using assms(2) by (cases "next_index g + 1 = length (loops g)") auto
  then show ?thesis using assms by (auto simp: nextLoop_def Let_def)
qed

lemma next_loops_index:
  assumes "group_started g" and "next_index g < length (loops g)"
  shows "\<exists>g'. next_loops k g = Inr (map (\<lambda>i. loops g ! ((next_index g + i) mod length (loops g))) [0..<k], g')"
  using assms
proof (induction k arbitrary: g)
  case (Suc k)
  define g1 where "g1 = g\<lparr>next_index := (next_index g + 1) mod length (loops g)\<rparr>"
  have pos: "0 < length (loops g)" using Suc.prems(2) by linarith
  have "group_started g1" "next_index g1 < length (loops g1)" using Suc.prems pos by (simp_all add: g1_def)
  from Suc.IH [OF this] obtain g' where
    "next_loops k g1 = Inr (map (\<lambda>i. loops g1 ! ((next_index g1 + i) mod length (loops g1))) [0..<k], g')" by blast
  moreover have "(next_index g1 + i) mod length (loops g1) = (next_index g + Suc i) mod length (loops g)" for i
    by (simp add: g1_def mod_add_left_eq)
  moreover have "[0..<Suc k] = 0 # map Suc [0..<k]" by (simp add: upt_conv_Cons map_Suc_upt del: upt_Suc)
  ultimately show ?case
    using nextLoop_index [OF Suc.prems] Suc.prems by (simp add: g1_def [symmetric] comp_def) (simp add: g1_def)
qed simp

text \<open>Connections are spread evenly: a group of \<open>n\<close> loops that was started hands out, call after call and
  without ever raising, loop \<open>k mod n\<close> at call \<open>k\<close>; in particular every loop comes once in any \<open>n\<close>
  consecutive calls. Before \<open>start\<close> a call raises, and a second \<open>start\<close> raises and changes nothing.\<close>

theorem round_robin:
  assumes "EventLoopGroup n = Inr g0" and "length ls = n" and "start (map Some ls) g0 = (err, g)"
  shows "err = None \<and> (\<exists>g'. next_loops k g = Inr (map (\<lambda>i. ls ! (i mod n)) [0..<k], g')) \<and>
    (\<forall>j. map (\<lambda>i. ls ! (i mod n)) [j..<j + n] = rotate j ls) \<and>
    nextLoop g0 = Inl Group_error \<and> start outcomes g = (Some Group_already_started, g)"
proof -
  have n: "0 < n" and g0: "g0 = \<lparr>threads = replicate n EventLoopThread, loops = [], next_index = 0, group_started = False\<rparr>"
    using assms(1) by (auto simp: EventLoopGroup_def split: if_splits)
  have "start_threads (map Some ls) (replicate n EventLoopThread) =
      (None, map (\<lambda>t. t\<lparr>started := True, owner := Claimed\<rparr>) (replicate n EventLoopThread), ls)"
    using assms(2) by (intro start_threads_fresh) (auto simp: EventLoopThread_def)
  then have g: "err = None" "loops g = ls" "next_index g = 0" "group_started g"
    using assms(3) by (auto simp: start_def g0 Let_def)
  have "map (\<lambda>i. ls ! (i mod n)) [j..<j + n] = rotate j ls" for j
    using assms(2) by (intro nth_equalityI) (simp_all add: nth_rotate add.commute)
  then show ?thesis
    using next_loops_index [OF g(4), of k] g n assms(2) by (auto simp: g0 nextLoop_def start_def)
qed

lemma round_robin_witness:
  "\<exists>g'. next_loops 5 (snd (start (map Some ''abc'') (projr (EventLoopGroup 3)))) = Inr (''abcab'', g')"
proof -
  have "EventLoopGroup 3 = Inr (projr (EventLoopGroup 3) :: char loop_group)" by (simp add: EventLoopGroup_def)
  from round_robin [OF this, of "''abc''" "fst (start (map Some ''abc'') (projr (EventLoopGroup 3)))"
      "snd (start (map Some ''abc'') (projr (EventLoopGroup 3)))" 5 "[]"]
  show ?thesis by (simp add: upt_rec)
qed

text \<open>If one thread cannot be created, \<open>start\<close> raises with the group half started: no loop is handed out,
  and every later \<open>start\<close> raises.\<close>

lemma half_started:
  assumes "EventLoopGroup (Suc n) = Inr g0" and "start (None # os) g0 = (err, g)"
  shows "err = Some Thread_not_created \<and> nextLoop g = Inl Group_error \<and>
    (\<forall>outcomes. fst (start outcomes g) = Some Thread_already_started)"
  using assms by (auto simp: EventLoopGroup_def start_def nextLoop_def start_claim_def EventLoopThread_def Let_def split: prod.splits)

end
