(* ===== verification/Socket.thy ===== *)
theory Socket
  imports Prelude
begin

text \<open>
  \<open>src/net/Socket.h\<close>, \<open>src/net/Socket.cpp\<close>: the listening socket. The outcome of each system call is an
  argument; the calls made, in order, are part of the result, so that every descriptor is accounted for.
\<close>

unbundle bit_operations_syntax

datatype socket_error = Socket_failed | Setsockopt_failed | Bind_failed | Listen_failed

datatype socket_call =
  Socket_opened int | Reuse_set int | Bound int "16 word" | Listening int int | Socket_closed int

record socket_env =
  socket_result :: int
  setsockopt_ok :: bool
  bind_ok :: bool
  listen_ok :: bool

definition closeFd :: "int \<Rightarrow> socket_call list" where
  "closeFd n = (if 0 \<le> n then [Socket_closed n] else [])"

definition O_NONBLOCK :: u32 where
  "O_NONBLOCK = 0x800"

text \<open>The flags that \<open>fcntl\<close> reports (\<open>None\<close> if it fails) and whether it accepts the new ones; the result
  is the return value and the flags of the descriptor afterwards.\<close>

definition setNonBlocking :: "u32 option \<Rightarrow> bool \<Rightarrow> int \<times> u32 option" where
  "setNonBlocking flags set_ok =
    (case flags of
       None \<Rightarrow> (- 1, None)
     | Some f \<Rightarrow> if set_ok then (0, Some (f OR O_NONBLOCK)) else (- 1, Some f))"

definition createListenSocket :: "socket_env \<Rightarrow> 16 word \<Rightarrow> int \<Rightarrow> (socket_error + int) \<times> socket_call list" where
  "createListenSocket env port backlog =
    (let listen_fd = socket_result env
     in if listen_fd < 0 then (Inl Socket_failed, [])
        else if \<not> setsockopt_ok env then
          (Inl Setsockopt_failed, [Socket_opened listen_fd] @ closeFd listen_fd)
        else if \<not> bind_ok env then
          (Inl Bind_failed, [Socket_opened listen_fd, Reuse_set listen_fd] @ closeFd listen_fd)
        else if \<not> listen_ok env then
          (Inl Listen_failed, [Socket_opened listen_fd, Reuse_set listen_fd, Bound listen_fd port] @ closeFd listen_fd)
        else
          (Inr listen_fd,
           [Socket_opened listen_fd, Reuse_set listen_fd, Bound listen_fd port, Listening listen_fd backlog]))"

text \<open>A socket that could not be set up is closed, exactly once and last; one that is returned listens
  and is open.\<close>

lemma listen_socket_owned:
  assumes "createListenSocket env port backlog = (r, calls)"
  shows "(\<forall>n. r = Inr n \<longrightarrow> 0 \<le> n \<and> last calls = Listening n backlog \<and> Bound n port \<in> set calls \<and>
            (\<forall>m. Socket_closed m \<notin> set calls)) \<and>
    (\<forall>e n. r = Inl e \<longrightarrow> Socket_opened n \<in> set calls \<longrightarrow> last calls = Socket_closed n \<and> count_list calls (Socket_closed n) = 1)"
  using assms by (auto simp: createListenSocket_def closeFd_def Let_def split: if_splits)

lemma setNonBlocking_sets: "setNonBlocking flags ok = (0, Some f) \<Longrightarrow> f AND O_NONBLOCK = O_NONBLOCK"
  by (auto simp: setNonBlocking_def word_bw_lcs word_bw_comms bit_eq_iff bit_and_iff bit_or_iff split: option.splits if_splits)

end
