(* ===== verification/Main_Program.thy ===== *)
theory Main_Program
  imports SearchApplication RequestLatency WorkerPool EventLoopRun EventLoopGroup Socket
begin

text \<open>
  \<open>src/main.cpp\<close>: the arguments of the program, the task that a worker runs for a request, the accept
  loop, the composition of the server, and the older blocking server that is no longer called. The words
  of the command line are \<open>argv\<close>. What \<open>std::atoi\<close> does with a number that does not fit an \<open>int\<close> is
  undefined, so it is a parameter.
\<close>

section \<open>Numbers of the C library\<close>

text \<open>White space, a sign and digits, with what follows them; \<open>None\<close> if there is no digit.\<close>

definition scan_number :: "string \<Rightarrow> (bool \<times> nat \<times> string) option" where
  "scan_number s =
    (let s1 = dropWhile isspace s;
         negative = (s1 \<noteq> [] \<and> hd s1 = CHR ''-'');
         s2 = (if s1 \<noteq> [] \<and> (hd s1 = CHR ''-'' \<or> hd s1 = CHR ''+'') then tl s1 else s1);
         ds = takeWhile is_digit_char s2
     in if ds = [] then None else Some (negative, decimal ds, drop (length ds) s2))"

definition strtoul :: "string \<Rightarrow> u64 \<times> string" where
  "strtoul s =
    (case scan_number s of
       None \<Rightarrow> (0, s)
     | Some (negative, v, rest) \<Rightarrow>
         (if 2 ^ 64 \<le> v then - 1 else if negative then - word_of_nat v else word_of_nat v, rest))"

definition atoi :: "(int \<Rightarrow> int) \<Rightarrow> string \<Rightarrow> int" where
  "atoi overflow s =
    (case scan_number s of
       None \<Rightarrow> 0
     | Some (negative, v, rest) \<Rightarrow>
         let n = (if negative then - int v else int v)
         in if - (2 ^ 31) \<le> n \<and> n < 2 ^ 31 then n else overflow n)"

section \<open>Arguments\<close>

datatype argument_error = Bad_port | Bad_worker_count | Bad_loop_count | Bad_cache_mode | Bad_latency_metrics

definition parsePort :: "(int \<Rightarrow> int) \<Rightarrow> string list \<Rightarrow> argument_error + 16 word" where
  "parsePort overflow argv =
    (if length argv < 2 then Inr 8080
     else let n = atoi overflow (argv ! 1)
          in if n \<le> 0 \<or> 65535 < n then Inl Bad_port else Inr (word_of_int n))"

definition parseDocumentsRoot :: "string list \<Rightarrow> string" where
  "parseDocumentsRoot argv = (if length argv < 3 then ''data/docs'' else argv ! 2)"

definition parseWorkerCount :: "string list \<Rightarrow> argument_error + nat" where
  "parseWorkerCount argv =
    (if length argv < 4 then Inr 4
     else let (worker_count, rest) = strtoul (argv ! 3)
          in if rest = argv ! 3 \<or> rest \<noteq> [] \<or> worker_count = 0 \<or> 256 < worker_count then Inl Bad_worker_count
             else Inr (unat worker_count))"

definition parseIoLoopCount :: "string list \<Rightarrow> argument_error + nat" where
  "parseIoLoopCount argv =
    (if length argv < 5 then Inr 1
     else let (loop_count, rest) = strtoul (argv ! 4)
          in if rest = argv ! 4 \<or> rest \<noteq> [] \<or> loop_count = 0 \<or> 64 < loop_count then Inl Bad_loop_count
             else Inr (unat loop_count))"

definition parseCacheConfig :: "string list \<Rightarrow> argument_error + cache_config" where
  "parseCacheConfig argv =
    (let cfg = default_config\<lparr>cache_mode := Disabled\<rparr>
     in if length argv < 6 then Inr cfg
        else if argv ! 5 = ''none'' then Inr (cfg\<lparr>cache_mode := Disabled\<rparr>)
        else if argv ! 5 = ''l1'' then Inr (cfg\<lparr>cache_mode := LocalOnly\<rparr>)
        else if argv ! 5 = ''l1-redis'' then Inr (cfg\<lparr>cache_mode := LocalAndRedis\<rparr>)
        else Inl Bad_cache_mode)"

definition parseLatencyMetricsEnabled :: "string list \<Rightarrow> argument_error + bool" where
  "parseLatencyMetricsEnabled argv =
    (if length argv < 7 then Inr False
     else if argv ! 6 = ''off'' then Inr False
     else if argv ! 6 = ''on'' then Inr True
     else Inl Bad_latency_metrics)"

section \<open>The task of a request\<close>

record response_result =
  result_response :: string
  result_close :: bool

text \<open>The task that the request handler submits to the pool: the marks at the readings \<open>t1\<close> and \<open>t2\<close> of
  the clock, the result it completes with, and the caches afterwards. An exception of the application is
  answered 500 and leaves the caches as they were, because it is raised when a thread's cache cannot be
  made.\<close>

definition request_task ::
    "('s :: linorder) fp_ops \<Rightarrow> (string list \<Rightarrow> string list) \<Rightarrow> search_application \<Rightarrow> cache_env \<Rightarrow> request_latency \<Rightarrow>
      time_point \<Rightarrow> time_point \<Rightarrow> string \<Rightarrow> request_timing option \<Rightarrow> cache_world \<Rightarrow>
      request_timing option \<times> response_result \<times> cache_world" where
  "request_task fp order app env latency t1 t2 request timing w =
    (let timing1 = markWorkerStarted t1 timing; timing2 = markWorkerFinished t2 timing1
     in case parseRequest request of
          Some parsed \<Rightarrow>
            if request_method parsed = ''GET'' \<and> request_path parsed = ''/metrics'' then
              let cl = shouldCloseConnection parsed
              in (timing2, \<lparr>result_response = okJson (snapshotJson latency) cl, result_close = cl\<rparr>, w)
            else
              (case handleRequest fp order app env request w of
                 Inr (r, w') \<Rightarrow> (timing2, \<lparr>result_response = response_bytes r, result_close = close_after_response r\<rparr>, w')
               | Inl e \<Rightarrow> (timing2, \<lparr>result_response = internalServerError True, result_close = True\<rparr>, w))
        | None \<Rightarrow>
            (case handleRequest fp order app env request w of
               Inr (r, w') \<Rightarrow> (timing2, \<lparr>result_response = response_bytes r, result_close = close_after_response r\<rparr>, w')
             | Inl e \<Rightarrow> (timing2, \<lparr>result_response = internalServerError True, result_close = True\<rparr>, w)))"

section \<open>Accepting\<close>

datatype accept_result = Accept_fd int bool | Accept_would_block | Accept_failed

datatype 'l accept_effect = Queue_connection 'l int | Close_client int | Accept_error | Dropped int

text \<open>The read callback of the listening channel: a client whose descriptor cannot be made non-blocking
  is closed, every other one goes to the next loop. An exception of \<open>nextLoop\<close> would end the callback.\<close>

fun accept_clients :: "accept_result list \<Rightarrow> 'l loop_group \<Rightarrow> 'l accept_effect list \<times> 'l loop_group" where
  "accept_clients [] g = ([], g)"
| "accept_clients (Accept_would_block # rs) g = ([], g)"
| "accept_clients (Accept_failed # rs) g = ([Accept_error], g)"
| "accept_clients (Accept_fd n nonblocking # rs) g =
     (if \<not> nonblocking then (case accept_clients rs g of (es, g') \<Rightarrow> (Close_client n # es, g'))
      else case nextLoop g of
        Inl e \<Rightarrow> ([Dropped n], g)
      | Inr (l, g1) \<Rightarrow> (case accept_clients rs g1 of (es, g') \<Rightarrow> (Queue_connection l n # es, g')))"

text \<open>The error callback of the listening channel, up to the wake-up of \<open>quit\<close>.\<close>

definition listen_error :: "bool \<Rightarrow> int \<Rightarrow> 'c event_loop \<Rightarrow> 'c loop_result" where
  "listen_error refused listen_fd l =
    (case removeChannel refused listen_fd l of (Some e, l') \<Rightarrow> (Some e, l') | (None, l') \<Rightarrow> (None, wakeup (quit l')))"

lemma listen_error_ends_accepting:
  assumes "loop_channels l listen_fd \<noteq> None" and "loop_interest l listen_fd \<noteq> None"
  shows "\<exists>l'. listen_error False listen_fd l = (None, l') \<and> quit_flag l' \<and> loop_interest l' listen_fd = None \<and>
    loop_channels l' listen_fd = None \<and> eventfd_counter l' \<noteq> 0"
  using assms wakeup_counts [of "quit (snd (removeChannel False listen_fd l))"]
  by (auto simp: listen_error_def loop_defs quit_def wakeup_def)

section \<open>The program\<close>

datatype program_event =
  Socket_calls "socket_call list" | Serving int nat nat bool | Fatal

text \<open>What \<open>main\<close> gets from outside: the outcome of the constructor of the application for a cache
  configuration, of the socket calls, and whether serving ends with an exception.\<close>

record program_env =
  application_ok :: "string \<Rightarrow> cache_config \<Rightarrow> bool"
  listen_env :: socket_env
  serving_raises :: bool

definition main :: "(int \<Rightarrow> int) \<Rightarrow> program_env \<Rightarrow> string list \<Rightarrow> int \<times> program_event list" where
  "main overflow env argv =
    (case parsePort overflow argv of
       Inl e \<Rightarrow> (1, [Fatal])
     | Inr port_number \<Rightarrow>
    (case parseCacheConfig argv of
       Inl e \<Rightarrow> (1, [Fatal])
     | Inr cfg \<Rightarrow>
         if \<not> application_ok env (parseDocumentsRoot argv) cfg then (1, [Fatal])
         else
    (case createListenSocket (listen_env env) port_number 128 of
       (Inl e, calls) \<Rightarrow> (1, [Socket_calls calls, Fatal])
     | (Inr listen_fd, calls) \<Rightarrow>
         (case (parseWorkerCount argv, parseIoLoopCount argv, parseLatencyMetricsEnabled argv) of
            (Inr worker_count, Inr loop_count, Inr latency) \<Rightarrow>
              if serving_raises env then (1, [Socket_calls calls, Serving listen_fd worker_count loop_count latency, Fatal])
              else (0, [Socket_calls calls, Serving listen_fd worker_count loop_count latency, Socket_calls (closeFd listen_fd)])
          | _ \<Rightarrow> (1, [Socket_calls calls, Fatal])))))"

section \<open>The older server\<close>

definition extractPath :: "string \<Rightarrow> string" where
  "extractPath request =
    (if \<not> prefix ''GET '' request then ''/''
     else let path_begin = 4
          in case find_from '' '' request path_begin of
               None \<Rightarrow> ''/''
             | Some path_end \<Rightarrow> substr request path_begin (path_end - path_begin))"

definition route :: "string \<Rightarrow> string" where
  \<open>route path =
    (if path = ''/'' then okText (''Hello CppSearchServer'' @ [newline_char]) False
     else if prefix ''/search?'' path then
       okJson (''{"message":"search endpoint is reserved for week 5","query":"'' @ drop 8 path @ ''"}'' @ [newline_char]) False
     else notFound False)\<close>

text \<open>The bytes that \<open>writeAll\<close> puts on the connection, for the results of its calls of \<open>send\<close>.\<close>

fun writeAll :: "int list \<Rightarrow> string \<Rightarrow> string" where
  "writeAll [] unsent = []"
| "writeAll (n # ns) unsent =
     (if unsent = [] then [] else if n \<le> 0 then [] else take (nat n) unsent @ writeAll ns (drop (nat n) unsent))"

text \<open>What \<open>recv\<close> put into the buffer of 4095 bytes (\<open>None\<close> for an error or the end), and the results of
  \<open>send\<close>; the bytes written.\<close>

definition handleClient :: "string option \<Rightarrow> int list \<Rightarrow> string" where
  "handleClient received sends =
    (case received of None \<Rightarrow> [] | Some request \<Rightarrow> writeAll sends (route (extractPath request)))"

datatype blocking_effect = Blocking_accept_error | Wrote int string | Blocking_closed int

text \<open>The loop of \<open>serveForever\<close> over the results of \<open>accept\<close>: \<open>None\<close> for an error, or a client with what
  its socket does.\<close>

fun serveForever :: "(int \<times> string option \<times> int list) option list \<Rightarrow> blocking_effect list" where
  "serveForever [] = []"
| "serveForever (None # cs) = Blocking_accept_error # serveForever cs"
| "serveForever (Some (client_fd, received, sends) # cs) =
     Wrote client_fd (handleClient received sends) # map (\<lambda>c. case c of Socket_closed n \<Rightarrow> Blocking_closed n | _ \<Rightarrow> Blocking_accept_error) (closeFd client_fd) @ serveForever cs"

section \<open>The parts of the server\<close>

datatype serve_error =
  Listen_not_nonblocking | Accept_loop_failed loop_exception | Group_failed group_error | Pool_failed pool_error
| Listen_channel_failed loop_exception

record 't server =
  accept_loop :: "string event_loop"
  io_loops :: "nat loop_group"
  worker_pool :: "'t pool"
  metrics :: request_latency

text \<open>What the kernel gives while the server is put together: whether the listening socket becomes
  non-blocking, the epoll instance and the eventfd of the accept loop, which calls of \<open>epoll_ctl\<close> it
  refuses, and the outcome of each thread (loops are numbered).\<close>

record serve_env =
  listen_flags :: "u32 option"
  set_flags_ok :: bool
  accept_epoll :: epoller
  accept_eventfd :: int
  wakeup_refused :: bool
  listen_refused :: bool
  thread_outcomes :: "nat option list"

definition serveWithEventLoop :: "serve_env \<Rightarrow> int \<Rightarrow> nat \<Rightarrow> nat \<Rightarrow> bool \<Rightarrow> serve_error + 't server" where
  "serveWithEventLoop env listen_fd worker_count io_loop_count latency_metrics_enabled =
    (if fst (setNonBlocking (listen_flags env) (set_flags_ok env)) < 0 then Inl Listen_not_nonblocking
     else case EventLoop (accept_epoll env) (wakeup_refused env) (accept_eventfd env) of
       (Some e, l) \<Rightarrow> Inl (Accept_loop_failed e)
     | (None, l) \<Rightarrow>
    (case EventLoopGroup io_loop_count of
       Inl e \<Rightarrow> Inl (Group_failed e)
     | Inr g \<Rightarrow>
    (case start (thread_outcomes env) g of
       (Some e, g1) \<Rightarrow> Inl (Group_failed e)
     | (None, g1) \<Rightarrow>
    (case WorkerPool worker_count of
       Inl e \<Rightarrow> Inl (Pool_failed e)
     | Inr p \<Rightarrow>
    (case addChannel (listen_refused env) (enableReading (new_channel listen_fd)) (Handler ''listen'') l of
       (Some e, l1) \<Rightarrow> Inl (Listen_channel_failed e)
     | (None, l1) \<Rightarrow>
         Inr \<lparr>accept_loop = l1, io_loops = g1, worker_pool = p, metrics = RequestLatency latency_metrics_enabled\<rparr>)))))"

section \<open>Arguments: properties\<close>








section \<open>The task of a request: properties\<close>

lemma handleRequest_framed:
  "handleRequest fp order app env request w = Inr (resp, w2) \<Longrightarrow>
    \<exists>status. framed (response_bytes resp) rest status (close_after_response resp)"
  using framed_responses
  by (auto simp: handleRequest_def Let_def split: option.splits if_splits sum.splits) (metis framed_responses)+

lemma request_task_framed:
  assumes "request_task fp order app env latency t1 t2 request timing w = (timing', r, w')"
  shows "\<exists>status. framed (result_response r) rest status (result_close r)"
proof -
  have "framed (internalServerError True) rest ''500 Internal Server Error'' True"
    by (simp add: internalServerError_def text_plain_def framed_response)
  moreover have "framed (okJson body cl) rest ''200 OK'' cl" for body cl by (rule framed_responses)
  ultimately show ?thesis using assms handleRequest_framed [of fp order app env request w]
    by (auto simp: request_task_def Let_def split: option.splits if_splits sum.splits) blast+
qed

text \<open>C23: Every request that a worker takes is answered, whatever its bytes and whatever the caches and
  Redis do: the task ends with one result, correctly framed, whose \<open>Connection\<close> header agrees with the
  close flag, and with both marks made. \<open>GET /metrics\<close> gets the snapshot of the counters and leaves the
  caches alone; any other request gets the application's response; and an exception of the application
  becomes a 500 that closes the connection.\<close>

theorem worker_answers_every_request:
  assumes "request_task fp order app env latency t1 t2 request timing w = (timing', r, w')"
  shows "timing' = markWorkerFinished t2 (markWorkerStarted t1 timing) \<and>
    (\<exists>status. framed (result_response r) rest status (result_close r)) \<and>
    (\<forall>parsed. parseRequest request = Some parsed \<longrightarrow> request_method parsed = ''GET'' \<longrightarrow> request_path parsed = ''/metrics'' \<longrightarrow>
      result_response r = okJson (snapshotJson latency) (shouldCloseConnection parsed) \<and> w' = w) \<and>
    ((\<nexists>parsed. parseRequest request = Some parsed \<and> request_method parsed = ''GET'' \<and> request_path parsed = ''/metrics'') \<longrightarrow>
      (case handleRequest fp order app env request w of
         Inr (resp, w2) \<Rightarrow> result_response r = response_bytes resp \<and> result_close r = close_after_response resp \<and> w' = w2
       | Inl e \<Rightarrow> result_response r = internalServerError True \<and> result_close r))"
proof -
  have "\<exists>status. framed (result_response r) rest status (result_close r)" by (rule request_task_framed [OF assms])
  then show ?thesis
    using assms by (auto simp: request_task_def Let_def split: option.splits if_splits sum.splits)
qed

lemma worker_answers_every_request_witness:
  "result_response (fst (snd (request_task int_ops remdups sample_app (env_down 1) (RequestLatency True) 1 2
      (render_request (search_x\<lparr>request_path := ''/metrics''\<rparr>)) None fresh_world))) =
    okJson (snapshotJson (RequestLatency True)) False"
proof -
  define req where "req = search_x\<lparr>request_path := ''/metrics''\<rparr>"
  have wf: "request_wf req" "shouldCloseConnection req = False" "request_method req = ''GET''" "request_path req = ''/metrics''"
    unfolding req_def by code_simp+
  have parse: "parseRequest (render_request req) = Some req" using parseRequest_render [OF wf(1), of "[]"] by simp
  obtain timing' r w' where task: "request_task int_ops remdups sample_app (env_down 1) (RequestLatency True) 1 2
      (render_request req) None fresh_world = (timing', r, w')" by (rule prod_cases3)
  from worker_answers_every_request [OF task, of "[]"] parse wf show ?thesis unfolding req_def [symmetric] task by simp
qed

section \<open>Accepting: properties\<close>

text \<open>The clients that the callback gets before \<open>accept\<close> would block or fails.\<close>

fun clients :: "accept_result list \<Rightarrow> (int \<times> bool) list" where
  "clients (Accept_fd n ok # rs) = (n, ok) # clients rs"
| "clients rs = []"

fun client_of :: "'l accept_effect \<Rightarrow> (int \<times> 'l option) list" where
  "client_of (Queue_connection l n) = [(n, Some l)]"
| "client_of (Close_client n) = [(n, None)]"
| "client_of e = []"

fun assigned :: "'l list \<Rightarrow> nat \<Rightarrow> (int \<times> bool) list \<Rightarrow> (int \<times> 'l option) list" where
  "assigned ls i [] = []"
| "assigned ls i ((n, ok) # cs) =
     (if ok then (n, Some (ls ! (i mod length ls))) # assigned ls (Suc i) cs else (n, None) # assigned ls i cs)"

lemma assigned_mod: "assigned ls (i mod length ls) cs = assigned ls i cs"
proof (induction cs arbitrary: i)
  case (Cons c cs)
  have "assigned ls (Suc (i mod length ls)) cs = assigned ls (Suc i) cs"
    using Cons.IH [of "Suc (i mod length ls)"] Cons.IH [of "Suc i"] by (simp add: mod_Suc_eq)
  then show ?case by (cases c) (simp add: Cons.IH)
qed simp

lemma accept_clients_assigned:
  assumes "group_started g" and "next_index g < length (loops g)"
  shows "concat (map client_of (fst (accept_clients rs g))) = assigned (loops g) (next_index g) (clients rs) \<and>
    (\<forall>n. Dropped n \<notin> set (fst (accept_clients rs g)))"
  using assms
proof (induction rs g rule: accept_clients.induct)
  case (4 n ok rs g)
  show ?case
  proof (cases ok)
    case False
    with 4 show ?thesis by (auto split: prod.splits)
  next
    case True
    define g1 where "g1 = g\<lparr>next_index := (next_index g + 1) mod length (loops g)\<rparr>"
    have next_loop: "nextLoop g = Inr (loops g ! next_index g, g1)"
      using nextLoop_index [OF "4.prems"] by (simp add: g1_def)
    have "0 < length (loops g)" using "4.prems"(2) by linarith
    then have "group_started g1" "next_index g1 < length (loops g1)" using "4.prems" by (simp_all add: g1_def)
    from "4.IH"(2) [OF _ next_loop refl this] True
    have "concat (map client_of (fst (accept_clients rs g1))) = assigned (loops g1) (next_index g1) (clients rs)"
      "\<forall>n. Dropped n \<notin> set (fst (accept_clients rs g1))" by simp_all
    then show ?thesis
      using True next_loop "4.prems"(2) by (auto simp: g1_def assigned_mod split: prod.splits)
  qed
qed auto

text \<open>Every accepted client is taken care of: for every sequence of results of \<open>accept\<close>, the clients
  taken before it would block or fails are, in order, each closed at once if the descriptor cannot be made
  non-blocking, and otherwise queued on exactly one loop, the loops in turn; none is dropped.\<close>

theorem accepted_clients_are_assigned:
  assumes "EventLoopGroup n = Inr g0" and "length ls = n" and "start (map Some ls) g0 = (None, g)"
  shows "concat (map client_of (fst (accept_clients rs g))) = assigned ls 0 (clients rs) \<and>
    (\<forall>m. Dropped m \<notin> set (fst (accept_clients rs g)))"
proof -
  have g0: "0 < n" "g0 = \<lparr>threads = replicate n EventLoopThread, loops = [], next_index = 0, group_started = False\<rparr>"
    using assms(1) by (auto simp: EventLoopGroup_def split: if_splits)
  have "start_threads (map Some ls) (replicate n EventLoopThread) =
      (None, map (\<lambda>t. t\<lparr>started := True, owner := Claimed\<rparr>) (replicate n EventLoopThread), ls)"
    using assms(2) by (intro start_threads_fresh) (auto simp: EventLoopThread_def)
  then have g: "loops g = ls" "next_index g = 0" "group_started g"
    using assms(3) by (auto simp: start_def g0 Let_def)
  then show ?thesis using accept_clients_assigned [of g rs] g0(1) assms(2) by simp
qed

lemma accepted_clients_are_assigned_witness:
  "concat (map client_of (fst (accept_clients [Accept_fd 9 True, Accept_fd 10 False, Accept_fd 11 True, Accept_failed]
      (snd (start (map Some ''ab'') (projr (EventLoopGroup 2))))))) =
    [(9, Some (CHR ''a'')), (10, None), (11, Some (CHR ''b''))]"
proof -
  have "EventLoopGroup 2 = Inr (projr (EventLoopGroup 2) :: char loop_group)" by (simp add: EventLoopGroup_def)
  moreover have "start (map Some ''ab'') (projr (EventLoopGroup 2)) =
      (None, snd (start (map Some ''ab'') (projr (EventLoopGroup 2))))" by (rule prod_eqI, code_simp, simp)
  ultimately have "concat (map client_of (fst (accept_clients [Accept_fd 9 True, Accept_fd 10 False, Accept_fd 11 True, Accept_failed]
      (snd (start (map Some ''ab'') (projr (EventLoopGroup 2))))))) =
      assigned ''ab'' 0 (clients [Accept_fd 9 True, Accept_fd 10 False, Accept_fd 11 True, Accept_failed])"
    by (intro accepted_clients_are_assigned [of 2, THEN conjunct1]) simp_all
  then show ?thesis by simp
qed

section \<open>Putting the server together\<close>

text \<open>With counts that the arguments allow, and a kernel that refuses nothing, the server comes up: all
  loops handed out in turn, the pool with its workers, and the listening socket watched for reading.\<close>

lemma server_comes_up:
  assumes "parseWorkerCount argv = Inr w" and "parseIoLoopCount argv = Inr m"
    and "listen_flags env = Some f" and "set_flags_ok env" and "Epoller created k = Inr ep" and "accept_epoll env = ep"
    and "0 \<le> accept_eventfd env" and "\<not> wakeup_refused env" and "\<not> listen_refused env"
    and "thread_outcomes env = map Some ls" and "length ls = m" and "listen_fd \<noteq> accept_eventfd env"
  shows "\<exists>s :: unit server. serveWithEventLoop env listen_fd w m on = Inr s \<and> length (workers (worker_pool s)) = w \<and>
    group_started (io_loops s) \<and> loops (io_loops s) = ls \<and>
    loop_interest (accept_loop s) listen_fd = Some EPOLLIN \<and> enabled (metrics s) = on"
proof -
  have w: "w \<noteq> 0" using assms(1)
    by (auto simp: parseWorkerCount_def unat_gt_0 Suc_le_eq unat_eq_0 split: if_splits prod.splits)
  have m: "m \<noteq> 0" using assms(2)
    by (auto simp: parseIoLoopCount_def unat_gt_0 Suc_le_eq unat_eq_0 split: if_splits prod.splits)
  have "start_threads (map Some ls) (replicate m EventLoopThread) =
      (None, map (\<lambda>t. t\<lparr>started := True, owner := Claimed\<rparr>) (replicate m EventLoopThread), ls)"
    using assms(11) by (intro start_threads_fresh) (auto simp: EventLoopThread_def)
  moreover have "interest ep = Map.empty" using assms(5) by (auto simp: Epoller_def split: if_splits)
  then have "interest (accept_epoll env) = Map.empty" using assms(6) by simp
  ultimately show ?thesis
    using assms(3-4,7-10,12) w m
    by (simp add: serveWithEventLoop_def setNonBlocking_def EventLoop_def loop_defs EventLoopGroup_def start_def WorkerPool_def
        RequestLatency_def enableReading_def new_channel_def)
qed

section \<open>Observations\<close>

text \<open>\<open>strtoul\<close> takes a minus sign, and \<open>atoi\<close> stops at the first character that is no digit.\<close>

lemma negative_worker_count:
  "parseWorkerCount [''server'', ''80'', ''docs'', ''-18446744073709551615''] = Inr 1"
  by (simp add: parseWorkerCount_def strtoul_def scan_number_def decimal_def digit_value_def isspace_def is_digit_char_def)

lemma port_with_rest: "parsePort overflow [''server'', ''80abc''] = Inr 80"
  by code_simp

text \<open>A bad worker count is found after the listening socket was opened, which is then not closed.\<close>

lemma listen_socket_left_open:
  assumes "main overflow env argv = (status, evs)" and "parseWorkerCount argv = Inl e" and "Socket_calls calls \<in> set evs"
    and "fst (createListenSocket (listen_env env) p 128) = Inr n"
  shows "status = 1 \<and> (\<forall>m. Socket_closed m \<notin> set calls)"
  using assms by (auto simp: main_def createListenSocket_def Let_def split: sum.splits if_splits prod.splits)

text \<open>The older server: \<open>writeAll\<close> sends a prefix, all of it if no call fails and the calls suffice.\<close>

lemma prefix_append_take: "prefix xs (drop k ys) \<Longrightarrow> prefix (take k ys @ xs) ys"
  by (metis append_take_drop_id same_prefix_prefix)

lemma writeAll_prefix: "prefix (writeAll ns data) data"
proof (induction ns data rule: writeAll.induct)
  case (2 n ns unsent)
  then show ?case
    by (cases "unsent = [] \<or> n \<le> 0") (auto simp: same_prefix_prefix dest: prefix_append_take)
qed simp

lemma writeAll_all: "\<forall>n \<in> set ns. 0 < n \<Longrightarrow> length data \<le> length ns \<Longrightarrow> writeAll ns data = data"
proof (induction ns data rule: writeAll.induct)
  case (2 n ns unsent)
  then have "length (drop (nat n) unsent) \<le> length ns" by (cases "nat n") auto
  with 2 show ?case by auto
qed auto

lemma serveForever_closes:
  assumes "\<forall>c \<in> set cs. \<forall>n r ss. c = Some (n, r, ss) \<longrightarrow> 0 \<le> n"
  shows "filter (\<lambda>e. \<exists>n. e = Blocking_closed n) (serveForever cs) =
    map (\<lambda>c. Blocking_closed (fst (the c))) (filter (\<lambda>c. c \<noteq> None) cs)"
  using assms by (induction cs rule: serveForever.induct) (auto simp: closeFd_def)

text \<open>The query goes into the JSON text as it is.\<close>

lemma route_does_not_escape:
  \<open>route (''/search?'' @ q) =
    okJson (''{"message":"search endpoint is reserved for week 5","query":"'' @ q @ ''"}'' @ [newline_char]) False\<close>
  by (simp add: route_def)

end
