(* ===== verification/Buffer.thy ===== *)
theory Buffer
  imports Prelude
begin

text \<open>
  \<open>src/net/Buffer.h\<close>, \<open>src/net/Buffer.cpp\<close>: the byte buffers of a connection. A connection relies
  on the buffer being a queue of bytes; that is the interface \<open>byte_queue\<close>.
\<close>

section \<open>Model\<close>

record buffer =
  data :: string

definition new_buffer :: buffer where
  "new_buffer = \<lparr>data = []\<rparr>"

definition readableBytes :: "buffer \<Rightarrow> nat" where
  "readableBytes b = length (data b)"

definition buffer_empty :: "buffer \<Rightarrow> bool" where
  "buffer_empty b = (data b = [])"

definition peek :: "buffer \<Rightarrow> string" where
  "peek b = data b"

definition append_data :: "string \<Rightarrow> buffer \<Rightarrow> buffer" where
  "append_data d b = b\<lparr>data := data b @ d\<rparr>"

definition retrieve :: "nat \<Rightarrow> buffer \<Rightarrow> buffer" where
  "retrieve len b = (let consumed = min len (length (data b)) in b\<lparr>data := drop consumed (data b)\<rparr>)"

definition retrieveAll :: "buffer \<Rightarrow> buffer" where
  "retrieveAll b = b\<lparr>data := []\<rparr>"

lemma peek_simps [simp]:
  "peek new_buffer = []" "peek (append_data d b) = peek b @ d" "peek (retrieve n b) = drop n (peek b)"
  "peek (retrieveAll b) = []"
  by (auto simp: peek_def new_buffer_def append_data_def retrieve_def retrieveAll_def Let_def min_def)

lemma buffer_empty_peek [simp]: "buffer_empty b \<longleftrightarrow> peek b = []"
  by (simp add: buffer_empty_def peek_def)

lemma readableBytes_peek [simp]: "readableBytes b = length (peek b)"
  by (simp add: readableBytes_def peek_def)

section \<open>The interface\<close>

datatype buffer_op = Append string | Retrieve nat

locale byte_queue =
  fixes empty :: 'b and contents :: "'b \<Rightarrow> string" and append :: "string \<Rightarrow> 'b \<Rightarrow> 'b" and consume :: "nat \<Rightarrow> 'b \<Rightarrow> 'b"
  assumes contents_empty: "contents empty = []"
    and contents_append: "contents (append d b) = contents b @ d"
    and contents_consume: "contents (consume n b) = drop n (contents b)"
begin

fun run :: "buffer_op list \<Rightarrow> 'b \<Rightarrow> string \<times> 'b" where
  "run [] b = ([], b)"
| "run (Append d # ops) b = run ops (append d b)"
| "run (Retrieve n # ops) b = (let (out, b') = run ops (consume n b) in (take n (contents b) @ out, b'))"

fun appended :: "buffer_op list \<Rightarrow> string" where
  "appended [] = []"
| "appended (Append d # ops) = d @ appended ops"
| "appended (Retrieve n # ops) = appended ops"

lemma run_conserves: "run ops b = (out, b') \<Longrightarrow> out @ contents b' = contents b @ appended ops"
proof (induction ops b arbitrary: out rule: run.induct)
  case (3 n ops b)
  obtain out1 where "run ops (consume n b) = (out1, b')" "out = take n (contents b) @ out1"
    using "3.prems" by (auto split: prod.splits)
  with "3.IH" [of out1] show ?case by (simp add: contents_consume)
qed (auto simp: contents_append)

end

interpretation buffer: byte_queue new_buffer peek append_data retrieve
  by unfold_locales simp_all

text \<open>A buffer loses, duplicates and reorders nothing: whatever the sequence of appends and
  retrieves, also retrieves of more than there is, the bytes taken out followed by the bytes still
  inside are the bytes put in.\<close>

theorem buffer_conserves_bytes:
  "case buffer.run ops new_buffer of (out, b) \<Rightarrow> out @ peek b = buffer.appended ops"
  using buffer.run_conserves [of ops new_buffer] by (cases "buffer.run ops new_buffer") simp

end
