(* ===== verification/TcpConnection.thy ===== *)
theory TcpConnection
  imports Buffer Channel
begin

text \<open>
  \<open>src/net/TcpConnection.h\<close>, \<open>src/net/TcpConnection.cpp\<close>: one client connection, a state machine
  driven by its loop. What the kernel answers to \<open>recv\<close> and \<open>send\<close> is a script of results that
  each handler consumes (an exhausted script means that the call would block), clock readings are
  arguments, and everything the connection does to the outside goes to a log. The channel is the one
  given to \<open>establish\<close>; from then on \<open>channel_.lock()\<close> succeeds in every handler that uses it, because
  the loop holds the channel while it is registered and \<open>dispatch\<close> holds it while its handlers run. Registering, updating and removing it act on the epoll
  instance: an update of a channel that is not registered fails and raises.
\<close>

section \<open>State\<close>

datatype recv_result = Recv_data string | Recv_eof | Recv_interrupted | Recv_again | Recv_failed

datatype send_result = Send_bytes nat | Send_interrupted | Send_again | Send_failed

datatype loop_error = Epoll_ctl_failed

datatype mark = Mark_queued | Mark_returned_to_io | Mark_write_started | Mark_complete

datatype tcp_effect =
  Add_channel int u32
| Update_channel int u32
| Remove_channel int
| Close_fd int
| Activity time_point
| Run_at time_point u64
| Received string
| Submit u64 string
| Accepted u64 string
| Sent string
| Timing mark u64

record tcp_connection =
  fd :: int
  conn_channel :: channel
  channel_alive :: bool
  registered :: bool
  input_buffer :: buffer
  output_buffer :: buffer
  response_ready :: bool
  close_after :: bool
  peer_closed :: bool
  idle_timeout :: int
  last_activity_at :: time_point
  idle_generation :: u64
  processing_request :: bool
  request_generation :: u64
  latency_enabled :: bool
  active_request_timing :: "u64 option"
  pending_timers :: "(time_point \<times> u64) list"
  tcp_log :: "tcp_effect list"

definition emit :: "tcp_effect list \<Rightarrow> tcp_connection \<Rightarrow> tcp_connection" where
  "emit es c = c\<lparr>tcp_log := tcp_log c @ es\<rparr>"

definition TcpConnection :: "int \<Rightarrow> int \<Rightarrow> bool \<Rightarrow> tcp_connection" where
  "TcpConnection n timeout lat =
    \<lparr>fd = n, conn_channel = new_channel n, channel_alive = False, registered = False, input_buffer = new_buffer,
     output_buffer = new_buffer, response_ready = False, close_after = False, peer_closed = False,
     idle_timeout = timeout, last_activity_at = 0, idle_generation = 0, processing_request = False,
     request_generation = 0, latency_enabled = lat, active_request_timing = None,
     pending_timers = [], tcp_log = []\<rparr>"

section \<open>Calls on the loop\<close>

definition loop_addChannel :: "tcp_connection \<Rightarrow> tcp_connection" where
  "loop_addChannel c = emit [Add_channel (fd c) (channel_events (conn_channel c))] (c\<lparr>registered := True\<rparr>)"

definition loop_updateChannel :: "tcp_connection \<Rightarrow> loop_error + tcp_connection" where
  "loop_updateChannel c =
    (if registered c then
       Inr (emit [Update_channel (channel_fd (conn_channel c)) (channel_events (conn_channel c))] c)
     else Inl Epoll_ctl_failed)"

definition loop_removeChannel :: "tcp_connection \<Rightarrow> tcp_connection" where
  "loop_removeChannel c =
    (if registered c then emit [Remove_channel (fd c)] (c\<lparr>registered := False\<rparr>) else c)"

section \<open>Operations\<close>

definition close :: "tcp_connection \<Rightarrow> tcp_connection" where
  "close c = (if fd c < 0 then c else (emit [Close_fd (fd c)] (loop_removeChannel c))\<lparr>fd := - 1\<rparr>)"

text \<open>\<open>channel_.lock()\<close>, the change of interest, and the update of the loop.\<close>

definition update_interest :: "(channel \<Rightarrow> channel) \<Rightarrow> tcp_connection \<Rightarrow> loop_error + tcp_connection" where
  "update_interest f c =
    (if \<not> channel_alive c then Inr c
     else loop_updateChannel (c\<lparr>conn_channel := f (conn_channel c)\<rparr>))"

definition conn_enableWriting :: "tcp_connection \<Rightarrow> loop_error + tcp_connection" where
  "conn_enableWriting c = update_interest enableWriting c"

definition conn_disableWriting :: "tcp_connection \<Rightarrow> loop_error + tcp_connection" where
  "conn_disableWriting c = update_interest disableWriting c"

definition markActivity :: "time_point \<Rightarrow> tcp_connection \<Rightarrow> tcp_connection" where
  "markActivity now c =
    emit [Activity now] (c\<lparr>last_activity_at := now, idle_generation := idle_generation c + 1\<rparr>)"

definition scheduleIdleCheck :: "time_point \<Rightarrow> tcp_connection \<Rightarrow> tcp_connection" where
  "scheduleIdleCheck expires_at c =
    emit [Run_at expires_at (idle_generation c)]
      (c\<lparr>pending_timers := pending_timers c @ [(expires_at, idle_generation c)]\<rparr>)"

definition establish :: "time_point \<Rightarrow> tcp_connection \<Rightarrow> tcp_connection" where
  "establish now c =
    (let c1 = loop_addChannel (c\<lparr>channel_alive := True, conn_channel := enableReading (conn_channel c)\<rparr>);
         c2 = markActivity now c1
     in scheduleIdleCheck (last_activity_at c2 + idle_timeout c2) c2)"

definition blank_line :: string where
  "blank_line = [CHR 0x0D, CHR 0x0A, CHR 0x0D, CHR 0x0A]"

definition hasCompleteRequest :: "tcp_connection \<Rightarrow> bool" where
  "hasCompleteRequest c \<longleftrightarrow> find_sub blank_line (peek (input_buffer c)) \<noteq> None"

definition isIdle :: "tcp_connection \<Rightarrow> bool" where
  "isIdle c \<longleftrightarrow> buffer_empty (input_buffer c) \<and> buffer_empty (output_buffer c) \<and>
     \<not> response_ready c \<and> \<not> processing_request c"

text \<open>The request handler gets the request, the timing object (its identity is the number of the
  request) and the callback that will queue \<open>finishRequest\<close> with that number.\<close>

definition processRequest :: "tcp_connection \<Rightarrow> tcp_connection" where
  "processRequest c =
    (let input = peek (input_buffer c);
         request_end = the (find_sub blank_line input) + 4;
         request = take request_end input;
         request_id = request_generation c + 1
     in emit ((if latency_enabled c then [Timing Mark_queued request_id] else []) @ [Submit request_id request])
          (c\<lparr>input_buffer := retrieve request_end (input_buffer c),
             processing_request := True, request_generation := request_id\<rparr>))"

text \<open>The receive loop: whether it ended without an error, and whether it got data.\<close>

fun recv_loop :: "recv_result list \<Rightarrow> bool \<Rightarrow> tcp_connection \<Rightarrow> bool \<times> bool \<times> tcp_connection" where
  "recv_loop [] received_data c = (True, received_data, c)"
| "recv_loop (Recv_data d # rs) received_data c =
     recv_loop rs True (emit [Received d] (c\<lparr>input_buffer := append_data d (input_buffer c)\<rparr>))"
| "recv_loop (Recv_eof # rs) received_data c = (True, received_data, c\<lparr>peer_closed := True\<rparr>)"
| "recv_loop (Recv_interrupted # rs) received_data c = recv_loop rs received_data c"
| "recv_loop (Recv_again # rs) received_data c = (True, received_data, c)"
| "recv_loop (Recv_failed # rs) received_data c = (False, received_data, c)"

definition handleRead :: "recv_result list \<Rightarrow> time_point \<Rightarrow> tcp_connection \<Rightarrow> tcp_connection" where
  "handleRead rs now c =
    (let (ok, received_data, c1) = recv_loop (if fd c < 0 then [Recv_failed] else rs) False c
     in if \<not> ok then close c1
        else
          let c2 = (if received_data then markActivity now c1 else c1)
          in if \<not> response_ready c2 \<and> \<not> processing_request c2 \<and> hasCompleteRequest c2 then processRequest c2
             else if peer_closed c2 \<and> \<not> response_ready c2 \<and> \<not> processing_request c2 then close c2
             else c2)"

datatype send_end = Drained | Blocked | Broken

definition sent_some :: "nat \<Rightarrow> tcp_connection \<Rightarrow> tcp_connection" where
  "sent_some n c =
    emit ((case active_request_timing c of None \<Rightarrow> [] | Some t \<Rightarrow> [Timing Mark_write_started t])
          @ [Sent (take n (peek (output_buffer c)))])
      (c\<lparr>output_buffer := retrieve n (output_buffer c)\<rparr>)"

text \<open>The inner send loop. A result of no bytes is an error, as in the code.\<close>

fun send_loop :: "send_result list \<Rightarrow> bool \<Rightarrow> tcp_connection \<Rightarrow> send_end \<times> bool \<times> tcp_connection" where
  "send_loop [] sent_data c = (if buffer_empty (output_buffer c) then Drained else Blocked, sent_data, c)"
| "send_loop (s # ss) sent_data c =
     (if buffer_empty (output_buffer c) then (Drained, sent_data, c)
      else (case s of
              Send_bytes n \<Rightarrow> if 0 < n then send_loop ss True (sent_some n c) else (Broken, sent_data, c)
            | Send_interrupted \<Rightarrow> send_loop ss sent_data c
            | Send_again \<Rightarrow> (Blocked, sent_data, c)
            | Send_failed \<Rightarrow> (Broken, sent_data, c)))"

definition response_done :: "tcp_connection \<Rightarrow> tcp_connection" where
  "response_done c =
    (emit (case active_request_timing c of None \<Rightarrow> [] | Some t \<Rightarrow> [Timing Mark_complete t]) c)
      \<lparr>active_request_timing := None, response_ready := False\<rparr>"

definition handleWrite :: "send_result list \<Rightarrow> time_point \<Rightarrow> tcp_connection \<Rightarrow> loop_error + tcp_connection" where
  "handleWrite ss now c =
    (case send_loop (if fd c < 0 then [Send_failed] else ss) False c of
       (Blocked, sent_data, c1) \<Rightarrow> conn_enableWriting (if sent_data then markActivity now c1 else c1)
     | (Broken, sent_data, c1) \<Rightarrow> Inr (close c1)
     | (Drained, sent_data, c1) \<Rightarrow>
         (case conn_disableWriting c1 of
            Inl e \<Rightarrow> Inl e
          | Inr c2 \<Rightarrow>
              let c3 = response_done c2
              in if close_after c3 then Inr (close c3)
                 else if \<not> processing_request c3 \<and> hasCompleteRequest c3 then Inr (processRequest c3)
                 else if peer_closed c3 then Inr (close c3)
                 else Inr (if sent_data then markActivity now c3 else c3)))"

definition handleError :: "tcp_connection \<Rightarrow> tcp_connection" where
  "handleError c = close c"

definition closeIfIdle :: "u64 \<Rightarrow> time_point \<Rightarrow> tcp_connection \<Rightarrow> tcp_connection" where
  "closeIfIdle expected_generation now c =
    (if fd c < 0 then c
     else if expected_generation \<noteq> idle_generation c then
       scheduleIdleCheck (last_activity_at c + idle_timeout c) c
     else if \<not> isIdle c then scheduleIdleCheck (now + idle_timeout c) c
     else close c)"

definition finishRequest ::
    "u64 \<Rightarrow> string \<Rightarrow> bool \<Rightarrow> send_result list \<Rightarrow> time_point \<Rightarrow> tcp_connection \<Rightarrow> loop_error + tcp_connection" where
  "finishRequest request_id response close_flag ss now c =
    (if fd c < 0 then Inr c
     else if \<not> processing_request c then Inr c
     else if request_id \<noteq> request_generation c then Inr c
     else
       let timing = (if latency_enabled c then Some request_id else None);
           c1 = emit ((case timing of None \<Rightarrow> [] | Some t \<Rightarrow> [Timing Mark_returned_to_io t])
                      @ [Accepted request_id response]) c
       in handleWrite ss now
            (c1\<lparr>processing_request := False, active_request_timing := timing,
                output_buffer := append_data response (output_buffer c1),
                close_after := close_flag, response_ready := True\<rparr>))"

section \<open>The events of a connection\<close>

datatype tcp_event =
  Dispatch u32 "recv_result list" "send_result list" time_point time_point
| Finish u64 string bool "send_result list" time_point
| Timer time_point u64 time_point

text \<open>The callbacks that \<open>establish\<close> sets, on a state that may have raised.\<close>

definition conn_callbacks ::
    "recv_result list \<Rightarrow> send_result list \<Rightarrow> time_point \<Rightarrow> time_point \<Rightarrow> (loop_error + tcp_connection) callbacks" where
  "conn_callbacks rs ss now1 now2 =
    setErrorCallback (Some (map_sum id handleError))
      (setWriteCallback (Some (\<lambda>s. case s of Inl e \<Rightarrow> Inl e | Inr c \<Rightarrow> handleWrite ss now2 c))
        (setReadCallback (Some (map_sum id (handleRead rs now1))) no_callbacks))"

fun tcp_step :: "tcp_event \<Rightarrow> tcp_connection \<Rightarrow> loop_error + tcp_connection" where
  "tcp_step (Dispatch revents rs ss now1 now2) c = handleEvent (conn_callbacks rs ss now1 now2) revents (Inr c)"
| "tcp_step (Finish request_id response close_flag ss now) c = finishRequest request_id response close_flag ss now c"
| "tcp_step (Timer d g now) c = Inr (closeIfIdle g now (c\<lparr>pending_timers := remove1 (d, g) (pending_timers c)\<rparr>))"

text \<open>
  When an event can happen: epoll reports a registered descriptor, readable or writable only where
  that was asked for; a timer fires at its deadline or later; the steady clock does not go back. A
  result may arrive at any time, with any number.
\<close>

fun tcp_enabled :: "tcp_event \<Rightarrow> tcp_connection \<Rightarrow> bool" where
  "tcp_enabled (Dispatch revents rs ss now1 now2) c \<longleftrightarrow>
     registered c \<and> (bit revents 0 \<longrightarrow> wants_read (conn_channel c)) \<and>
     (bit revents 2 \<longrightarrow> wants_write (conn_channel c)) \<and> last_activity_at c \<le> now1 \<and> now1 \<le> now2"
| "tcp_enabled (Finish request_id response close_flag ss now) c \<longleftrightarrow> last_activity_at c \<le> now"
| "tcp_enabled (Timer d g now) c \<longleftrightarrow> (d, g) \<in> set (pending_timers c) \<and> d \<le> now \<and> last_activity_at c \<le> now"

inductive tcp_steps :: "tcp_connection \<Rightarrow> tcp_event list \<Rightarrow> tcp_connection \<Rightarrow> bool" where
  start: "tcp_steps c [] c"
| step: "tcp_steps c evs c1 \<Longrightarrow> tcp_enabled ev c1 \<Longrightarrow> tcp_step ev c1 = Inr c2 \<Longrightarrow> tcp_steps c (evs @ [ev]) c2"

section \<open>Control\<close>

text \<open>What holds between any two calls: a connection is registered as long as its descriptor is open,
  it never computes and answers at once, bytes wait only for a response that is ready, and write
  interest is on only while bytes wait.\<close>

definition conn_base :: "tcp_connection \<Rightarrow> bool" where
  "conn_base c \<longleftrightarrow>
     (registered c \<longleftrightarrow> 0 \<le> fd c) \<and> (registered c \<longrightarrow> channel_alive c \<and> wants_read (conn_channel c)) \<and>
     \<not> (processing_request c \<and> response_ready c) \<and>
     (peek (output_buffer c) \<noteq> [] \<longrightarrow> response_ready c) \<and>
     (wants_write (conn_channel c) \<longrightarrow> peek (output_buffer c) \<noteq> [])"

text \<open>Between events, moreover: a response that is ready is waiting for write readiness, and a
  connection that neither computes nor answers has no complete request left and an open peer.\<close>

definition conn_ctl :: "tcp_connection \<Rightarrow> bool" where
  "conn_ctl c \<longleftrightarrow> conn_base c \<and>
     (registered c \<and> response_ready c \<longrightarrow> peek (output_buffer c) \<noteq> [] \<and> wants_write (conn_channel c)) \<and>
     (registered c \<and> \<not> processing_request c \<and> \<not> response_ready c \<longrightarrow> \<not> hasCompleteRequest c \<and> \<not> peer_closed c)"

lemma conn_ctl_base: "conn_ctl c \<Longrightarrow> conn_base c"
  by (simp add: conn_ctl_def)

lemma emit_simps [simp]:
  "fd (emit es c) = fd c" "channel_alive (emit es c) = channel_alive c" "conn_channel (emit es c) = conn_channel c" "registered (emit es c) = registered c"
  "input_buffer (emit es c) = input_buffer c" "output_buffer (emit es c) = output_buffer c"
  "response_ready (emit es c) = response_ready c" "close_after (emit es c) = close_after c"
  "peer_closed (emit es c) = peer_closed c" "idle_timeout (emit es c) = idle_timeout c"
  "last_activity_at (emit es c) = last_activity_at c" "idle_generation (emit es c) = idle_generation c"
  "processing_request (emit es c) = processing_request c" "request_generation (emit es c) = request_generation c"
  "latency_enabled (emit es c) = latency_enabled c" "active_request_timing (emit es c) = active_request_timing c"
  "pending_timers (emit es c) = pending_timers c" "tcp_log (emit es c) = tcp_log c @ es"
  "hasCompleteRequest (emit es c) = hasCompleteRequest c"
  by (simp_all add: emit_def hasCompleteRequest_def)

lemma recv_loop_frame:
  "recv_loop rs r c = (ok, r', c1) \<Longrightarrow>
    \<exists>ib pc lg. c1 = c\<lparr>input_buffer := ib, peer_closed := pc, tcp_log := lg\<rparr>"
proof (induction rs r c rule: recv_loop.induct)
  case (1 r c)
  then have "c1 = c\<lparr>input_buffer := input_buffer c, peer_closed := peer_closed c, tcp_log := tcp_log c\<rparr>" by simp
  then show ?case by blast
next
  case (2 d rs r c)
  from "2.IH" [OF "2.prems" [simplified recv_loop.simps]] show ?case by (auto simp: emit_def)
next
  case (3 rs r c)
  then have "c1 = c\<lparr>input_buffer := input_buffer c, peer_closed := True, tcp_log := tcp_log c\<rparr>" by auto
  then show ?case by blast
next
  case (4 rs r c)
  then show ?case by simp
next
  case (5 rs r c)
  then have "c1 = c\<lparr>input_buffer := input_buffer c, peer_closed := peer_closed c, tcp_log := tcp_log c\<rparr>" by simp
  then show ?case by blast
next
  case (6 rs r c)
  then have "c1 = c\<lparr>input_buffer := input_buffer c, peer_closed := peer_closed c, tcp_log := tcp_log c\<rparr>" by simp
  then show ?case by blast
qed

lemma output_self: "\<exists>ob lg. c = c\<lparr>output_buffer := ob, tcp_log := lg\<rparr>"
  by (intro exI [of _ "output_buffer c"] exI [of _ "tcp_log c"]) simp

lemma send_loop_frame:
  "send_loop ss s c = (e, s', c1) \<Longrightarrow>
    (\<exists>ob lg. c1 = c\<lparr>output_buffer := ob, tcp_log := lg\<rparr>) \<and> (e = Drained \<longleftrightarrow> peek (output_buffer c1) = []) \<and>
    (e \<noteq> Drained \<longrightarrow> peek (output_buffer c) \<noteq> [])"
proof (induction ss arbitrary: s c)
  case Nil
  have self: "\<exists>ob lg. c = c\<lparr>output_buffer := ob, tcp_log := lg\<rparr>" by (rule output_self)
  with Nil show ?case by (auto split: if_splits)
next
  case (Cons x ss)
  have self: "\<exists>ob lg. c = c\<lparr>output_buffer := ob, tcp_log := lg\<rparr>" by (rule output_self)
  show ?case
  proof (cases x)
    case (Send_bytes n)
    show ?thesis
    proof (cases "buffer_empty (output_buffer c) \<or> n = 0")
      case True
      with Cons.prems Send_bytes self show ?thesis by (auto split: if_splits)
    next
      case False
      then have "send_loop ss True (sent_some n c) = (e, s', c1)" using Cons.prems Send_bytes by simp
      from Cons.IH [OF this] show ?thesis by (auto simp: sent_some_def emit_def)
    qed
  qed (use Cons self in \<open>auto split: if_splits\<close>)
qed

lemma close_simps [simp]:
  "conn_channel (close c) = conn_channel c" "input_buffer (close c) = input_buffer c"
  "output_buffer (close c) = output_buffer c" "response_ready (close c) = response_ready c"
  "processing_request (close c) = processing_request c" "peer_closed (close c) = peer_closed c"
  "last_activity_at (close c) = last_activity_at c" "idle_generation (close c) = idle_generation c"
  "request_generation (close c) = request_generation c" "pending_timers (close c) = pending_timers c"
  "idle_timeout (close c) = idle_timeout c" "latency_enabled (close c) = latency_enabled c"
  "active_request_timing (close c) = active_request_timing c"
  "fd (close c) < 0"
  by (simp_all add: close_def loop_removeChannel_def)

lemma close_registered: "conn_base c \<Longrightarrow> registered (close c) = False"
  by (simp add: close_def loop_removeChannel_def conn_base_def)

lemma conn_ctl_close: "conn_base c \<Longrightarrow> conn_ctl (close c)"
  using close_registered [of c] close_simps(14) [of c] unfolding conn_ctl_def
  by (auto simp: conn_base_def hasCompleteRequest_def not_le)

lemma markActivity_simps [simp]:
  "fd (markActivity now c) = fd c" "channel_alive (markActivity now c) = channel_alive c" "conn_channel (markActivity now c) = conn_channel c"
  "registered (markActivity now c) = registered c" "input_buffer (markActivity now c) = input_buffer c"
  "output_buffer (markActivity now c) = output_buffer c" "response_ready (markActivity now c) = response_ready c"
  "processing_request (markActivity now c) = processing_request c" "peer_closed (markActivity now c) = peer_closed c"
  "request_generation (markActivity now c) = request_generation c" "pending_timers (markActivity now c) = pending_timers c"
  "idle_timeout (markActivity now c) = idle_timeout c" "last_activity_at (markActivity now c) = now"
  "idle_generation (markActivity now c) = idle_generation c + 1" "close_after (markActivity now c) = close_after c"
  "tcp_log (markActivity now c) = tcp_log c @ [Activity now]" "latency_enabled (markActivity now c) = latency_enabled c"
  "active_request_timing (markActivity now c) = active_request_timing c"
  by (simp_all add: markActivity_def)

lemma markActivity_ctl [simp]:
  "conn_base (markActivity now c) = conn_base c" "conn_ctl (markActivity now c) = conn_ctl c"
  "hasCompleteRequest (markActivity now c) = hasCompleteRequest c"
  by (auto simp: markActivity_def conn_base_def conn_ctl_def hasCompleteRequest_def)

lemma processRequest_ctl:
  "conn_base c \<Longrightarrow> \<not> response_ready c \<Longrightarrow> conn_ctl (processRequest c)"
  by (auto simp: processRequest_def Let_def conn_base_def conn_ctl_def)

lemma handleRead_ctl:
  assumes "conn_ctl c" and "registered c"
  shows "conn_ctl (handleRead rs now c)"
proof -
  obtain ok r c1 where loop: "recv_loop rs False c = (ok, r, c1)" by (rule prod_cases3)
  have fd: "\<not> fd c < 0" using assms by (simp add: conn_ctl_def conn_base_def)
  have c1: "conn_base c1" "registered c1 \<and> response_ready c1 \<longrightarrow> peek (output_buffer c1) \<noteq> [] \<and> wants_write (conn_channel c1)"
    using recv_loop_frame [OF loop] assms(1) by (auto simp: conn_ctl_def conn_base_def)
  define c2 where "c2 = (if r then markActivity now c1 else c1)"
  have c2: "conn_base c2" "registered c2 \<and> response_ready c2 \<longrightarrow> peek (output_buffer c2) \<noteq> [] \<and> wants_write (conn_channel c2)"
    using c1 by (auto simp: c2_def)
  have eq: "handleRead rs now c = (if \<not> ok then close c1
      else if \<not> response_ready c2 \<and> \<not> processing_request c2 \<and> hasCompleteRequest c2 then processRequest c2
      else if peer_closed c2 \<and> \<not> response_ready c2 \<and> \<not> processing_request c2 then close c2 else c2)"
    using loop fd by (simp add: handleRead_def Let_def c2_def)
  moreover have "conn_ctl c2" if "\<not> (\<not> response_ready c2 \<and> \<not> processing_request c2 \<and> hasCompleteRequest c2)"
    "\<not> (peer_closed c2 \<and> \<not> response_ready c2 \<and> \<not> processing_request c2)"
    unfolding conn_ctl_def using c2 that by blast
  moreover have "conn_ctl (close c1)" "conn_ctl (close c2)" by (rule conn_ctl_close [OF c1(1)], rule conn_ctl_close [OF c2(1)])
  moreover have "\<not> response_ready c2 \<Longrightarrow> conn_ctl (processRequest c2)" by (rule processRequest_ctl [OF c2(1)])
  ultimately show ?thesis unfolding eq by (simp only: split: if_split) blast
qed

lemma handleWrite_registered:
  assumes "conn_base c" and "registered c"
  shows "\<exists>c'. handleWrite ss now c = Inr c' \<and> conn_ctl c'"
proof -
  obtain e s c1 where loop: "send_loop ss False c = (e, s, c1)" by (rule prod_cases3)
  have fd: "\<not> fd c < 0" using assms by (simp add: conn_base_def)
  note frame = send_loop_frame [OF loop]
  show ?thesis
  proof (cases e)
    case Blocked
    then obtain ob lg where c1: "c1 = c\<lparr>output_buffer := ob, tcp_log := lg\<rparr>" using frame by blast
    have out: "peek (output_buffer c1) \<noteq> []" "peek (output_buffer c) \<noteq> []" using frame Blocked by blast+
    define c2 where "c2 = (if s then markActivity now c1 else c1)"
    have c2: "registered c2" "conn_base c2" "peek (output_buffer c2) \<noteq> []"
      using c1 out assms by (auto simp: c2_def conn_base_def)
    then have "\<not> processing_request c2" "response_ready c2" "0 \<le> fd c2" "channel_alive c2" "wants_read (conn_channel c2)"
      unfolding conn_base_def by blast+
    note alive = this(4)
    from \<open>\<not> processing_request c2\<close> \<open>response_ready c2\<close> \<open>0 \<le> fd c2\<close> \<open>channel_alive c2\<close> \<open>wants_read (conn_channel c2)\<close> c2
    have "conn_ctl (emit es (c2\<lparr>conn_channel := enableWriting (conn_channel c2)\<rparr>))" for es
      by (simp add: conn_ctl_def conn_base_def)
    then show ?thesis
      using loop fd Blocked c2(1) alive by (simp add: handleWrite_def conn_enableWriting_def update_interest_def loop_updateChannel_def c2_def)
  next
    case Broken
    have "conn_base c1" using frame assms Broken by (auto simp: conn_base_def)
    with Broken fd loop show ?thesis by (simp add: handleWrite_def conn_ctl_close)
  next
    case Drained
    then obtain ob lg where c1: "c1 = c\<lparr>output_buffer := ob, tcp_log := lg\<rparr>" using frame by blast
    with frame Drained have ob: "peek ob = []" by simp
    have alive: "channel_alive c" using assms unfolding conn_base_def by blast
    define c3 where "c3 = response_done (emit [Update_channel (channel_fd (conn_channel c1))
        (channel_events (disableWriting (conn_channel c1)))] (c1\<lparr>conn_channel := disableWriting (conn_channel c1)\<rparr>))"
    have c3: "conn_base c3" "\<not> response_ready c3"
      using c1 ob assms by (auto simp: c3_def response_done_def conn_base_def)
    have "handleWrite ss now c = Inr (if close_after c3 then close c3
        else if \<not> processing_request c3 \<and> hasCompleteRequest c3 then processRequest c3
        else if peer_closed c3 then close c3 else if s then markActivity now c3 else c3)"
      using loop fd Drained c1 assms(2) alive
      by (simp add: handleWrite_def conn_disableWriting_def update_interest_def loop_updateChannel_def c3_def Let_def)
    moreover have "conn_ctl (if close_after c3 then close c3
        else if \<not> processing_request c3 \<and> hasCompleteRequest c3 then processRequest c3
        else if peer_closed c3 then close c3 else if s then markActivity now c3 else c3)"
    proof -
      have "conn_ctl c3" if "\<not> (\<not> processing_request c3 \<and> hasCompleteRequest c3)" "\<not> peer_closed c3"
        unfolding conn_ctl_def using c3 that by blast
      then show ?thesis
        using conn_ctl_close [OF c3(1)] processRequest_ctl [OF c3] by simp
    qed
    ultimately show ?thesis by blast
  qed
qed

text \<open>After the read handler has closed the connection, the write handler of the same dispatch finds
  waiting bytes, fails to send them and does nothing.\<close>

lemma handleWrite_closed:
  assumes "fd c < 0" and "peek (output_buffer c) \<noteq> []"
  shows "handleWrite ss now c = Inr c"
  using assms by (simp add: handleWrite_def close_def)

lemma handleRead_output: "output_buffer (handleRead rs now c) = output_buffer c"
proof -
  obtain ok r c1 where loop: "recv_loop (if fd c < 0 then [Recv_failed] else rs) False c = (ok, r, c1)"
    by (rule prod_cases3)
  have "output_buffer c1 = output_buffer c" using recv_loop_frame [OF loop] by auto
  with loop show ?thesis by (simp add: handleRead_def Let_def processRequest_def)
qed

lemma tcp_step_Dispatch:
  "tcp_step (Dispatch revents rs ss now1 now2) c =
    (if bit revents 3 \<or> bit revents 4 then Inr (close c)
     else let c1 = (if bit revents 0 then handleRead rs now1 c else c)
          in if bit revents 2 then handleWrite ss now2 c1 else Inr c1)"
  by (simp add: handleEvent_def and_error_bits in_out_bits conn_callbacks_def invoke_def handleError_def Let_def
      del: epoll_bits)

declare tcp_step.simps(1) [simp del]

lemma dispatch_ctl:
  assumes "conn_ctl c" and "tcp_enabled (Dispatch revents rs ss now1 now2) c"
  shows "\<exists>c'. tcp_step (Dispatch revents rs ss now1 now2) c = Inr c' \<and> conn_ctl c'"
proof (cases "bit revents 3 \<or> bit revents 4")
  case True
  then show ?thesis using assms(1) by (simp add: tcp_step_Dispatch conn_ctl_close conn_ctl_base)
next
  case False
  define c1 where "c1 = (if bit revents 0 then handleRead rs now1 c else c)"
  have "registered c" using assms(2) by simp
  then have c1: "conn_ctl c1" "output_buffer c1 = output_buffer c"
    using assms(1) handleRead_ctl [OF assms(1)] by (simp_all add: c1_def handleRead_output)
  have step: "tcp_step (Dispatch revents rs ss now1 now2) c = (if bit revents 2 then handleWrite ss now2 c1 else Inr c1)"
    using False by (simp add: tcp_step_Dispatch c1_def)
  show ?thesis
  proof (cases "bit revents 2")
    case True
    then have out: "peek (output_buffer c1) \<noteq> []" 
      using assms c1(2) conn_ctl_base [OF assms(1)] unfolding conn_base_def by (metis tcp_enabled.simps(1))
    show ?thesis
    proof (cases "registered c1")
      case True
      with step \<open>bit revents 2\<close> handleWrite_registered [OF conn_ctl_base [OF c1(1)]] show ?thesis by simp
    next
      case False
      then have "fd c1 < 0" using c1(1) by (auto simp: conn_ctl_def conn_base_def)
      with step \<open>bit revents 2\<close> out c1(1) show ?thesis by (simp add: handleWrite_closed)
    qed
  qed (use step c1 in simp)
qed

lemma finish_ctl:
  assumes "conn_ctl c"
  shows "\<exists>c'. finishRequest i r cl ss now c = Inr c' \<and> conn_ctl c'"
proof (cases "fd c < 0 \<or> \<not> processing_request c \<or> i \<noteq> request_generation c")
  case True
  with assms show ?thesis by (auto simp: finishRequest_def)
next
  case False
  let ?t = "if latency_enabled c then Some i else None"
  let ?c1 = "emit ((case ?t of None \<Rightarrow> [] | Some t \<Rightarrow> [Timing Mark_returned_to_io t]) @ [Accepted i r]) c"
  let ?c2 = "?c1\<lparr>processing_request := False, active_request_timing := ?t,
      output_buffer := append_data r (output_buffer ?c1), close_after := cl, response_ready := True\<rparr>"
  have "conn_base ?c2" "registered ?c2" using False assms by (auto simp: conn_ctl_def conn_base_def)
  from handleWrite_registered [OF this, of ss now] False show ?thesis
    by (cases "latency_enabled c") (simp_all add: finishRequest_def Let_def)
qed

lemma timers_irrelevant [simp]:
  "conn_ctl (c\<lparr>pending_timers := ts\<rparr>) = conn_ctl c" "conn_base (c\<lparr>pending_timers := ts\<rparr>) = conn_base c"
  by (simp_all add: conn_ctl_def conn_base_def hasCompleteRequest_def)

lemma schedule_ctl [simp]: "conn_ctl (scheduleIdleCheck d c) = conn_ctl c"
  by (simp add: scheduleIdleCheck_def conn_ctl_def conn_base_def hasCompleteRequest_def)

lemma timer_ctl:
  assumes "conn_ctl c"
  shows "conn_ctl (closeIfIdle g now (c\<lparr>pending_timers := ts\<rparr>))"
  using assms conn_ctl_close [of "c\<lparr>pending_timers := ts\<rparr>"] by (simp add: closeIfIdle_def conn_ctl_base)

lemma tcp_step_ctl:
  assumes "conn_ctl c" and "tcp_enabled ev c"
  shows "\<exists>c'. tcp_step ev c = Inr c' \<and> conn_ctl c'"
proof (cases ev)
  case (Dispatch revents rs ss now1 now2)
  with dispatch_ctl assms show ?thesis by blast
next
  case (Finish i r cl ss now)
  with finish_ctl [OF assms(1)] show ?thesis by simp
next
  case (Timer d g now)
  with timer_ctl [OF assms(1)] show ?thesis by simp
qed

lemma establish_ctl: "0 \<le> n \<Longrightarrow> conn_ctl (establish now (TcpConnection n timeout lat))"
  by (simp add: establish_def Let_def scheduleIdleCheck_def markActivity_def loop_addChannel_def TcpConnection_def
      conn_ctl_def conn_base_def hasCompleteRequest_def blank_line_def)

lemma tcp_steps_ctl: "tcp_steps c evs c' \<Longrightarrow> conn_ctl c \<Longrightarrow> conn_ctl c'"
proof (induction rule: tcp_steps.induct)
  case (step c evs c1 ev c2)
  then show ?case using tcp_step_ctl [of c1 ev] by auto
qed

text \<open>C10: The connection state machine is safe in every reachable state, for every interleaving of
  readiness events, results (also late, repeated and wrongly numbered ones), timers, partial reads and
  writes and network errors: no event makes the loop raise, so no epoll update reaches a closed or
  unregistered descriptor; the connection is registered exactly while its descriptor is open; it never
  computes one request while it answers another; bytes wait to be sent only for a ready response, and
  then write interest is on; and a connection at rest has no complete request left unserved and a peer
  that has not closed.\<close>

theorem connection_is_safe:
  assumes "0 \<le> n" and "tcp_steps (establish t0 (TcpConnection n timeout lat)) evs c" and "tcp_enabled ev c"
  shows "(\<exists>c'. tcp_step ev c = Inr c') \<and> (registered c \<longleftrightarrow> 0 \<le> fd c) \<and>
    \<not> (processing_request c \<and> response_ready c) \<and>
    (registered c \<longrightarrow> (response_ready c \<longleftrightarrow> peek (output_buffer c) \<noteq> []) \<and>
      (response_ready c \<longleftrightarrow> wants_write (conn_channel c)) \<and> wants_read (conn_channel c)) \<and>
    (registered c \<and> \<not> processing_request c \<and> \<not> response_ready c \<longrightarrow>
      \<not> hasCompleteRequest c \<and> \<not> peer_closed c)"
proof -
  have ctl: "conn_ctl c" using tcp_steps_ctl [OF assms(2) establish_ctl [OF assms(1)]] .
  then show ?thesis
    using tcp_step_ctl [OF ctl assms(3)] unfolding conn_ctl_def conn_base_def by blast
qed

end
