(* ===== verification/TcpStreams.thy ===== *)
theory TcpStreams
  imports TcpConnection
begin

text \<open>
  The byte streams of a connection (\<open>src/net/TcpConnection.cpp\<close>): requests are cut from the input in
  order and handled one at a time, responses are sent in order, and no byte is lost or duplicated.
\<close>

section \<open>Streams\<close>

text \<open>What the log says of the byte streams: the bytes received and sent, the requests handed to the
  handler and the responses accepted from it.\<close>

definition received_bytes :: "tcp_effect list \<Rightarrow> string" where
  "received_bytes es = concat (map (\<lambda>e. case e of Received d \<Rightarrow> d | _ \<Rightarrow> []) es)"

definition sent_bytes :: "tcp_effect list \<Rightarrow> string" where
  "sent_bytes es = concat (map (\<lambda>e. case e of Sent d \<Rightarrow> d | _ \<Rightarrow> []) es)"

definition submitted :: "tcp_effect list \<Rightarrow> (u64 \<times> string) list" where
  "submitted es = concat (map (\<lambda>e. case e of Submit i r \<Rightarrow> [(i, r)] | _ \<Rightarrow> []) es)"

definition accepted :: "tcp_effect list \<Rightarrow> (u64 \<times> string) list" where
  "accepted es = concat (map (\<lambda>e. case e of Accepted i r \<Rightarrow> [(i, r)] | _ \<Rightarrow> []) es)"

lemmas log_defs = received_bytes_def sent_bytes_def submitted_def accepted_def

lemma log_append [simp]:
  "received_bytes (a @ b) = received_bytes a @ received_bytes b" "sent_bytes (a @ b) = sent_bytes a @ sent_bytes b"
  "submitted (a @ b) = submitted a @ submitted b" "accepted (a @ b) = accepted a @ accepted b"
  by (simp_all add: log_defs)

lemma length_blank_line [simp]: "length blank_line = 4"
  by (simp add: blank_line_def)

text \<open>A complete request: it ends at its first blank line.\<close>

definition one_request :: "string \<Rightarrow> bool" where
  "one_request r \<longleftrightarrow> 4 \<le> length r \<and> find_sub blank_line r = Some (length r - 4)"

definition ids_from_1 :: "nat \<Rightarrow> u64 list" where
  "ids_from_1 n = map word_of_nat [1..<Suc n]"

lemma ids_from_1_Suc: "ids_from_1 (Suc n) = ids_from_1 n @ [word_of_nat n + 1]"
  by (simp add: ids_from_1_def add.commute)

text \<open>The part of the state that the streams depend on.\<close>

definition stream_inv :: "tcp_effect list \<Rightarrow> string \<Rightarrow> string \<Rightarrow> u64 \<Rightarrow> bool \<Rightarrow> bool" where
  "stream_inv lg input output gen busy \<longleftrightarrow>
     received_bytes lg = concat (map snd (submitted lg)) @ input \<and>
     concat (map snd (accepted lg)) = sent_bytes lg @ output \<and>
     map fst (submitted lg) = ids_from_1 (length (submitted lg)) \<and>
     gen = word_of_nat (length (submitted lg)) \<and>
     map fst (accepted lg) = ids_from_1 (length (submitted lg) - (if busy then 1 else 0)) \<and>
     (busy \<longrightarrow> submitted lg \<noteq> []) \<and>
     list_all (one_request \<circ> snd) (submitted lg)"

definition conn_stream :: "tcp_connection \<Rightarrow> bool" where
  "conn_stream c \<longleftrightarrow> stream_inv (tcp_log c) (peek (input_buffer c)) (peek (output_buffer c))
     (request_generation c) (processing_request c)"

definition silent :: "tcp_effect list \<Rightarrow> bool" where
  "silent es \<longleftrightarrow> received_bytes es = [] \<and> sent_bytes es = [] \<and> submitted es = [] \<and> accepted es = []"

lemma stream_silent: "silent es \<Longrightarrow> stream_inv (lg @ es) i out g b = stream_inv lg i out g b"
  by (simp add: stream_inv_def silent_def)

lemma silent_simps [simp]:
  "silent []" "silent (Activity t # es) = silent es" "silent (Run_at t g # es) = silent es"
  "silent (Add_channel n w # es) = silent es" "silent (Update_channel n w # es) = silent es"
  "silent (Remove_channel n # es) = silent es" "silent (Close_fd n # es) = silent es"
  "silent (Timing m i # es) = silent es"
  by (simp_all add: silent_def log_defs)

lemma find_sub_take:
  "find_sub p s = Some i \<Longrightarrow> find_sub p (take (i + length p) s) = Some i"
proof (induction s arbitrary: i)
  case Nil
  then show ?case by (auto split: if_splits)
next
  case (Cons c cs)
  show ?case
  proof (cases "prefix p (c # cs)")
    case True
    with Cons.prems have i: "i = 0" by simp
    obtain r where "c # cs = p @ r" using True by (auto simp: prefix_def)
    then have "take (length p) (c # cs) = p" by simp
    with i show ?thesis by (cases p) simp_all
  next
    case False
    then obtain j where j: "i = Suc j" "find_sub p cs = Some j" using Cons.prems by auto
    have "\<not> prefix p (take (i + length p) (c # cs))" using False take_is_prefix prefix_order.trans by blast
    with j Cons.IH [OF j(2)] show ?thesis by simp
  qed
qed

definition timing_mark :: "mark \<Rightarrow> u64 option \<Rightarrow> tcp_effect list" where
  "timing_mark m t = (case t of None \<Rightarrow> [] | Some i \<Rightarrow> [Timing m i])"

lemma silent_timing_mark [simp]: "silent (timing_mark m t)"
  by (simp add: timing_mark_def split: option.split)

lemma stream_receive:
  "stream_inv lg i out g b \<Longrightarrow> stream_inv (lg @ [Received d]) (i @ d) out g b"
  by (simp add: stream_inv_def log_defs)

lemma stream_send:
  "stream_inv lg i out g b \<Longrightarrow> stream_inv (lg @ [Sent (take n out)]) i (drop n out) g b"
  by (simp add: stream_inv_def log_defs)

lemma stream_submit:
  assumes "stream_inv lg i out g False" and "find_sub blank_line i = Some k"
  shows "stream_inv (lg @ [Submit (g + 1) (take (k + 4) i)]) (drop (k + 4) i) out (g + 1) True"
proof -
  have "one_request (take (k + 4) i)"
    using find_sub_take [OF assms(2), unfolded length_blank_line] find_sub_bound [OF assms(2)]
    by (simp add: one_request_def)
  with assms(1) show ?thesis
    by (simp add: stream_inv_def log_defs ids_from_1_Suc add.commute)
qed

lemma stream_accept:
  assumes "stream_inv lg i out g True"
  shows "stream_inv (lg @ [Accepted g r]) i (out @ r) g False"
proof -
  obtain n where n: "length (submitted lg) = Suc n" using assms by (cases "submitted lg") (auto simp: stream_inv_def)
  with assms show ?thesis
    by (simp add: stream_inv_def ids_from_1_Suc) (simp add: log_defs add.commute)
qed

section \<open>The operations keep the streams\<close>

lemma conn_stream_close: "conn_stream c \<Longrightarrow> conn_stream (close c)"
  by (simp add: conn_stream_def close_def loop_removeChannel_def stream_silent)

lemma conn_stream_activity [simp]: "conn_stream (markActivity now c) = conn_stream c"
  by (simp add: conn_stream_def stream_silent)

lemma recv_loop_stream: "conn_stream c \<Longrightarrow> recv_loop rs r c = (ok, r', c1) \<Longrightarrow> conn_stream c1"
proof (induction rs r c rule: recv_loop.induct)
  case (2 d rs r c)
  have "conn_stream (emit [Received d] (c\<lparr>input_buffer := append_data d (input_buffer c)\<rparr>))"
    using stream_receive "2.prems"(1) by (simp add: conn_stream_def)
  from "2.IH" [OF this] "2.prems"(2) show ?case by simp
next
  case (3 rs r c)
  then show ?case by (auto simp: conn_stream_def)
qed auto

lemma sent_some_stream: "conn_stream c \<Longrightarrow> conn_stream (sent_some n c)"
  using stream_send [of "tcp_log c @ timing_mark Mark_write_started (active_request_timing c)"]
  by (simp add: conn_stream_def sent_some_def stream_silent timing_mark_def [symmetric])

lemma send_loop_stream: "conn_stream c \<Longrightarrow> send_loop ss s c = (e, s', c1) \<Longrightarrow> conn_stream c1"
proof (induction ss arbitrary: s c)
  case (Cons x ss)
  then show ?case using Cons.IH [of "sent_some _ c"] sent_some_stream [OF Cons.prems(1)]
    by (auto split: if_splits send_result.splits)
qed (auto split: if_splits)

lemma processRequest_stream:
  assumes "conn_stream c" and "\<not> processing_request c" and "hasCompleteRequest c"
  shows "conn_stream (processRequest c)"
proof -
  obtain k where k: "find_sub blank_line (peek (input_buffer c)) = Some k" using assms(3) by (auto simp: hasCompleteRequest_def)
  have "stream_inv (tcp_log c @ (if latency_enabled c then [Timing Mark_queued (request_generation c + 1)] else []))
      (peek (input_buffer c)) (peek (output_buffer c)) (request_generation c) False"
    using assms(1,2) by (simp add: conn_stream_def stream_silent)
  from stream_submit [OF this k] k show ?thesis
    by (simp add: conn_stream_def processRequest_def Let_def)
qed

lemma handleRead_stream: "conn_stream c \<Longrightarrow> conn_stream (handleRead rs now c)"
proof -
  assume c: "conn_stream c"
  obtain ok r c1 where loop: "recv_loop (if fd c < 0 then [Recv_failed] else rs) False c = (ok, r, c1)"
    by (rule prod_cases3)
  have c1: "conn_stream c1" using recv_loop_stream [OF c loop] .
  then show ?thesis using loop by (simp add: handleRead_def Let_def conn_stream_close processRequest_stream)
qed

lemma update_stream:
  "conn_stream c \<Longrightarrow> update_interest f c = Inr c' \<Longrightarrow> conn_stream c'"
  by (auto simp: update_interest_def loop_updateChannel_def conn_stream_def stream_silent split: if_splits)

lemma response_done_stream: "conn_stream c \<Longrightarrow> conn_stream (response_done c)"
  by (simp add: conn_stream_def response_done_def stream_silent split: option.split)

lemma handleWrite_stream: "conn_stream c \<Longrightarrow> handleWrite ss now c = Inr c' \<Longrightarrow> conn_stream c'"
proof -
  assume c: "conn_stream c" and w: "handleWrite ss now c = Inr c'"
  obtain e s c1 where loop: "send_loop (if fd c < 0 then [Send_failed] else ss) False c = (e, s, c1)"
    by (rule prod_cases3)
  have c1: "conn_stream c1" using send_loop_stream [OF c loop] .
  show ?thesis
  proof (cases e)
    case Drained
    then obtain c2 where c2: "conn_disableWriting c1 = Inr c2" using w loop by (auto simp: handleWrite_def split: sum.splits)
    have "conn_stream (response_done c2)"
      using update_stream [OF c1] c2 response_done_stream by (simp add: conn_disableWriting_def)
    with w loop Drained c2 show ?thesis
      by (auto simp: handleWrite_def Let_def conn_stream_close processRequest_stream split: if_splits)
  next
    case Blocked
    with w loop c1 show ?thesis
      using update_stream [of "if s then markActivity now c1 else c1"]
      by (auto simp: handleWrite_def conn_enableWriting_def)
  next
    case Broken
    with w loop c1 show ?thesis by (auto simp: handleWrite_def conn_stream_close)
  qed
qed

lemma finishRequest_stream:
  assumes "conn_stream c" and "finishRequest i r cl ss now c = Inr c'"
  shows "conn_stream c'"
proof (cases "fd c < 0 \<or> \<not> processing_request c \<or> i \<noteq> request_generation c")
  case True
  with assms show ?thesis by (auto simp: finishRequest_def split: if_splits)
next
  case False
  define ti where "ti = (if latency_enabled c then Some i else None)"
  define c2 where "c2 = (emit (timing_mark Mark_returned_to_io ti @ [Accepted i r]) c)\<lparr>processing_request := False,
      active_request_timing := ti, output_buffer := append_data r (output_buffer c), close_after := cl,
      response_ready := True\<rparr>"
  have "stream_inv (tcp_log c @ timing_mark Mark_returned_to_io ti) (peek (input_buffer c)) (peek (output_buffer c))
      (request_generation c) True"
    using assms(1) False by (simp add: conn_stream_def stream_silent)
  from stream_accept [OF this] have "conn_stream c2" using False by (simp add: conn_stream_def c2_def)
  moreover have "finishRequest i r cl ss now c = handleWrite ss now c2"
    using False by (simp add: finishRequest_def Let_def c2_def ti_def timing_mark_def)
  ultimately show ?thesis using assms(2) handleWrite_stream by simp
qed

lemma tcp_step_stream:
  assumes "conn_stream c" and "tcp_step ev c = Inr c'"
  shows "conn_stream c'"
proof (cases ev)
  case (Dispatch revents rs ss now1 now2)
  with assms show ?thesis
    by (auto simp: tcp_step_Dispatch Let_def conn_stream_close split: if_splits
        intro: handleWrite_stream handleRead_stream)
next
  case (Finish i r cl ss now)
  with assms finishRequest_stream show ?thesis by simp
next
  case (Timer d g now)
  have "conn_stream (c\<lparr>pending_timers := ts\<rparr>)" for ts using assms(1) by (simp add: conn_stream_def)
  moreover have "conn_stream (scheduleIdleCheck t c)" if "conn_stream c" for t c
    using that by (simp add: conn_stream_def scheduleIdleCheck_def stream_silent)
  ultimately show ?thesis using Timer assms(2) by (auto simp: closeIfIdle_def conn_stream_close)
qed

lemma establish_stream: "conn_stream (establish now (TcpConnection n timeout lat))"
  by (simp add: establish_def Let_def scheduleIdleCheck_def loop_addChannel_def TcpConnection_def conn_stream_def)
     (simp add: stream_inv_def log_defs ids_from_1_def)

lemma tcp_steps_stream: "tcp_steps c evs c' \<Longrightarrow> conn_stream c \<Longrightarrow> conn_stream c'"
  by (induction rule: tcp_steps.induct) (auto intro: tcp_step_stream)

text \<open>Nothing is lost, duplicated or reordered on a connection, whatever the sizes of partial reads
  and writes and the order of events. The bytes received are the requests handed to the handler, one
  after the other, followed by what is still in the input buffer, and each request is a complete one,
  cut at its first blank line; requests are numbered \<open>1, 2, 3, ...\<close> (as 64-bit numbers); a response
  is accepted only for the request being processed, so the accepted ones are for exactly the requests
  \<open>1\<close> to the last, or to the last but one while the last is being processed; and the bytes sent,
  followed by what is still in the output buffer, are those responses in the order of their requests.\<close>

theorem connection_streams:
  assumes "tcp_steps (establish t0 (TcpConnection n timeout lat)) evs c"
  shows "let reqs = submitted (tcp_log c); resps = accepted (tcp_log c); k = length reqs in
    received_bytes (tcp_log c) = concat (map snd reqs) @ peek (input_buffer c) \<and>
    list_all (one_request \<circ> snd) reqs \<and>
    map fst reqs = map word_of_nat [1..<Suc k] \<and>
    map fst resps = map word_of_nat [1..<Suc (k - (if processing_request c then 1 else 0))] \<and>
    concat (map snd resps) = sent_bytes (tcp_log c) @ peek (output_buffer c)"
  using tcp_steps_stream [OF assms establish_stream]
  by (simp add: conn_stream_def stream_inv_def ids_from_1_def Let_def del: upt_Suc)

section \<open>Closing\<close>

definition open_log :: "int \<Rightarrow> tcp_connection \<Rightarrow> bool" where
  "open_log n c \<longleftrightarrow> fd c = n \<and> (\<forall>k. Close_fd k \<notin> set (tcp_log c))"

definition closed_log :: "int \<Rightarrow> tcp_connection \<Rightarrow> bool" where
  "closed_log n c \<longleftrightarrow> fd c < 0 \<and> (\<exists>before. tcp_log c = before @ [Remove_channel n, Close_fd n] \<and> (\<forall>k. Close_fd k \<notin> set before))"

lemma closed_log_close: "open_log n c \<Longrightarrow> 0 \<le> n \<Longrightarrow> registered c \<Longrightarrow> closed_log n (close c)"
  by (simp add: open_log_def closed_log_def close_def loop_removeChannel_def)

lemma open_log_simps [simp]:
  "open_log n (markActivity now c) = open_log n c" "open_log n (scheduleIdleCheck t c) = open_log n c"
  "open_log n (processRequest c) = open_log n c" "open_log n (response_done c) = open_log n c"
  "open_log n (sent_some k c) = open_log n c"
  by (auto simp: open_log_def scheduleIdleCheck_def processRequest_def response_done_def sent_some_def Let_def
      split: option.split)

lemma recv_loop_open: "open_log n c \<Longrightarrow> recv_loop rs r c = (ok, r', c1) \<Longrightarrow> open_log n c1"
  by (induction rs r c rule: recv_loop.induct) (auto simp: open_log_def)

lemma send_loop_open: "open_log n c \<Longrightarrow> send_loop ss s c = (e, s', c1) \<Longrightarrow> open_log n c1"
proof (induction ss arbitrary: s c)
  case (Cons x ss)
  then show ?case using Cons.IH [of "sent_some _ c"] by (auto split: if_splits send_result.splits)
qed (auto split: if_splits)

lemma handleRead_log:
  assumes "open_log n c" and "0 \<le> n" and "registered c"
  shows "open_log n (handleRead rs now c) \<or> closed_log n (handleRead rs now c)"
proof -
  obtain ok r c1 where loop: "recv_loop rs False c = (ok, r, c1)" by (rule prod_cases3)
  have "open_log n c1" "registered c1" using recv_loop_open [OF assms(1) loop] recv_loop_frame [OF loop] assms(3) by auto
  with loop assms show ?thesis by (auto simp: handleRead_def Let_def open_log_def [of n c] intro: closed_log_close)
qed

lemma update_log:
  "open_log n c \<Longrightarrow> registered c \<Longrightarrow> update_interest f c = Inr c' \<Longrightarrow> open_log n c' \<and> registered c'"
  by (auto simp: update_interest_def loop_updateChannel_def open_log_def split: if_splits)

lemma handleWrite_log:
  assumes "open_log n c" and "0 \<le> n" and "registered c" and w: "handleWrite ss now c = Inr c'"
  shows "open_log n c' \<or> closed_log n c'"
proof -
  obtain e s c1 where loop: "send_loop ss False c = (e, s, c1)" by (rule prod_cases3)
  have fd: "\<not> fd c < 0" using assms by (simp add: open_log_def)
  have c1: "open_log n c1" "registered c1" using send_loop_open [OF assms(1) loop] send_loop_frame [OF loop] assms(3) by auto
  show ?thesis
  proof (cases e)
    case Drained
    then obtain c2 where c2: "conn_disableWriting c1 = Inr c2" using w loop fd by (auto simp: handleWrite_def split: sum.splits)
    have c2': "open_log n c2 \<and> registered c2"
      using update_log [OF c1] c2 by (simp add: conn_disableWriting_def)
    have "registered (response_done c2)" using c2' by (simp add: response_done_def)
    with c2' w loop fd Drained c2 assms(2) show ?thesis
      by (auto simp: handleWrite_def Let_def intro!: closed_log_close split: if_splits)
  next
    case Blocked
    then have "conn_enableWriting (if s then markActivity now c1 else c1) = Inr c'" using w loop fd by (simp add: handleWrite_def)
    moreover have "open_log n (if s then markActivity now c1 else c1)" "registered (if s then markActivity now c1 else c1)"
      using c1 by simp_all
    ultimately show ?thesis using update_log unfolding conn_enableWriting_def by blast
  next
    case Broken
    with w loop fd c1 assms(2) show ?thesis by (auto simp: handleWrite_def closed_log_close)
  qed
qed

lemma ctl_registered: "conn_ctl c \<Longrightarrow> open_log n c \<Longrightarrow> 0 \<le> n \<Longrightarrow> registered c"
  by (simp add: conn_ctl_def conn_base_def open_log_def)

lemma dispatch_log:
  assumes ctl: "conn_ctl c" and en: "tcp_enabled (Dispatch revents rs ss now1 now2) c" and n: "open_log n c" "0 \<le> n"
    and step: "tcp_step (Dispatch revents rs ss now1 now2) c = Inr c'"
  shows "open_log n c' \<or> closed_log n c'"
proof (cases "bit revents 3 \<or> bit revents 4")
  case True
  with step n ctl_registered [OF ctl n] show ?thesis by (auto simp: tcp_step_Dispatch intro: closed_log_close)
next
  case False
  define c1 where "c1 = (if bit revents 0 then handleRead rs now1 c else c)"
  have reg: "registered c" using ctl_registered [OF ctl n] .
  have c1: "conn_ctl c1" "open_log n c1 \<or> closed_log n c1" "output_buffer c1 = output_buffer c"
    using handleRead_ctl [OF ctl reg] handleRead_log [OF n reg] ctl n by (auto simp: c1_def handleRead_output)
  have step1: "(if bit revents 2 then handleWrite ss now2 c1 else Inr c1) = Inr c'"
    using False step unfolding c1_def tcp_step_Dispatch Let_def by simp
  show ?thesis
  proof (cases "bit revents 2")
    case True
    then have out: "peek (output_buffer c1) \<noteq> []"
      using en c1(3) conn_ctl_base [OF ctl] unfolding conn_base_def by (metis tcp_enabled.simps(1))
    from c1(2) show ?thesis
    proof
      assume "open_log n c1"
      with handleWrite_log [OF this n(2) ctl_registered [OF c1(1) this n(2)]] True step1 show ?thesis by simp
    next
      assume closed: "closed_log n c1"
      then have "handleWrite ss now2 c1 = Inr c1" using out by (simp add: closed_log_def handleWrite_closed)
      with True step1 closed show ?thesis by simp
    qed
  qed (use step1 c1(2) in simp)
qed

lemma finish_log:
  assumes ctl: "conn_ctl c" and n: "open_log n c" "0 \<le> n" and fin: "finishRequest i r cl ss now c = Inr c'"
  shows "open_log n c' \<or> closed_log n c'"
proof (cases "fd c < 0 \<or> \<not> processing_request c \<or> i \<noteq> request_generation c")
  case True
  with fin n(1) show ?thesis by (auto simp: finishRequest_def split: if_splits)
next
  case False
  define ti where "ti = (if latency_enabled c then Some i else None)"
  define c2 where "c2 = (emit (timing_mark Mark_returned_to_io ti @ [Accepted i r]) c)\<lparr>processing_request := False,
      active_request_timing := ti, output_buffer := append_data r (output_buffer c), close_after := cl,
      response_ready := True\<rparr>"
  have "open_log n c2" using n(1) by (auto simp: c2_def open_log_def timing_mark_def split: option.split)
  moreover have "registered c2" using ctl_registered [OF ctl n] by (simp add: c2_def)
  moreover have "finishRequest i r cl ss now c = handleWrite ss now c2"
    using False by (simp add: finishRequest_def Let_def c2_def ti_def timing_mark_def)
  ultimately show ?thesis using fin handleWrite_log n(2) by simp
qed

lemma tcp_step_open:
  assumes "conn_ctl c" and "tcp_enabled ev c" and "open_log n c" and "0 \<le> n" and "tcp_step ev c = Inr c'"
  shows "open_log n c' \<or> closed_log n c'"
proof (cases ev)
  case (Dispatch revents rs ss now1 now2)
  with assms dispatch_log show ?thesis by blast
next
  case (Finish i r cl ss now)
  with assms finish_log show ?thesis by simp
next
  case (Timer d g now)
  let ?c = "c\<lparr>pending_timers := remove1 (d, g) (pending_timers c)\<rparr>"
  have "open_log n ?c" "registered ?c" using assms(3) ctl_registered [OF assms(1,3,4)] by (simp_all add: open_log_def)
  then have "closed_log n (close ?c)" using closed_log_close assms(4) by blast
  with Timer assms(3,5) \<open>open_log n ?c\<close> show ?thesis by (auto simp: closeIfIdle_def split: if_splits)
qed

lemma tcp_step_closed:
  assumes "conn_ctl c" and "tcp_enabled ev c" and "fd c < 0" and "tcp_step ev c = Inr c'"
  shows "fd c' < 0 \<and> tcp_log c' = tcp_log c"
proof (cases ev)
  case (Dispatch revents rs ss now1 now2)
  have "\<not> registered c" using assms(1,3) unfolding conn_ctl_def conn_base_def by (meson not_le)
  with Dispatch assms(2) show ?thesis by simp
qed (use assms in \<open>auto simp: finishRequest_def closeIfIdle_def\<close>)

lemma tcp_steps_log:
  assumes "tcp_steps c evs c'" and "conn_ctl c" and "open_log n c" and "0 \<le> n"
  shows "open_log n c' \<or> closed_log n c'"
  using assms
proof (induction rule: tcp_steps.induct)
  case (step c evs c1 ev c2)
  have ctl: "conn_ctl c1" using tcp_steps_ctl [OF step.hyps(1) step.prems(1)] .
  from step.IH [OF step.prems] show ?case
  proof
    assume "open_log n c1"
    with tcp_step_open [OF ctl step.hyps(2) _ step.prems(3) step.hyps(3)] show ?thesis .
  next
    assume "closed_log n c1"
    with tcp_step_closed [OF ctl step.hyps(2) _ step.hyps(3)] show ?thesis by (auto simp: closed_log_def)
  qed
qed simp

lemma establish_open: "open_log n (establish t0 (TcpConnection n timeout lat))"
  by (simp add: establish_def Let_def loop_addChannel_def TcpConnection_def) (simp add: open_log_def)

text \<open>C17: A connection is closed at most once and for good: in every reachable state either it is open
  and no descriptor has been closed, or its channel was removed from the loop and then its descriptor
  closed, and these are the last two things it did: nothing was read, sent, submitted, scheduled or
  updated afterwards, and no later event does anything.\<close>

theorem closed_once_and_last:
  assumes "0 \<le> n" and "tcp_steps (establish t0 (TcpConnection n timeout lat)) evs c"
  shows "(fd c = n \<and> (\<forall>k. Close_fd k \<notin> set (tcp_log c))) \<or>
    (fd c < 0 \<and> (\<exists>before. tcp_log c = before @ [Remove_channel n, Close_fd n] \<and> (\<forall>k. Close_fd k \<notin> set before)) \<and>
     (\<forall>ev c'. tcp_enabled ev c \<longrightarrow> tcp_step ev c = Inr c' \<longrightarrow> fd c' < 0 \<and> tcp_log c' = tcp_log c))"
proof -
  have ctl: "conn_ctl c" using tcp_steps_ctl [OF assms(2) establish_ctl [OF assms(1)]] .
  from tcp_steps_log [OF assms(2) establish_ctl [OF assms(1)] establish_open assms(1)] show ?thesis
    using tcp_step_closed [OF ctl] by (auto simp: open_log_def closed_log_def)
qed

section \<open>An example\<close>

text \<open>A request arrives in two pieces, with the beginning of the next one; the response goes out in two
  pieces; then the peer closes.\<close>

definition piece :: string where
  "piece = ''GET / HTTP/1.1'' @ blank_line"

definition conversation :: "tcp_event list" where
  "conversation =
    [Dispatch 1 [Recv_data (take 5 piece), Recv_interrupted, Recv_again] [] 10 10,
     Dispatch 1 [Recv_data (drop 5 piece @ ''GE'')] [] 20 20,
     Finish 1 ''hello'' False [Send_bytes 2, Send_again] 30,
     Dispatch 5 [Recv_again] [Send_bytes 3] 40 40,
     Finish 1 ''late'' False [] 45,
     Dispatch 1 [Recv_eof] [] 50 50]"

definition conn0 :: tcp_connection where
  "conn0 = establish 0 (TcpConnection 7 60 True)"

definition run_events :: "tcp_event list \<Rightarrow> tcp_connection \<Rightarrow> tcp_connection" where
  "run_events evs c = fold (\<lambda>ev c. projr (tcp_step ev c)) evs c"

lemma tcp_steps_snoc:
  "tcp_steps c evs c1 \<Longrightarrow> tcp_enabled ev c1 \<Longrightarrow> tcp_step ev c1 = Inr c2 \<Longrightarrow> evs' = evs @ [ev] \<Longrightarrow> tcp_steps c evs' c2"
  using tcp_steps.step by blast

fun all_enabled :: "tcp_event list \<Rightarrow> tcp_connection \<Rightarrow> bool" where
  "all_enabled [] c = True"
| "all_enabled (ev # evs) c = (tcp_enabled ev c \<and> (case tcp_step ev c of Inl _ \<Rightarrow> False | Inr c' \<Rightarrow> all_enabled evs c'))"

lemma tcp_steps_trans: "tcp_steps c1 b c2 \<Longrightarrow> tcp_steps c a c1 \<Longrightarrow> tcp_steps c (a @ b) c2"
proof (induction rule: tcp_steps.induct)
  case (step c1 evs c2 ev c3)
  then show ?case using tcp_steps.step [of c "a @ evs" c2 ev c3] by simp
qed simp

lemma all_enabled_steps: "all_enabled evs c \<Longrightarrow> tcp_steps c evs (run_events evs c)"
proof (induction evs c rule: all_enabled.induct)
  case (1 c)
  then show ?case by (simp add: run_events_def tcp_steps.start)
next
  case (2 ev evs c)
  then obtain c' where c': "tcp_enabled ev c" "tcp_step ev c = Inr c'" "all_enabled evs c'"
    by (auto split: sum.splits)
  have "tcp_steps c [ev] c'" using tcp_steps.step [OF tcp_steps.start c'(1,2)] by simp
  from tcp_steps_trans [OF "2.IH" [OF c'(2,3)] this] c' show ?case by (simp add: run_events_def)
qed

lemma conversation_steps: "tcp_steps conn0 conversation (run_events conversation conn0)"
proof (rule all_enabled_steps)
  show "all_enabled conversation conn0" by code_simp
qed

definition answering :: tcp_connection where
  "answering = run_events (take 3 conversation) conn0"

lemma answering_steps: "tcp_steps (establish 0 (TcpConnection 7 60 True)) (take 3 conversation) answering"
proof -
  have "all_enabled (take 3 conversation) conn0" by code_simp
  from all_enabled_steps [OF this] show ?thesis by (simp add: conn0_def answering_def)
qed

lemma connection_is_safe_witness:
  "(\<exists>c'. tcp_step (Dispatch 5 [Recv_failed] [Send_bytes 3] 40 40) answering = Inr c') \<and>
    wants_write (conn_channel answering) \<and> peek (output_buffer answering) = ''llo''"
proof -
  have en: "tcp_enabled (Dispatch 5 [Recv_failed] [Send_bytes 3] 40 40) answering" by code_simp
  have "registered answering" "response_ready answering" "peek (output_buffer answering) = ''llo''" by code_simp+
  with connection_is_safe [OF _ answering_steps en] show ?thesis by simp
qed

lemma connection_streams_witness:
  "submitted (tcp_log answering) = [(1, piece)] \<and> sent_bytes (tcp_log answering) = ''he'' \<and>
   concat (map snd (accepted (tcp_log answering))) = sent_bytes (tcp_log answering) @ ''llo''"
proof -
  have "submitted (tcp_log answering) = [(1, piece)]" "sent_bytes (tcp_log answering) = ''he''"
    "peek (output_buffer answering) = ''llo''" by code_simp+
  with connection_streams [OF answering_steps] show ?thesis by (simp add: Let_def)
qed

lemma closed_once_and_last_witness:
  "fd (run_events conversation conn0) < 0 \<and>
   (\<exists>before. tcp_log (run_events conversation conn0) = before @ [Remove_channel 7, Close_fd 7])"
proof -
  have "fd (run_events conversation conn0) < 0" by code_simp
  with closed_once_and_last [OF _ conversation_steps [unfolded conn0_def]] show ?thesis by (auto simp: conn0_def)
qed

end
