(* ===== verification/TcpPrimitives.thy ===== *)
theory TcpPrimitives
  imports TcpConnection
begin

text \<open>
  What a connection does is made of a few primitive changes. A relation between states (or an invariant,
  as the relation \<open>P c \<longrightarrow> P c'\<close>) that is reflexive, transitive and holds for each primitive holds for the
  handlers. The locales prove this once: for what writes, for the delivery of a result, for a readiness
  event, and for all of them.
\<close>

definition accept_response :: "u64 \<Rightarrow> string \<Rightarrow> bool \<Rightarrow> tcp_connection \<Rightarrow> tcp_connection" where
  "accept_response i r cl c =
    (emit ((if latency_enabled c then [Timing Mark_returned_to_io i] else []) @ [Accepted i r]) c)
      \<lparr>processing_request := False, active_request_timing := (if latency_enabled c then Some i else None),
       output_buffer := append_data r (output_buffer c), close_after := cl, response_ready := True\<rparr>"

lemma finishRequest_accept:
  "finishRequest i r cl ss now c =
    (if fd c < 0 \<or> \<not> processing_request c \<or> i \<noteq> request_generation c then Inr c
     else handleWrite ss now (accept_response i r cl c))"
  by (simp add: finishRequest_def accept_response_def Let_def emit_def)

locale write_relation =
  fixes R :: "tcp_connection \<Rightarrow> tcp_connection \<Rightarrow> bool"
  assumes refl: "R c c" and trans: "R a b \<Longrightarrow> R b c \<Longrightarrow> R a c"
    and closing: "R c (close c)" and activity: "R c (markActivity now c)" and processing: "R c (processRequest c)"
    and sending: "R c (sent_some n c)" and completing: "R c (response_done c)"
    and updating: "f = enableWriting \<or> f = disableWriting \<Longrightarrow> update_interest f c = Inr c' \<Longrightarrow> R c c'"
begin

lemma send: "send_loop ss s c = (e, s', c1) \<Longrightarrow> R c c1"
proof (induction ss arbitrary: s c)
  case (Cons x ss)
  show ?case
  proof (cases "\<exists>n. x = Send_bytes n \<and> 0 < n \<and> \<not> buffer_empty (output_buffer c)")
    case True
    then obtain n where "send_loop ss True (sent_some n c) = (e, s', c1)" using Cons.prems by auto
    from trans [OF sending Cons.IH [OF this]] show ?thesis .
  next
    case False
    with Cons show ?thesis by (auto simp: refl split: if_splits send_result.splits)
  qed
qed (auto simp: refl split: if_splits)

lemma writing:
  assumes w: "handleWrite ss now c = Inr c'"
  shows "R c c'"
proof -
  obtain e s c1 where loop: "send_loop (if fd c < 0 then [Send_failed] else ss) False c = (e, s, c1)"
    by (rule prod_cases3)
  have c1: "R c c1" using send [OF loop] .
  show ?thesis
  proof (cases e)
    case Drained
    then obtain c2 where c2: "conn_disableWriting c1 = Inr c2" using w loop by (auto simp: handleWrite_def split: sum.splits)
    let ?c3 = "response_done c2"
    have c3: "R c ?c3"
      using trans [OF c1 trans [OF updating completing], of disableWriting c2] c2 by (simp add: conn_disableWriting_def)
    have "c' \<in> {close ?c3, processRequest ?c3, markActivity now ?c3, ?c3}"
      using w loop Drained c2 by (auto simp: handleWrite_def Let_def split: if_splits)
    then show ?thesis using trans [OF c3 closing] trans [OF c3 processing] trans [OF c3 activity] c3 by auto
  next
    case Blocked
    define c2 where "c2 = (if s then markActivity now c1 else c1)"
    have "R c c2" unfolding c2_def using trans [OF c1 activity] c1 by simp
    moreover have "conn_enableWriting c2 = Inr c'" using w loop Blocked by (simp add: handleWrite_def c2_def)
    then have "R c2 c'" using updating [of enableWriting c2 c'] by (simp add: conn_enableWriting_def)
    ultimately show ?thesis by (rule trans)
  next
    case Broken
    with w loop trans [OF c1 closing] show ?thesis by (simp add: handleWrite_def)
  qed
qed

end

text \<open>With the acceptance of a response, for the delivery of a result.\<close>

locale finish_relation = write_relation +
  assumes accepting: "R c (accept_response i r cl c)"
begin

lemma finish: "finishRequest i r cl ss now c = Inr c' \<Longrightarrow> R c c'"
  using trans [OF accepting writing] by (auto simp: finishRequest_accept refl split: if_splits)

end

text \<open>With the receipt of data, for a readiness event.\<close>

locale io_relation = write_relation +
  assumes receiving: "R c (emit [Received d] (c\<lparr>input_buffer := append_data d (input_buffer c)\<rparr>))"
    and peer_closing: "R c (c\<lparr>peer_closed := True\<rparr>)"
begin

lemma recv: "recv_loop rs r c = (ok, r', c1) \<Longrightarrow> R c c1"
proof (induction rs r c rule: recv_loop.induct)
  case (2 d rs r c)
  then show ?case using trans [OF receiving] by simp
next
  case (3 rs r c)
  then show ?case using peer_closing by auto
qed (auto simp: refl)

lemma reading: "R c (handleRead rs now c)"
proof -
  obtain ok r c1 where loop: "recv_loop (if fd c < 0 then [Recv_failed] else rs) False c = (ok, r, c1)"
    by (rule prod_cases3)
  define c2 where "c2 = (if r then markActivity now c1 else c1)"
  have c1: "R c c1" using recv [OF loop] .
  have c2: "R c c2" unfolding c2_def using trans [OF c1 activity] c1 by simp
  have "handleRead rs now c \<in> {close c1, processRequest c2, close c2, c2}"
    using loop by (simp add: handleRead_def Let_def c2_def)
  then show ?thesis using trans [OF c1 closing] trans [OF c2 closing] trans [OF c2 processing] c2 by auto
qed

lemma dispatching:
  assumes "tcp_step (Dispatch revents rs ss now1 now2) c = Inr c'"
  shows "R c c'"
proof -
  define c1 where "c1 = (if bit revents 0 then handleRead rs now1 c else c)"
  have c1: "R c c1" by (simp add: c1_def reading refl)
  have "c' = close c \<or> handleWrite ss now2 c1 = Inr c' \<or> c' = c1"
    using assms unfolding tcp_step_Dispatch Let_def c1_def by (auto split: if_splits)
  then show ?thesis using trans [OF c1 writing] c1 closing by auto
qed

end

locale connection_relation = io_relation R + finish_relation R for R

end
