(* ===== verification/ServerPipeline.thy ===== *)
theory ServerPipeline
  imports TcpStreams TcpPrimitives Machine
begin

text \<open>
  The way of a request through the server, from the bytes of a connection to the bytes of its response,
  composed of the parts as \<open>src/net/TcpConnection.cpp\<close> (\<open>processRequest\<close>) and \<open>src/main.cpp\<close> compose them.
  A request that the connection submits waits in the worker pool (\<open>WorkerPool\<close>: every task runs once, on
  some worker, so that tasks may end in any order); its result waits in the task queue of the connection's
  loop (\<open>EventLoopRun\<close>: in order, each once) and is delivered by \<open>finishRequest\<close>. What the handler
  answers is a relation between requests and results, so that it may depend on caches and counters.
\<close>

section \<open>The system of one connection\<close>

record system =
  conn :: tcp_connection
  jobs :: "(u64 \<times> string) list"
  results :: "(u64 \<times> string \<times> bool) list"

datatype system_event =
  Io tcp_event | Work nat string bool | Deliver "send_result list" time_point

text \<open>The requests that a step of the connection has submitted.\<close>

definition new_jobs :: "tcp_connection \<Rightarrow> tcp_connection \<Rightarrow> (u64 \<times> string) list" where
  "new_jobs c c' = drop (length (submitted (tcp_log c))) (submitted (tcp_log c'))"

fun is_result :: "tcp_event \<Rightarrow> bool" where
  "is_result (Finish i r cl ss now) = True"
| "is_result ev = False"

definition connection_step :: "tcp_event \<Rightarrow> system \<Rightarrow> system option" where
  "connection_step ev s =
    (if \<not> tcp_enabled ev (conn s) then None
     else case tcp_step ev (conn s) of
       Inl e \<Rightarrow> None
     | Inr c' \<Rightarrow> Some (s\<lparr>conn := c', jobs := jobs s @ new_jobs (conn s) c'\<rparr>))"

fun system_step :: "(string \<Rightarrow> string \<times> bool \<Rightarrow> bool) \<Rightarrow> system_event \<Rightarrow> system \<Rightarrow> system option" where
  "system_step answers (Io ev) s = (if is_result ev then None else connection_step ev s)"
| "system_step answers (Work k r cl) s =
     (if k < length (jobs s) \<and> answers (snd (jobs s ! k)) (r, cl) then
        Some (s\<lparr>jobs := take k (jobs s) @ drop (Suc k) (jobs s), results := results s @ [(fst (jobs s ! k), r, cl)]\<rparr>)
      else None)"
| "system_step answers (Deliver ss now) s =
     (case results s of
        [] \<Rightarrow> None
      | (i, r, cl) # rest \<Rightarrow> connection_step (Finish i r cl ss now) (s\<lparr>results := rest\<rparr>))"

definition system_start :: "int \<Rightarrow> time_point \<Rightarrow> int \<Rightarrow> bool \<Rightarrow> system" where
  "system_start n t0 timeout lat = \<lparr>conn = establish t0 (TcpConnection n timeout lat), jobs = [], results = []\<rparr>"

section \<open>What events add to the log\<close>

definition log_grows :: "tcp_connection \<Rightarrow> tcp_connection \<Rightarrow> bool" where
  "log_grows c c' \<longleftrightarrow> (\<exists>es. tcp_log c' = tcp_log c @ es \<and> accepted es = [])"

lemma log_grows_emit:
  "tcp_log c' = tcp_log c @ es \<Longrightarrow> accepted es = [] \<Longrightarrow> log_grows c c'"
  by (auto simp: log_grows_def)

lemma log_grows_trans: "log_grows a b \<Longrightarrow> log_grows b c \<Longrightarrow> log_grows a c"
  by (auto simp: log_grows_def)

interpretation growing: io_relation log_grows
proof
  show "log_grows c c" for c by (rule log_grows_emit [of _ _ "[]"]) (simp_all add: accepted_def)
  show "log_grows a c" if "log_grows a b" "log_grows b c" for a b c using that by (rule log_grows_trans)
  show "log_grows c (close c)" for c
    by (cases "fd c < 0"; cases "registered c")
      (auto simp: close_def loop_removeChannel_def emit_def log_grows_def accepted_def)
  show "log_grows c (markActivity now c)" for now c by (auto simp: log_grows_def accepted_def)
  show "log_grows c (processRequest c)" for c
    by (auto simp: log_grows_def processRequest_def Let_def emit_def accepted_def)
  show "log_grows c (sent_some m c)" for m c
    by (auto simp: log_grows_def sent_some_def emit_def accepted_def split: option.split)
  show "log_grows c (response_done c)" for c
    by (auto simp: log_grows_def response_done_def emit_def accepted_def split: option.split)
  show "log_grows c c'" if "f = enableWriting \<or> f = disableWriting" "update_interest f c = Inr c'" for f c c'
    using that by (auto simp: log_grows_def update_interest_def loop_updateChannel_def emit_def accepted_def split: if_splits)
  show "log_grows c (emit [Received d] (c\<lparr>input_buffer := append_data d (input_buffer c)\<rparr>))" for c d
    by (auto simp: log_grows_def emit_def accepted_def)
  show "log_grows c (c\<lparr>peer_closed := True\<rparr>)" for c by (auto simp: log_grows_def accepted_def)
qed

lemma io_grows:
  assumes "tcp_step ev c = Inr c'" and "\<not> is_result ev"
  shows "log_grows c c'"
proof (cases ev)
  case (Dispatch revents rs ss now1 now2)
  with assms growing.dispatching show ?thesis by blast
next
  case (Timer d g now)
  have "log_grows c (scheduleIdleCheck t (c\<lparr>pending_timers := ts\<rparr>))" "log_grows c (c\<lparr>pending_timers := ts\<rparr>)" for t ts
    by (auto simp: log_grows_def scheduleIdleCheck_def emit_def accepted_def)
  moreover have "log_grows c (close (c\<lparr>pending_timers := ts\<rparr>))" for ts
    by (rule growing.trans [OF calculation(2) growing.closing])
  ultimately show ?thesis using assms(1) Timer by (auto simp: closeIfIdle_def)
qed (use assms(2) in simp)

lemma finish_grows:
  assumes "finishRequest i r cl ss now c = Inr c'"
  shows "if 0 \<le> fd c \<and> processing_request c \<and> i = request_generation c
    then \<exists>es. tcp_log c' = tcp_log c @ es \<and> accepted es = [(i, r)] else c' = c"
proof (cases "0 \<le> fd c \<and> processing_request c \<and> i = request_generation c")
  case False
  with assms show ?thesis by (auto simp: finishRequest_accept)
next
  case True
  then have "handleWrite ss now (accept_response i r cl c) = Inr c'" using assms by (auto simp: finishRequest_accept)
  from growing.writing [OF this] obtain es where es: "tcp_log c' = tcp_log (accept_response i r cl c) @ es" "accepted es = []"
    by (auto simp: log_grows_def)
  have "tcp_log c' = tcp_log c @ ((if latency_enabled c then [Timing Mark_returned_to_io i] else []) @ [Accepted i r]) @ es"
    using es(1) by (simp add: accept_response_def emit_def)
  moreover have "accepted (((if latency_enabled c then [Timing Mark_returned_to_io i] else []) @ [Accepted i r]) @ es) = [(i, r)]"
    using es(2) by (simp add: accepted_def)
  ultimately show ?thesis using True by auto
qed

section \<open>Invariant\<close>

text \<open>An open connection that processes a request has it in exactly one place, in the pool or as its
  result in the loop's queue; one that does not has nothing there.\<close>

definition in_flight :: "(string \<Rightarrow> string \<times> bool \<Rightarrow> bool) \<Rightarrow> system \<Rightarrow> bool" where
  "in_flight answers s \<longleftrightarrow>
     (let request = last (submitted (tcp_log (conn s))) in
      0 \<le> fd (conn s) \<longrightarrow>
      (if processing_request (conn s) then
         jobs s = [request] \<and> results s = [] \<or>
         jobs s = [] \<and> (\<exists>r cl. results s = [(fst request, r, cl)] \<and> answers (snd request) (r, cl))
       else jobs s = [] \<and> results s = []))"

definition matched :: "(string \<Rightarrow> string \<times> bool \<Rightarrow> bool) \<Rightarrow> tcp_effect list \<Rightarrow> bool" where
  "matched answers lg \<longleftrightarrow>
     list_all2 (\<lambda>(i, q) (j, r). i = j \<and> (\<exists>cl. answers q (r, cl))) (take (length (accepted lg)) (submitted lg)) (accepted lg)"

definition system_inv :: "(string \<Rightarrow> string \<times> bool \<Rightarrow> bool) \<Rightarrow> system \<Rightarrow> bool" where
  "system_inv answers s \<longleftrightarrow> conn_ctl (conn s) \<and> conn_stream (conn s) \<and>
     matched answers (tcp_log (conn s)) \<and> in_flight answers s"

lemma stream_lengths:
  assumes "conn_stream c"
  shows "length (accepted (tcp_log c)) = length (submitted (tcp_log c)) - (if processing_request c then 1 else 0)"
    and "processing_request c \<Longrightarrow> submitted (tcp_log c) \<noteq> []"
    and "processing_request c \<Longrightarrow> fst (last (submitted (tcp_log c))) = request_generation c"
proof -
  let ?subs = "submitted (tcp_log c)" and ?accs = "accepted (tcp_log c)"
  have ids: "map fst ?subs = ids_from_1 (length ?subs)" "request_generation c = word_of_nat (length ?subs)"
    "map fst ?accs = ids_from_1 (length ?subs - (if processing_request c then 1 else 0))"
    and ne: "processing_request c \<Longrightarrow> ?subs \<noteq> []"
    using assms unfolding conn_stream_def stream_inv_def by blast+
  show "length ?accs = length ?subs - (if processing_request c then 1 else 0)"
    using arg_cong [OF ids(3), of length] by (simp add: ids_from_1_def del: upt_Suc)
  show "processing_request c \<Longrightarrow> ?subs \<noteq> []" by (rule ne)
  assume "processing_request c"
  then obtain k where k: "length ?subs = Suc k" using ne by (cases ?subs) auto
  have "fst (last ?subs) = last (map fst ?subs)" using ne \<open>processing_request c\<close> by (simp add: last_map)
  also have "\<dots> = word_of_nat (Suc k)" unfolding ids(1) k by (simp add: ids_from_1_Suc)
  finally show "fst (last ?subs) = request_generation c" using ids(2) k by simp
qed

lemma closed_stays:
  assumes "conn_ctl c" and "fd c < 0" and "tcp_enabled ev c" and "tcp_step ev c = Inr c'"
  shows "fd c' < 0 \<and> tcp_log c' = tcp_log c"
proof (cases ev)
  case (Dispatch revents rs ss now1 now2)
  have "\<not> registered c" using assms(1,2) unfolding conn_ctl_def conn_base_def by (meson not_le)
  with Dispatch assms(3) show ?thesis by simp
qed (use assms in \<open>auto simp: finishRequest_def closeIfIdle_def\<close>)

lemma singleton_last: "length new = (if b then 1 else 0) \<Longrightarrow> new = (if b then [last (subs @ new)] else [])"
  by (cases new) (auto split: if_splits)

lemma one_more:
  "m + k - (if p' then 1 else 0) = m - (if p then 1 else 0) \<Longrightarrow> (p \<longrightarrow> 0 < m) \<Longrightarrow> (p' \<longrightarrow> 0 < m + k) \<Longrightarrow>
    k = (if \<not> p \<and> p' then 1 else 0 :: nat) \<and> (p \<longrightarrow> p')"
  by (cases p; cases p'; simp; linarith)

lemma system_inv_step:
  assumes inv: "system_inv answers s" and en: "tcp_enabled ev (conn s)" and step: "tcp_step ev (conn s) = Inr c'"
    and closed: "fd (conn s) < 0 \<Longrightarrow> accepted es = []"
    and grows: "tcp_log c' = tcp_log (conn s) @ es"
    and same: "accepted es = [] \<Longrightarrow> 0 \<le> fd (conn s) \<Longrightarrow> qs = results s"
    and answer: "accepted es \<noteq> [] \<Longrightarrow> \<exists>i r cl. accepted es = [(i, r)] \<and> processing_request (conn s) \<and>
      results s = [(i, r, cl)] \<and> qs = []"
  shows "system_inv answers (s\<lparr>conn := c', jobs := jobs s @ new_jobs (conn s) c', results := qs\<rparr>)"
proof -
  let ?c = "conn s"
  define subs accs new where "subs = submitted (tcp_log ?c)" and "accs = accepted (tcp_log ?c)" and "new = submitted es"
  have ctl: "conn_ctl ?c" and st: "conn_stream ?c" and ma: "matched answers (tcp_log ?c)" and fl: "in_flight answers s"
    using inv by (simp_all add: system_inv_def)
  obtain c2 where "tcp_step ev ?c = Inr c2" "conn_ctl c2" using tcp_step_ctl [OF ctl en] by blast
  then have ctl': "conn_ctl c'" using step by simp
  have st': "conn_stream c'" using tcp_step_stream [OF st] en step ctl by blast
  have log: "submitted (tcp_log c') = subs @ new" "accepted (tcp_log c') = accs @ accepted es"
    using grows by (simp_all add: subs_def accs_def new_def)
  have jobs: "new_jobs ?c c' = new" by (simp add: new_jobs_def log(1)) (simp add: subs_def)
  note len = stream_lengths [OF st, folded subs_def accs_def] and len' = stream_lengths [OF st', unfolded log]
  show ?thesis
  proof (cases "accepted es = []")
    case True
    have "length subs + length new - (if processing_request c' then 1 else 0) = length subs - (if processing_request ?c then 1 else 0)"
      "processing_request ?c \<longrightarrow> 0 < length subs" "processing_request c' \<longrightarrow> 0 < length subs + length new"
      using len(1,2) len'(1,2) True by auto
    from one_more [OF this] have "length new = (if \<not> processing_request ?c \<and> processing_request c' then 1 else 0)"
      and p: "processing_request ?c \<Longrightarrow> processing_request c'" by blast+
    note new = singleton_last [OF this(1), of subs]
    have "matched answers (tcp_log c')"
      using ma len(1) True unfolding matched_def log by (simp add: subs_def [symmetric] accs_def [symmetric])
    moreover have "in_flight answers (s\<lparr>conn := c', jobs := jobs s @ new, results := qs\<rparr>)"
    proof (cases "fd ?c < 0")
      case True
      then show ?thesis using closed_stays [OF ctl True en step] by (simp add: in_flight_def)
    next
      case False
      then have qs: "qs = results s" using same \<open>accepted es = []\<close> by simp
      show ?thesis using fl False new p unfolding in_flight_def Let_def qs
        by (cases "processing_request ?c") (auto simp: log subs_def [symmetric] split: if_splits)
    qed
    ultimately show ?thesis using ctl' st' by (simp add: system_inv_def jobs)
  next
    case False
    then obtain i r cl where ac: "accepted es = [(i, r)]" and p: "processing_request ?c"
      and rs: "results s = [(i, r, cl)]" and qs: "qs = []" using answer by blast
    have op: "0 \<le> fd ?c" using False closed by (meson not_le)
    have fl': "jobs s = []" "fst (last subs) = i" "answers (snd (last subs)) (r, cl)"
      using fl op p rs unfolding in_flight_def by (auto simp: subs_def Let_def)
    have ne: "subs \<noteq> []" using len(2) p by simp
    have new: "new = (if processing_request c' then [last (subs @ new)] else [])"
    proof (rule singleton_last)
      have "Suc (length accs) = length (subs @ new) - (if processing_request c' then 1 else 0)" "Suc (length accs) = length subs"
        "processing_request c' \<longrightarrow> 0 < length (subs @ new)"
        using len(1) len'(1,2) ac p ne by (cases subs; auto)+
      then show "length new = (if processing_request c' then 1 else 0)"
        using one_more [of "length subs" "length new" "processing_request c'" False] by simp
    qed
    have whole: "subs = take (length accs) subs @ [last subs]"
      using len(1) p append_butlast_last_id [OF ne] by (simp add: butlast_conv_take)
    have acc_len: "Suc (length accs) = length subs" using len(1) p ne by (cases subs) auto
    have "list_all2 (\<lambda>(i, q) (j, r). i = j \<and> (\<exists>cl. answers q (r, cl))) (take (length accs) subs @ [last subs]) (accs @ [(i, r)])"
      using ma fl' unfolding matched_def subs_def [symmetric] accs_def [symmetric]
      by (intro list_all2_appendI) (auto simp: split_def)
    then have "matched answers (tcp_log c')"
      unfolding matched_def log ac using whole acc_len by simp
    moreover have "in_flight answers (s\<lparr>conn := c', jobs := new, results := []\<rparr>)"
      using new unfolding in_flight_def Let_def by (auto simp: log split: if_splits)
    ultimately show ?thesis using ctl' st' by (simp add: system_inv_def jobs qs fl'(1))
  qed
qed

lemma system_step_inv:
  assumes "system_inv answers s" and "system_step answers ev s = Some s'"
  shows "system_inv answers s'"
proof (cases ev)
  case (Io tev)
  then obtain c' where c': "\<not> is_result tev" "tcp_enabled tev (conn s)" "tcp_step tev (conn s) = Inr c'"
    and s': "s' = s\<lparr>conn := c', jobs := jobs s @ new_jobs (conn s) c'\<rparr>"
    using assms(2) by (auto simp: connection_step_def split: if_splits sum.splits)
  obtain es where es: "tcp_log c' = tcp_log (conn s) @ es" "accepted es = []"
    using io_grows [OF c'(3,1)] by (auto simp: log_grows_def)
  have "system_inv answers (s\<lparr>conn := c', jobs := jobs s @ new_jobs (conn s) c', results := results s\<rparr>)"
    by (rule system_inv_step [OF assms(1) c'(2,3) _ es(1)]) (simp_all add: es(2))
  then show ?thesis by (simp add: s')
next
  case (Work k r cl)
  then have k: "k < length (jobs s)" "answers (snd (jobs s ! k)) (r, cl)"
    and s': "s' = s\<lparr>jobs := take k (jobs s) @ drop (Suc k) (jobs s), results := results s @ [(fst (jobs s ! k), r, cl)]\<rparr>"
    using assms(2) by (auto split: if_splits)
  have "in_flight answers s'"
    using assms(1) k unfolding system_inv_def in_flight_def s' Let_def by (auto split: if_splits)
  then show ?thesis using assms(1) by (simp add: system_inv_def s')
next
  case (Deliver ss now)
  then obtain i r cl rest where rs: "results s = (i, r, cl) # rest"
    and step: "connection_step (Finish i r cl ss now) (s\<lparr>results := rest\<rparr>) = Some s'"
    using assms(2) by (auto split: list.splits)
  then obtain c' where c': "tcp_enabled (Finish i r cl ss now) (conn s)" "finishRequest i r cl ss now (conn s) = Inr c'"
    and s': "s' = s\<lparr>conn := c', jobs := jobs s @ new_jobs (conn s) c', results := rest\<rparr>"
    by (auto simp: connection_step_def split: if_splits sum.splits)
  have fl: "0 \<le> fd (conn s) \<Longrightarrow> processing_request (conn s) \<and> i = request_generation (conn s) \<and> rest = []"
    using assms(1) rs stream_lengths(3) [of "conn s"] unfolding system_inv_def in_flight_def Let_def by (auto split: if_splits)
  note grow = finish_grows [OF c'(2)]
  obtain es where es: "tcp_log c' = tcp_log (conn s) @ es" "accepted es = (if 0 \<le> fd (conn s) then [(i, r)] else [])"
  proof (cases "0 \<le> fd (conn s)")
    case True
    then show ?thesis using grow fl that by auto
  next
    case False
    then show ?thesis using grow that [of "[]"] by (simp add: accepted_def)
  qed
  have "system_inv answers (s\<lparr>conn := c', jobs := jobs s @ new_jobs (conn s) c', results := rest\<rparr>)"
    by (rule system_inv_step [OF assms(1) c'(1) _ _ es(1)])
      (use c'(2) es(2) fl rs in \<open>auto split: if_splits\<close>)
  then show ?thesis by (simp add: s')
qed

interpretation pipeline: machine "system_step answers" "system_inv answers"
  by unfold_locales (rule system_step_inv)

lemma system_start_inv: "0 \<le> n \<Longrightarrow> system_inv answers (system_start n t0 timeout lat)"
  using establish_ctl establish_stream [of t0 n timeout lat]
  by (simp add: system_inv_def system_start_def in_flight_def matched_def)
    (simp add: establish_def Let_def loop_addChannel_def TcpConnection_def scheduleIdleCheck_def log_defs)

section \<open>The bytes of the responses\<close>

lemma pipeline_streams:
  assumes inv: "system_inv answers s"
  shows "\<exists>reqs resps. received_bytes (tcp_log (conn s)) = concat reqs @ peek (input_buffer (conn s)) \<and>
    list_all one_request reqs \<and>
    sent_bytes (tcp_log (conn s)) @ peek (output_buffer (conn s)) = concat resps \<and>
    list_all2 (\<lambda>q r. \<exists>cl. answers q (r, cl)) (take (length resps) reqs) resps \<and>
    length reqs \<le> Suc (length resps) \<and>
    (0 \<le> fd (conn s) \<and> jobs s = [] \<and> results s = [] \<longrightarrow> length resps = length reqs \<and>
      (peek (output_buffer (conn s)) = [] \<longrightarrow> \<not> hasCompleteRequest (conn s))) \<and>
    (\<forall>ev. tcp_enabled ev (conn s) \<longrightarrow> (\<exists>c'. tcp_step ev (conn s) = Inr c'))"
proof -
  let ?lg = "tcp_log (conn s)"
  have ctl: "conn_ctl (conn s)" and st: "conn_stream (conn s)" and ma: "matched answers ?lg"
    and fl: "in_flight answers s" using inv by (simp_all add: system_inv_def)
  define reqs resps where "reqs = map snd (submitted ?lg)" and "resps = map snd (accepted ?lg)"
  have len: "length resps = length reqs - (if processing_request (conn s) then 1 else 0)"
    using stream_lengths(1) [OF st] by (simp add: reqs_def resps_def)
  have "received_bytes ?lg = concat reqs @ peek (input_buffer (conn s))" "list_all one_request reqs"
    "sent_bytes ?lg @ peek (output_buffer (conn s)) = concat resps"
    using st by (simp_all add: conn_stream_def stream_inv_def reqs_def resps_def list_all_iff)
  moreover have "list_all2 (\<lambda>q r. \<exists>cl. answers q (r, cl)) (take (length resps) reqs) resps"
    using ma unfolding matched_def reqs_def resps_def take_map list_all2_map1 list_all2_map2 length_map
    by (rule list_all2_mono) auto
  moreover have "length reqs \<le> Suc (length resps)" using len by (simp split: if_splits)
  moreover have "length resps = length reqs \<and> (peek (output_buffer (conn s)) = [] \<longrightarrow> \<not> hasCompleteRequest (conn s))"
    if idle: "0 \<le> fd (conn s) \<and> jobs s = [] \<and> results s = []"
  proof -
    have np: "\<not> processing_request (conn s)" using fl idle by (auto simp: in_flight_def Let_def)
    moreover have "registered (conn s)" using ctl idle unfolding conn_ctl_def conn_base_def by blast
    ultimately show ?thesis using len ctl unfolding conn_ctl_def by auto
  qed
  moreover have "\<exists>c'. tcp_step ev (conn s) = Inr c'" if "tcp_enabled ev (conn s)" for ev
    using tcp_step_ctl [OF ctl that] by blast
  ultimately show ?thesis by blast
qed

text \<open>C7: The server answers every request of a connection, once and in order, from bytes to bytes: in
  every interleaving of network events, workers that end their tasks in any order and deliveries, the
  bytes received are complete requests followed by what is still in the input buffer; the bytes sent,
  followed by what is still in the output buffer, are answers of the handler to the first of these
  requests, one for each, in their order; all requests but at most the last have been answered; and when
  the connection is open, no work is in flight and no output waits, every request has been answered and
  no complete request is left in the input. No step makes the loop raise.\<close>

theorem requests_answered_in_order:
  assumes "0 \<le> n" and "run_steps (system_step answers) evs (system_start n t0 timeout lat) = Some s"
  shows "\<exists>reqs resps. received_bytes (tcp_log (conn s)) = concat reqs @ peek (input_buffer (conn s)) \<and>
    list_all one_request reqs \<and>
    sent_bytes (tcp_log (conn s)) @ peek (output_buffer (conn s)) = concat resps \<and>
    list_all2 (\<lambda>q r. \<exists>cl. answers q (r, cl)) (take (length resps) reqs) resps \<and>
    length reqs \<le> Suc (length resps) \<and>
    (0 \<le> fd (conn s) \<and> jobs s = [] \<and> results s = [] \<longrightarrow> length resps = length reqs \<and>
      (peek (output_buffer (conn s)) = [] \<longrightarrow> \<not> hasCompleteRequest (conn s))) \<and>
    (\<forall>ev. tcp_enabled ev (conn s) \<longrightarrow> (\<exists>c'. tcp_step ev (conn s) = Inr c'))"
  by (rule pipeline_streams [OF pipeline.run_keeps [OF assms(2) system_start_inv [OF assms(1)]]])

end
