(* ===== verification/LoopConnection.thy ===== *)
theory LoopConnection
  imports TcpStreams TcpPrimitives EventLoop
begin

text \<open>
  The connection of \<open>TcpConnection\<close> on the loop of \<open>EventLoop\<close>: its log of calls, made on the real
  table of channels, interest list and timers, raises nothing and leaves there what the connection
  believes. So the view of one descriptor that \<open>TcpConnection\<close> was verified with is the loop's.
\<close>

section \<open>Calls on the loop\<close>

text \<open>The calls that a log holds, with the name of the connection's channel and of its timers.\<close>

fun client_call_of :: "'c \<Rightarrow> (u64 \<Rightarrow> 'c) \<Rightarrow> tcp_effect \<Rightarrow> 'c client_call list" where
  "client_call_of h tm (Add_channel m ev) = [Add False \<lparr>channel_fd = m, channel_events = ev\<rparr> h]"
| "client_call_of h tm (Update_channel m ev) = [Update False \<lparr>channel_fd = m, channel_events = ev\<rparr>]"
| "client_call_of h tm (Remove_channel m) = [Remove False m]"
| "client_call_of h tm (Run_at t g) = [Run_at_call t (tm g)]"
| "client_call_of h tm e = []"

definition client_calls :: "'c \<Rightarrow> (u64 \<Rightarrow> 'c) \<Rightarrow> tcp_effect list \<Rightarrow> 'c client_call list" where
  "client_calls h tm es = concat (map (client_call_of h tm) es)"

text \<open>Calls up to the first that raises.\<close>

fun make_calls :: "'c client_call list \<Rightarrow> 'c event_loop \<Rightarrow> 'c loop_result" where
  "make_calls [] l = (None, l)"
| "make_calls (c # cs) l =
     (case loop_call c l of (None, l') \<Rightarrow> make_calls cs l' | (Some x, l') \<Rightarrow> (Some x, l'))"

definition replay :: "'c \<Rightarrow> (u64 \<Rightarrow> 'c) \<Rightarrow> tcp_effect list \<Rightarrow> 'c event_loop \<Rightarrow> 'c loop_result" where
  "replay h tm es l = make_calls (client_calls h tm es) l"

definition timers_of :: "tcp_effect list \<Rightarrow> (time_point \<times> u64) list" where
  "timers_of es = concat (map (\<lambda>e. case e of Run_at t g \<Rightarrow> [(t, g)] | _ \<Rightarrow> []) es)"

definition named_timers :: "(u64 \<Rightarrow> 'c) \<Rightarrow> (time_point \<times> u64) list \<Rightarrow> 'c timer list" where
  "named_timers tm ts = map (\<lambda>(t, g). \<lparr>deadline = t, callback = tm g\<rparr>) ts"

lemma client_calls_simps [simp]:
  "client_calls h tm [] = []" "client_calls h tm (e # es) = client_call_of h tm e @ client_calls h tm es"
  "client_calls h tm (es @ fs) = client_calls h tm es @ client_calls h tm fs"
  by (simp_all add: client_calls_def)

lemma timers_of_simps [simp]:
  "timers_of [] = []" "timers_of (es @ fs) = timers_of es @ timers_of fs"
  "timers_of (Run_at t g # es) = (t, g) # timers_of es"
  by (simp_all add: timers_of_def)

lemma timers_of_other [simp]:
  "timers_of (Add_channel n w # es) = timers_of es" "timers_of (Update_channel n w # es) = timers_of es"
  "timers_of (Remove_channel n # es) = timers_of es" "timers_of (Close_fd n # es) = timers_of es"
  "timers_of (Activity t # es) = timers_of es" "timers_of (Received d # es) = timers_of es"
  "timers_of (Submit i q # es) = timers_of es" "timers_of (Accepted i q # es) = timers_of es"
  "timers_of (Sent d # es) = timers_of es" "timers_of (Timing m i # es) = timers_of es"
  by (simp_all add: timers_of_def)

lemma named_timers_simps [simp]:
  "named_timers tm [] = []" "named_timers tm (xs @ ys) = named_timers tm xs @ named_timers tm ys"
  "named_timers tm ((t, g) # xs) = \<lparr>deadline = t, callback = tm g\<rparr> # named_timers tm xs"
  by (simp_all add: named_timers_def)

lemma make_calls_append:
  "make_calls cs l = (None, l') \<Longrightarrow> make_calls (cs @ ds) l = make_calls ds l'"
  by (induction cs arbitrary: l) (auto split: prod.splits option.splits)

section \<open>The simulation\<close>

text \<open>At descriptor \<open>n\<close> the loop has the connection, as it believes, if it is registered, and nothing otherwise.\<close>

definition on_loop :: "'c \<Rightarrow> int \<Rightarrow> tcp_connection \<Rightarrow> 'c event_loop \<Rightarrow> bool" where
  "on_loop h n c l \<longleftrightarrow> (registered c \<longrightarrow> channel_fd (conn_channel c) = n \<and> fd c = n) \<and>
     loop_interest l n = (if registered c then Some (channel_events (conn_channel c)) else None) \<and>
     loop_channels l n = (if registered c then Some (Handler h) else None)"

text \<open>What calls about descriptor \<open>n\<close> leave alone.\<close>

definition loop_frame :: "int \<Rightarrow> 'c event_loop \<Rightarrow> 'c event_loop \<Rightarrow> bool" where
  "loop_frame n l l' \<longleftrightarrow>
     quit_flag l' = quit_flag l \<and> wakeup_fd l' = wakeup_fd l \<and> eventfd_counter l' = eventfd_counter l \<and>
     pending_tasks l' = pending_tasks l \<and> max_events (loop_epoller l') = max_events (loop_epoller l) \<and>
     (\<forall>m. m \<noteq> n \<longrightarrow> loop_interest l' m = loop_interest l m \<and> loop_channels l' m = loop_channels l m)"

lemma loop_frame_refl [simp]: "loop_frame n l l"
  by (simp add: loop_frame_def)

lemma loop_frame_trans: "loop_frame n l l1 \<Longrightarrow> loop_frame n l1 l2 \<Longrightarrow> loop_frame n l l2"
  by (simp add: loop_frame_def)

text \<open>A change of the connection is matched by its new calls.\<close>

definition calls_work :: "'c \<Rightarrow> (u64 \<Rightarrow> 'c) \<Rightarrow> tcp_connection \<Rightarrow> tcp_connection \<Rightarrow> bool" where
  "calls_work h tm c c' \<longleftrightarrow>
     (\<exists>es. tcp_log c' = tcp_log c @ es \<and> pending_timers c' = pending_timers c @ timers_of es \<and>
       (\<forall>n l. on_loop h n c l \<longrightarrow> (\<exists>l'. make_calls (client_calls h tm es) l = (None, l') \<and>
          on_loop h n c' l' \<and> loop_frame n l l' \<and> loop_timers l' = loop_timers l @ named_timers tm (timers_of es))))"

lemma calls_work_trans:
  assumes "calls_work h tm a b" and "calls_work h tm b c"
  shows "calls_work h tm a c"
proof -
  obtain es fs where es: "tcp_log b = tcp_log a @ es" "pending_timers b = pending_timers a @ timers_of es"
    "\<And>n l. on_loop h n a l \<Longrightarrow> \<exists>l'. make_calls (client_calls h tm es) l = (None, l') \<and>
       on_loop h n b l' \<and> loop_frame n l l' \<and> loop_timers l' = loop_timers l @ named_timers tm (timers_of es)"
    and fs: "tcp_log c = tcp_log b @ fs" "pending_timers c = pending_timers b @ timers_of fs"
    "\<And>n l. on_loop h n b l \<Longrightarrow> \<exists>l'. make_calls (client_calls h tm fs) l = (None, l') \<and>
       on_loop h n c l' \<and> loop_frame n l l' \<and> loop_timers l' = loop_timers l @ named_timers tm (timers_of fs)"
    using assms unfolding calls_work_def by blast
  have "\<exists>l''. make_calls (client_calls h tm (es @ fs)) l = (None, l'') \<and> on_loop h n c l'' \<and> loop_frame n l l'' \<and>
      loop_timers l'' = loop_timers l @ named_timers tm (timers_of (es @ fs))" if a: "on_loop h n a l" for n l
  proof -
    obtain l1 where l1: "make_calls (client_calls h tm es) l = (None, l1)" "on_loop h n b l1" "loop_frame n l l1"
      "loop_timers l1 = loop_timers l @ named_timers tm (timers_of es)" using es(3) [OF a] by blast
    obtain l2 where "make_calls (client_calls h tm fs) l1 = (None, l2)" "on_loop h n c l2" "loop_frame n l1 l2"
      "loop_timers l2 = loop_timers l1 @ named_timers tm (timers_of fs)" using fs(3) [OF l1(2)] by blast
    then show ?thesis
      using make_calls_append [OF l1(1), of "client_calls h tm fs"] loop_frame_trans [OF l1(3)] l1(4)
      by (intro exI [of _ l2]) (simp only: client_calls_simps timers_of_simps named_timers_simps append_assoc simp_thms)
  qed
  then show ?thesis using es(1,2) fs(1,2) unfolding calls_work_def by (intro exI [of _ "es @ fs"]) simp
qed

lemma calls_work_silent:
  assumes "tcp_log c' = tcp_log c @ es" and "client_calls h tm es = []" and "timers_of es = []"
    and "registered c' = registered c" and "conn_channel c' = conn_channel c" and "fd c' = fd c"
    and "pending_timers c' = pending_timers c"
  shows "calls_work h tm c c'"
proof -
  have "on_loop h n c' l" if "on_loop h n c l" for n l using that assms(4-6) by (simp add: on_loop_def)
  then have "\<exists>l'. make_calls (client_calls h tm es) l = (None, l') \<and> on_loop h n c' l' \<and> loop_frame n l l' \<and>
      loop_timers l' = loop_timers l @ named_timers tm (timers_of es)" if "on_loop h n c l" for n l
    using that assms(2,3) by (intro exI [of _ l]) simp
  then show ?thesis using assms unfolding calls_work_def by (intro exI [of _ es]) simp
qed

lemma frame_remove: "loop_channels l n \<noteq> None \<Longrightarrow> loop_interest l n \<noteq> None \<Longrightarrow> \<exists>l'. removeChannel False n l = (None, l') \<and>
    loop_interest l' n = None \<and> loop_channels l' n = None \<and> loop_frame n l l' \<and> loop_timers l' = loop_timers l"
  by (auto simp: loop_frame_def loop_defs)

lemma frame_update: "loop_interest l n \<noteq> None \<Longrightarrow> \<exists>l'. updateChannel False \<lparr>channel_fd = n, channel_events = ev\<rparr> l = (None, l') \<and>
    loop_interest l' n = Some ev \<and> loop_channels l' n = loop_channels l n \<and> loop_frame n l l' \<and> loop_timers l' = loop_timers l"
  by (auto simp: loop_frame_def loop_defs)

lemma frame_add: "loop_interest l n = None \<Longrightarrow> \<exists>l'. addChannel False \<lparr>channel_fd = n, channel_events = ev\<rparr> h l = (None, l') \<and>
    loop_interest l' n = Some ev \<and> loop_channels l' n = Some h \<and> loop_frame n l l' \<and> loop_timers l' = loop_timers l"
  by (auto simp: loop_frame_def loop_defs)

lemma calls_work_close: "calls_work h tm c (close c)"
proof (cases "fd c < 0 \<or> \<not> registered c")
  case True
  then show ?thesis
  proof (cases "fd c < 0")
    case True
    then have "close c = c" by (simp add: close_def)
    then show ?thesis using calls_work_silent [of c c "[]"] by simp
  next
    case False
    with True have "\<not> registered c" by simp
    with False have "tcp_log (close c) = tcp_log c @ [Close_fd (fd c)]" "\<not> registered (close c)"
      "conn_channel (close c) = conn_channel c" "pending_timers (close c) = pending_timers c"
      by (simp_all add: close_def loop_removeChannel_def)
    then show ?thesis
      using \<open>\<not> registered c\<close> unfolding calls_work_def by (intro exI [of _ "[Close_fd (fd c)]"]) (auto simp: on_loop_def)
  qed
next
  case False
  have close: "tcp_log (close c) = tcp_log c @ [Remove_channel (fd c), Close_fd (fd c)]" "\<not> registered (close c)"
    "conn_channel (close c) = conn_channel c" "pending_timers (close c) = pending_timers c"
    using False by (simp_all add: close_def loop_removeChannel_def)
  have "\<exists>l'. make_calls (client_calls h tm [Remove_channel (fd c), Close_fd (fd c)]) l = (None, l') \<and>
      on_loop h n (close c) l' \<and> loop_frame n l l' \<and> loop_timers l' = loop_timers l" if "on_loop h n c l" for n l
    using that False frame_remove [of l n] close(2,3) by (auto simp: on_loop_def)
  then show ?thesis
    using close unfolding calls_work_def by (intro exI [of _ "[Remove_channel (fd c), Close_fd (fd c)]"]) simp
qed

lemma calls_work_update:
  assumes "f = enableWriting \<or> f = disableWriting" and "update_interest f c = Inr c'"
  shows "calls_work h tm c c'"
proof (cases "channel_alive c")
  case False
  then have "c' = c" using assms(2) by (simp add: update_interest_def)
  then show ?thesis using calls_work_silent [of c c "[]"] by simp
next
  case True
  then have reg: "registered c" using assms(2) by (auto simp: update_interest_def loop_updateChannel_def split: if_splits)
  let ?ev = "channel_events (f (conn_channel c))"
  have ch: "channel_fd (f (conn_channel c)) = channel_fd (conn_channel c)"
    using assms(1) by (auto simp: enableWriting_def disableWriting_def)
  have c': "c' = emit [Update_channel (channel_fd (conn_channel c)) ?ev] (c\<lparr>conn_channel := f (conn_channel c)\<rparr>)"
    using assms(2) True ch by (auto simp: update_interest_def loop_updateChannel_def split: if_splits)
  have "\<exists>l'. make_calls (client_calls h tm [Update_channel (channel_fd (conn_channel c)) ?ev]) l = (None, l') \<and>
      on_loop h n c' l' \<and> loop_frame n l l' \<and> loop_timers l' = loop_timers l" if "on_loop h n c l" for n l
    using that reg frame_update [of l n ?ev] ch by (auto simp: on_loop_def c' emit_def)
  then show ?thesis
    unfolding calls_work_def by (intro exI [of _ "[Update_channel (channel_fd (conn_channel c)) ?ev]"])
      (simp add: c' emit_def)
qed

interpretation calling: connection_relation "calls_work h tm"
proof
  show "calls_work h tm c c" for c by (rule calls_work_silent [of _ _ "[]"]) simp_all
  show "calls_work h tm a c" if "calls_work h tm a b" "calls_work h tm b c" for a b c
    using that by (rule calls_work_trans)
  show "calls_work h tm c (close c)" for c by (rule calls_work_close)
  show "calls_work h tm c (markActivity now c)" for now c
    by (rule calls_work_silent [of _ _ "[Activity now]"]) (simp_all add: markActivity_def emit_def)
  show "calls_work h tm c (processRequest c)" for c
    by (rule calls_work_silent) (simp_all add: processRequest_def Let_def emit_def, auto)
  show "calls_work h tm c (sent_some m c)" for m c
    by (rule calls_work_silent) (simp_all add: sent_some_def emit_def, auto split: option.splits)
  show "calls_work h tm c (response_done c)" for c
    by (rule calls_work_silent) (simp_all add: response_done_def emit_def, auto split: option.splits)
  show "calls_work h tm c c'" if "f = enableWriting \<or> f = disableWriting" "update_interest f c = Inr c'" for f c c'
    using that by (rule calls_work_update)
  show "calls_work h tm c (emit [Received d] (c\<lparr>input_buffer := append_data d (input_buffer c)\<rparr>))" for c d
    by (rule calls_work_silent [of _ _ "[Received d]"]) (simp_all add: emit_def)
  show "calls_work h tm c (c\<lparr>peer_closed := True\<rparr>)" for c
    by (rule calls_work_silent [of _ _ "[]"]) simp_all
  show "calls_work h tm c (accept_response i r cl c)" for i r cl c
    by (rule calls_work_silent) (simp_all add: accept_response_def emit_def, auto)
qed

lemma calls_work_schedule: "calls_work h tm c (scheduleIdleCheck t c)"
proof -
  have "\<exists>l'. make_calls (client_calls h tm [Run_at t (idle_generation c)]) l = (None, l') \<and>
      on_loop h n (scheduleIdleCheck t c) l' \<and> loop_frame n l l' \<and>
      loop_timers l' = loop_timers l @ named_timers tm [(t, idle_generation c)]" if "on_loop h n c l" for n l
    using that by (simp add: on_loop_def scheduleIdleCheck_def loop_frame_def runAt_def addTimer_def)
  then show ?thesis
    unfolding calls_work_def by (intro exI [of _ "[Run_at t (idle_generation c)]"]) (simp add: scheduleIdleCheck_def)
qed

text \<open>The state in which an event is handled: a timer that fires is no longer pending.\<close>

fun before_event :: "tcp_event \<Rightarrow> tcp_connection \<Rightarrow> tcp_connection" where
  "before_event (Timer d g now) c = c\<lparr>pending_timers := remove1 (d, g) (pending_timers c)\<rparr>"
| "before_event ev c = c"

lemma step_calls_work:
  assumes "tcp_step ev c = Inr c'"
  shows "calls_work h tm (before_event ev c) c'"
proof (cases ev)
  case (Timer d g now)
  with assms have "c' = closeIfIdle g now (before_event ev c)" by simp
  then show ?thesis by (auto simp: closeIfIdle_def calling.refl calling.closing calls_work_schedule)
qed (use assms calling.dispatching calling.finish in auto)

lemma on_loop_before [simp]: "on_loop h n (before_event ev c) l = on_loop h n c l"
  by (cases ev) (simp_all add: on_loop_def)

lemma before_event_log [simp]: "tcp_log (before_event ev c) = tcp_log c"
  by (cases ev) simp_all

text \<open>A new connection on a loop that does not know its descriptor.\<close>

lemma establish_calls:
  assumes "loop_channels l n = None" and "loop_interest l n = None"
  shows "\<exists>l'. replay h tm (tcp_log (establish t0 (TcpConnection n timeout lat))) l = (None, l') \<and>
    on_loop h n (establish t0 (TcpConnection n timeout lat)) l' \<and> loop_frame n l l' \<and>
    loop_timers l' = loop_timers l @ named_timers tm (pending_timers (establish t0 (TcpConnection n timeout lat)))"
proof -
  let ?ev = "channel_events (enableReading (new_channel n))" and ?c = "establish t0 (TcpConnection n timeout lat)"
  have c: "tcp_log ?c = [Add_channel n ?ev, Activity t0, Run_at (t0 + timeout) 1]" "pending_timers ?c = [(t0 + timeout, 1)]"
    "registered ?c" "fd ?c = n" "conn_channel ?c = enableReading (new_channel n)"
    by (simp_all add: establish_def Let_def loop_addChannel_def scheduleIdleCheck_def markActivity_def emit_def TcpConnection_def)
  obtain l' where l': "addChannel False \<lparr>channel_fd = n, channel_events = ?ev\<rparr> (Handler h) l = (None, l')"
    "loop_interest l' n = Some ?ev" "loop_channels l' n = Some (Handler h)" "loop_frame n l l'" "loop_timers l' = loop_timers l"
    using frame_add [OF assms(2)] by blast
  have "channel_fd (enableReading (new_channel n)) = n" by (simp add: enableReading_def new_channel_def)
  with l' show ?thesis
    by (simp add: replay_def c on_loop_def loop_frame_def runAt_def addTimer_def)
qed

lemma steps_on_loop:
  assumes "tcp_steps c0 evs c" and "replay h tm (tcp_log c0) l0 = (None, l)" and "on_loop h n c0 l"
  shows "\<exists>l'. replay h tm (tcp_log c) l0 = (None, l') \<and> on_loop h n c l' \<and> loop_frame n l l'"
  using assms
proof (induction rule: tcp_steps.induct)
  case (start c)
  then show ?case by auto
next
  case (step c evs c1 ev c2)
  then obtain l1 where l1: "replay h tm (tcp_log c1) l0 = (None, l1)" "on_loop h n c1 l1" "loop_frame n l l1" by blast
  obtain es l2 where "tcp_log c2 = tcp_log c1 @ es" "make_calls (client_calls h tm es) l1 = (None, l2)"
    "on_loop h n c2 l2" "loop_frame n l1 l2"
    using step_calls_work [OF step.hyps(3), of h tm] l1(2) unfolding calls_work_def by fastforce
  then show ?case using l1 make_calls_append loop_frame_trans by (fastforce simp: replay_def)
qed

text \<open>The connection's calls on the loop succeed and mean what it believes: for a loop that does not
  know the descriptor, in every reachable state of the connection its log of calls, replayed on the loop's
  table of channels and epoll's interest list, raises no exception; afterwards the descriptor is in both,
  with exactly the events of the connection's channel, if the connection is registered, and in neither if
  it is not; and no other descriptor was touched.\<close>

theorem connection_runs_on_the_loop:
  assumes "loop_channels l0 n = None" and "loop_interest l0 n = None"
    and "tcp_steps (establish t0 (TcpConnection n timeout lat)) evs c"
  shows "\<exists>l. replay h tm (tcp_log c) l0 = (None, l) \<and>
    loop_interest l n = (if registered c then Some (channel_events (conn_channel c)) else None) \<and>
    loop_channels l n = (if registered c then Some (Handler h) else None) \<and>
    (\<forall>m. m \<noteq> n \<longrightarrow> loop_interest l m = loop_interest l0 m \<and> loop_channels l m = loop_channels l0 m)"
proof -
  obtain l1 where l1: "replay h tm (tcp_log (establish t0 (TcpConnection n timeout lat))) l0 = (None, l1)"
    "on_loop h n (establish t0 (TcpConnection n timeout lat)) l1" "loop_frame n l0 l1"
    using establish_calls [OF assms(1,2)] by blast
  from steps_on_loop [OF assms(3) l1(1,2)] obtain l where "replay h tm (tcp_log c) l0 = (None, l)" "on_loop h n c l" "loop_frame n l1 l"
    by blast
  then show ?thesis using l1(3) by (auto simp: on_loop_def loop_frame_def)
qed

lemma connection_runs_on_the_loop_witness:
  "\<exists>l. replay () (\<lambda>g. ()) (tcp_log (run_events conversation conn0)) (snd (EventLoop (projr (Epoller 3 16)) False 4)) = (None, l)"
proof -
  have "loop_channels (snd (EventLoop (projr (Epoller 3 16)) False 4 :: unit loop_result)) 7 = None"
    "loop_interest (snd (EventLoop (projr (Epoller 3 16)) False 4 :: unit loop_result)) 7 = None"
    by code_simp+
  from connection_runs_on_the_loop [OF this conversation_steps [unfolded conn0_def], of "()" "\<lambda>g. ()"] show ?thesis
    unfolding conn0_def by blast
qed

end
