(* ===== verification/IoLoop.thy ===== *)
theory IoLoop
  imports ServerPipeline LoopConnection EventLoopRun
begin

text \<open>
  One event loop with all its connections, put together from \<open>EventLoopRun\<close> and \<open>TcpConnection\<close> as
  \<open>src/main.cpp\<close> (the task that the accept callback queues) and \<open>src/net/TcpConnection.cpp\<close> (the callbacks
  that a connection gives to its loop, and the completion of a request) put them together. A step of the
  loop thread that starts a callback also runs it: the connection acts, its calls are made on the loop, and
  its submissions become outstanding jobs. Other threads only push tasks and write the eventfd, which
  commutes with the body of a callback. Connections are numbered as they are established.

  What epoll reports, when a descriptor number is used again, and that the steady clock does not go
  back is all that is assumed; that each event may happen to the connection it reaches is proved.
\<close>

section \<open>Model\<close>

datatype io_client = New_connection int | Delivery nat u64 string bool | Connection nat | Idle_check nat u64

type_synonym job = "nat \<times> u64 \<times> string"

record io_loop =
  io_run :: "io_client loop_run"
  conns :: "tcp_connection list"
  outstanding :: "job list"
  clock :: time_point

text \<open>What a callback meets: the results of its calls of \<open>recv\<close> and \<open>send\<close>, and two readings of the clock.\<close>

record io_env =
  env_recvs :: "recv_result list"
  env_sends :: "send_result list"
  env_read :: time_point
  env_write :: time_point

datatype io_event =
  Accepted int | Completed job string bool bool | Loop_thread "io_client loop_event" io_env

abbreviation io_tasks :: "io_loop \<Rightarrow> io_client list" where
  "io_tasks s \<equiv> batch (io_run s) @ pending_tasks (the_loop (io_run s))"

text \<open>Sixty seconds, in nanoseconds.\<close>

definition connection_timeout :: int where
  "connection_timeout = 60 * 1000000000"

definition raise_loop :: "loop_exception \<Rightarrow> io_loop \<Rightarrow> io_loop" where
  "raise_loop e s = s\<lparr>io_run := goto (Raised e) (io_run s)\<rparr>"

definition return_callback :: "'c loop_run \<Rightarrow> 'c loop_run" where
  "return_callback r = (case place r of In_callback p \<Rightarrow> goto p r | _ \<Rightarrow> r)"

text \<open>The connection \<open>k\<close>, which was \<open>c\<close>, has acted: its calls are made on the loop and its requests
  submitted. An exception leaves the callback.\<close>

definition finish_callback :: "nat \<Rightarrow> tcp_connection \<Rightarrow> loop_error + tcp_connection \<Rightarrow> io_loop \<Rightarrow> io_loop" where
  "finish_callback k c result s =
    (case result of
       Inl e \<Rightarrow> raise_loop (Epoller_raised Ctl_update_failed) s
     | Inr c' \<Rightarrow>
         (case replay (Connection k) (Idle_check k) (drop (length (tcp_log c)) (tcp_log c')) (the_loop (io_run s)) of
            (err, l) \<Rightarrow>
              let s' = s\<lparr>conns := (conns s)[k := c'], outstanding := outstanding s @ map (Pair k) (new_jobs c c'),
                         io_run := (io_run s)\<lparr>the_loop := l\<rparr>\<rparr>
              in case err of None \<Rightarrow> s'\<lparr>io_run := return_callback (io_run s')\<rparr> | Some e \<Rightarrow> raise_loop e s'))"

datatype io_callback = Ready_callback io_client u32 | Task_callback io_client | Timer_callback "io_client timer"

text \<open>The callback that the loop is in after a step that started one.\<close>

definition started_callback ::
    "(io_client timer_queue \<Rightarrow> nat) \<Rightarrow> io_client loop_run \<Rightarrow> io_client loop_run \<Rightarrow> io_callback option" where
  "started_callback pick before r =
    (case place r of
       In_callback (Dispatching rest) \<Rightarrow> (case last (invoked r) of (n, revents, x) \<Rightarrow> Some (Ready_callback x revents))
     | In_callback (Running_tasks rest) \<Rightarrow> Some (Task_callback (last (executed r)))
     | In_callback (Running_timers now) \<Rightarrow> Some (Timer_callback (timer_top pick (loop_timers (the_loop before))))
     | _ \<Rightarrow> None)"

text \<open>The bodies of the callbacks: of a channel, of the task that the accept callback queues, of the task that
  a completed request queues, and of a timer.\<close>

definition handle_ready :: "io_env \<Rightarrow> nat \<Rightarrow> u32 \<Rightarrow> io_loop \<Rightarrow> io_loop" where
  "handle_ready env k revents s =
    finish_callback k (conns s ! k)
      (tcp_step (Dispatch revents (env_recvs env) (env_sends env) (env_read env) (env_write env)) (conns s ! k)) s"

definition establish_connection :: "bool \<Rightarrow> io_env \<Rightarrow> int \<Rightarrow> io_loop \<Rightarrow> io_loop" where
  "establish_connection lat env n s =
    (let c = TcpConnection n connection_timeout lat
     in finish_callback (length (conns s)) c (Inr (establish (env_write env) c)) (s\<lparr>conns := conns s @ [c]\<rparr>))"

definition deliver_result :: "io_env \<Rightarrow> nat \<Rightarrow> u64 \<Rightarrow> string \<Rightarrow> bool \<Rightarrow> io_loop \<Rightarrow> io_loop" where
  "deliver_result env k i r cl s =
    finish_callback k (conns s ! k) (tcp_step (Finish i r cl (env_sends env) (env_write env)) (conns s ! k)) s"

definition check_idle :: "io_env \<Rightarrow> nat \<Rightarrow> time_point \<Rightarrow> u64 \<Rightarrow> io_loop \<Rightarrow> io_loop" where
  "check_idle env k d g s = finish_callback k (conns s ! k) (tcp_step (Timer d g (env_write env)) (conns s ! k)) s"

lemmas callback_bodies = handle_ready_def establish_connection_def deliver_result_def check_idle_def

text \<open>A callback of a wrong kind would be an exception; there is none.\<close>

fun run_callback :: "bool \<Rightarrow> io_env \<Rightarrow> io_callback \<Rightarrow> io_loop \<Rightarrow> io_loop" where
  "run_callback lat env (Ready_callback (Connection k) revents) s = handle_ready env k revents s"
| "run_callback lat env (Task_callback (New_connection n)) s = establish_connection lat env n s"
| "run_callback lat env (Task_callback (Delivery k i r cl)) s = deliver_result env k i r cl s"
| "run_callback lat env (Timer_callback t) s =
     (case callback t of Idle_check k g \<Rightarrow> check_idle env k (deadline t) g s | _ \<Rightarrow> raise_loop Eventfd_failed s)"
| "run_callback lat env cb s = raise_loop Eventfd_failed s"

definition push_task :: "io_client \<Rightarrow> io_loop \<Rightarrow> io_loop" where
  "push_task t s =
    (let r = io_run s
     in s\<lparr>io_run := r\<lparr>the_loop := queue_push t (the_loop r), writers := writers r + 1, pushed := pushed r @ [t]\<rparr>\<rparr>)"

definition new_fds :: "io_client list \<Rightarrow> int list" where
  "new_fds ts = concat (map (\<lambda>t. case t of New_connection n \<Rightarrow> [n] | _ \<Rightarrow> []) ts)"

text \<open>The descriptors in use: of open connections, of connections to come, and the loop's own.\<close>

definition held_fds :: "io_loop \<Rightarrow> int list" where
  "held_fds s =
    (let l = the_loop (io_run s)
     in map fd (filter registered (conns s)) @ new_fds (io_tasks s) @ [wakeup_fd l, epoll_fd (loop_epoller l)])"

fun loop_thread_event :: "'c loop_event \<Rightarrow> bool" where
  "loop_thread_event (Push t) = False"
| "loop_thread_event (Call c) = False"
| "loop_thread_event Callback_returns = False"
| "loop_thread_event e = True"

definition readings :: "'c loop_event \<Rightarrow> io_env \<Rightarrow> time_point \<times> time_point" where
  "readings e env = (case e of Poll now r \<Rightarrow> (now, now) | Timers now \<Rightarrow> (now, now) | _ \<Rightarrow> (env_read env, env_write env))"

text \<open>A step: the kernel hands out a new descriptor and its connection is queued; a worker completes a
  job, with a result that \<open>answers\<close> allows, and queues the delivery unless the connection object is gone,
  which is only possible when the loop holds it no longer; or a step of the loop thread (or the second half
  of another thread's wake-up), with the callback it starts.\<close>

fun io_step ::
    "(io_client timer_queue \<Rightarrow> nat) \<Rightarrow> bool \<Rightarrow> (string \<Rightarrow> string \<times> bool \<Rightarrow> bool) \<Rightarrow> io_event \<Rightarrow> io_loop \<Rightarrow> io_loop option" where
  "io_step pick lat answers (Accepted n) s =
     (if n < 0 \<or> n \<in> set (held_fds s) then None else Some (push_task (New_connection n) s))"
| "io_step pick lat answers (Completed (k, i, q) r cl gone) s =
     (if (k, i, q) \<notin> set (outstanding s) \<or> \<not> answers q (r, cl) \<or> gone \<and> registered (conns s ! k) then None
      else let s' = s\<lparr>outstanding := remove1 (k, i, q) (outstanding s)\<rparr>
           in Some (if gone then s' else push_task (Delivery k i r cl) s'))"
| "io_step pick lat answers (Loop_thread e env) s =
     (if \<not> loop_thread_event e \<or> fst (readings e env) < clock s \<or> snd (readings e env) < fst (readings e env) then None
      else case loop_step pick e (io_run s) of
        None \<Rightarrow> None
      | Some r \<Rightarrow>
          let s' = s\<lparr>io_run := r, clock := snd (readings e env)\<rparr>
          in case started_callback pick (io_run s) r of
               None \<Rightarrow> Some s'
             | Some cb \<Rightarrow> Some (run_callback lat env cb s'))"

definition io_start :: "io_client event_loop \<Rightarrow> time_point \<Rightarrow> io_loop" where
  "io_start l t0 = \<lparr>io_run = start_run l, conns = [], outstanding = [], clock = t0\<rparr>"

section \<open>Invariant\<close>

text \<open>The table of channels holds exactly the open connections, and what each believes.\<close>

definition registry_inv :: "io_loop \<Rightarrow> bool" where
  "registry_inv s \<longleftrightarrow> 0 \<le> wakeup_fd (the_loop (io_run s)) \<and>
     (\<forall>k < length (conns s). registered (conns s ! k) \<longrightarrow>
        on_loop (Connection k) (fd (conns s ! k)) (conns s ! k) (the_loop (io_run s))) \<and>
     (\<forall>n x. loop_channels (the_loop (io_run s)) n = Some (Handler x) \<longrightarrow>
        (\<exists>k < length (conns s). x = Connection k \<and> registered (conns s ! k) \<and> fd (conns s ! k) = n))"

text \<open>The tasks: new connections have descriptors of their own, which the loop does not know yet.\<close>

fun task_ok :: "nat \<Rightarrow> io_client \<Rightarrow> bool" where
  "task_ok m (New_connection n) = (0 \<le> n)"
| "task_ok m (Delivery k i r cl) = (k < m)"
| "task_ok m x = False"

definition tasks_inv :: "io_loop \<Rightarrow> bool" where
  "tasks_inv s \<longleftrightarrow>
     distinct (new_fds (io_tasks s)) \<and> list_all (task_ok (length (conns s))) (io_tasks s) \<and>
     (\<forall>n \<in> set (new_fds (io_tasks s)). loop_channels (the_loop (io_run s)) n = None) \<and>
     (\<forall>j \<in> set (outstanding s). fst j < length (conns s))"

text \<open>The loop's timers are the pending timers of the connections.\<close>

fun idle_checks :: "nat \<Rightarrow> io_client timer \<Rightarrow> (time_point \<times> u64) multiset" where
  "idle_checks k t = (case callback t of Idle_check j g \<Rightarrow> if j = k then {#(deadline t, g)#} else {#} | _ \<Rightarrow> {#})"

fun timer_ok :: "nat \<Rightarrow> io_client timer \<Rightarrow> bool" where
  "timer_ok m t = (case callback t of Idle_check k g \<Rightarrow> k < m | _ \<Rightarrow> False)"

declare idle_checks.simps [simp del] timer_ok.simps [simp del]

definition timers_inv :: "io_loop \<Rightarrow> bool" where
  "timers_inv s \<longleftrightarrow>
     list_all (timer_ok (length (conns s))) (loop_timers (the_loop (io_run s))) \<and>
     (\<forall>k < length (conns s).
        mset (pending_timers (conns s ! k)) = (\<Sum>t\<leftarrow>loop_timers (the_loop (io_run s)). idle_checks k t))"

definition clock_inv :: "io_loop \<Rightarrow> bool" where
  "clock_inv s \<longleftrightarrow> (\<forall>k < length (conns s). last_activity_at (conns s ! k) \<le> clock s)"

text \<open>The reports not yet dispatched: write readiness only where a connection wants it. Until the
  tasks have been taken they are all about open connections or the wake-up descriptor; a
  connection established by one of the tasks is not among them, also if its descriptor was in use before.\<close>

definition reports_ok :: "io_loop \<Rightarrow> (int \<times> u32) list \<Rightarrow> bool" where
  "reports_ok s evs \<longleftrightarrow> distinct (map fst evs) \<and>
     (\<forall>k < length (conns s). \<forall>n revents. registered (conns s ! k) \<and> fd (conns s ! k) = n \<and> (n, revents) \<in> set evs \<and>
        bit revents 2 \<longrightarrow> wants_write (conn_channel (conns s ! k)))"

lemma reports_okD:
  "reports_ok s evs \<Longrightarrow> k < length (conns s) \<Longrightarrow> registered (conns s ! k) \<Longrightarrow> (fd (conns s ! k), revents) \<in> set evs \<Longrightarrow>
    bit revents 2 \<Longrightarrow> wants_write (conn_channel (conns s ! k))"
  unfolding reports_ok_def by blast

definition all_known :: "io_loop \<Rightarrow> (int \<times> u32) list \<Rightarrow> bool" where
  "all_known s evs \<longleftrightarrow> (\<forall>n \<in> fst ` set evs. loop_channels (the_loop (io_run s)) n \<noteq> None)"

fun place_inv :: "place \<Rightarrow> io_loop \<Rightarrow> bool" where
  "place_inv (Dispatching evs) s \<longleftrightarrow> reports_ok s evs \<and> (wakeup_fd (the_loop (io_run s)) \<in> fst ` set evs \<longrightarrow> all_known s evs)"
| "place_inv (Reading evs) s \<longleftrightarrow> reports_ok s evs \<and> all_known s evs \<and> wakeup_fd (the_loop (io_run s)) \<notin> fst ` set evs"
| "place_inv (Swapping evs) s \<longleftrightarrow> reports_ok s evs \<and> all_known s evs \<and> wakeup_fd (the_loop (io_run s)) \<notin> fst ` set evs"
| "place_inv (Running_tasks evs) s \<longleftrightarrow> reports_ok s evs \<and> wakeup_fd (the_loop (io_run s)) \<notin> fst ` set evs \<and>
     set (new_fds (batch (io_run s))) \<inter> fst ` set evs = {}"
| "place_inv (Running_timers now) s \<longleftrightarrow> now \<le> clock s"
| "place_inv (In_callback p) s \<longleftrightarrow> False"
| "place_inv (Raised e) s \<longleftrightarrow> e = Epoller_raised Epoll_wait_failed"
| "place_inv p s \<longleftrightarrow> True"

text \<open>Every connection is a run of the pipeline of \<open>ServerPipeline\<close>, with its part of the outstanding jobs
  and of the queued deliveries while it is open.\<close>

definition jobs_of :: "nat \<Rightarrow> io_loop \<Rightarrow> (u64 \<times> string) list" where
  "jobs_of k s = map snd (filter (\<lambda>j. fst j = k) (outstanding s))"

fun delivery :: "nat \<Rightarrow> io_client \<Rightarrow> (u64 \<times> string \<times> bool) list" where
  "delivery k (Delivery j i r cl) = (if j = k then [(i, r, cl)] else [])"
| "delivery k t = []"

definition results_of :: "nat \<Rightarrow> io_loop \<Rightarrow> (u64 \<times> string \<times> bool) list" where
  "results_of k s = concat (map (delivery k) (io_tasks s))"

definition pipeline_run ::
    "(string \<Rightarrow> string \<times> bool \<Rightarrow> bool) \<Rightarrow> bool \<Rightarrow> tcp_connection \<Rightarrow> (u64 \<times> string) list \<Rightarrow> (u64 \<times> string \<times> bool) list \<Rightarrow> bool" where
  "pipeline_run answers lat c js rs \<longleftrightarrow>
     (\<exists>n t0 evs sys. 0 \<le> n \<and> run_steps (system_step answers) evs (system_start n t0 connection_timeout lat) = Some sys \<and>
        conn sys = c \<and> (registered c \<longrightarrow> jobs sys = js \<and> results sys = rs))"

definition pipelines_inv :: "(string \<Rightarrow> string \<times> bool \<Rightarrow> bool) \<Rightarrow> bool \<Rightarrow> io_loop \<Rightarrow> bool" where
  "pipelines_inv answers lat s \<longleftrightarrow>
     (\<forall>k < length (conns s). pipeline_run answers lat (conns s ! k) (jobs_of k s) (results_of k s))"

text \<open>The invariant, with the place that the loop is in or returns to.\<close>

definition io_inv_at :: "(string \<Rightarrow> string \<times> bool \<Rightarrow> bool) \<Rightarrow> bool \<Rightarrow> place \<Rightarrow> io_loop \<Rightarrow> bool" where
  "io_inv_at answers lat p s \<longleftrightarrow>
     loop_inv (io_run s) \<and> registry_inv s \<and> tasks_inv s \<and> timers_inv s \<and> clock_inv s \<and> place_inv p s \<and>
     pipelines_inv answers lat s"

definition io_inv :: "(string \<Rightarrow> string \<times> bool \<Rightarrow> bool) \<Rightarrow> bool \<Rightarrow> io_loop \<Rightarrow> bool" where
  "io_inv answers lat s \<longleftrightarrow> io_inv_at answers lat (place (io_run s)) s"

lemmas io_defs = io_inv_at_def registry_inv_def tasks_inv_def timers_inv_def clock_inv_def reports_ok_def all_known_def
  pipelines_inv_def

subsection \<open>Pipelines\<close>

lemma pipeline_run_system:
  assumes "pipeline_run answers lat c js rs"
  shows "\<exists>sys. system_inv answers sys \<and> conn sys = c \<and> (registered c \<longrightarrow> jobs sys = js \<and> results sys = rs)"
  using assms pipeline.run_keeps [OF _ system_start_inv] unfolding pipeline_run_def by blast

lemma pipeline_run_ctl:
  assumes "pipeline_run answers lat c js rs"
  shows "conn_ctl c" and "conn_stream c"
  using pipeline_run_system [OF assms] by (auto simp: system_inv_def)

lemma run_steps_extend:
  "run_steps step es s = Some t \<Longrightarrow> step e t = Some u \<Longrightarrow> run_steps step (es @ [e]) s = Some u"
  by (simp add: run_steps_append)

lemma pipeline_run_io:
  assumes run: "pipeline_run answers lat c js rs" and ev: "\<not> is_result ev" "tcp_enabled ev c" "tcp_step ev c = Inr c'"
  shows "pipeline_run answers lat c' (js @ new_jobs c c') rs"
proof -
  obtain n t0 evs sys where n: "0 \<le> n" and
    sys: "run_steps (system_step answers) evs (system_start n t0 connection_timeout lat) = Some sys" "conn sys = c"
    "registered c \<longrightarrow> jobs sys = js \<and> results sys = rs" using run unfolding pipeline_run_def by blast
  have "system_step answers (Io ev) sys = Some (sys\<lparr>conn := c', jobs := jobs sys @ new_jobs c c'\<rparr>)"
    using ev sys(2) by (simp add: connection_step_def)
  from run_steps_extend [OF sys(1) this]
  have "run_steps (system_step answers) (evs @ [Io ev]) (system_start n t0 connection_timeout lat) =
      Some (sys\<lparr>conn := c', jobs := jobs sys @ new_jobs c c'\<rparr>)" .
  moreover have "registered c" if "registered c'"
  proof (rule ccontr)
    assume no: "\<not> registered c"
    have "fd c < 0" using no pipeline_run_ctl(1) [OF run] unfolding conn_ctl_def conn_base_def by (meson not_le)
    from closed_stays [OF pipeline_run_ctl(1) [OF run] this ev(2,3)] have "fd c' < 0" by blast
    moreover have "conn_ctl c'" using tcp_step_ctl [OF pipeline_run_ctl(1) [OF run] ev(2)] ev(3) by auto
    ultimately show False using that unfolding conn_ctl_def conn_base_def by linarith
  qed
  ultimately show ?thesis
    unfolding pipeline_run_def using sys(3) n
    by (intro exI [of _ n] exI [of _ t0] exI [of _ "evs @ [Io ev]"] exI [of _ "sys\<lparr>conn := c', jobs := jobs sys @ new_jobs c c'\<rparr>"]) simp
qed

lemma pipeline_run_deliver:
  assumes run: "pipeline_run answers lat c js ((i, r, cl) # rs)" and open_conn: "registered c"
    and ev: "tcp_enabled (Finish i r cl ss now) c" "tcp_step (Finish i r cl ss now) c = Inr c'"
  shows "pipeline_run answers lat c' (js @ new_jobs c c') rs"
proof -
  obtain n t0 evs sys where n: "0 \<le> n" and
    sys: "run_steps (system_step answers) evs (system_start n t0 connection_timeout lat) = Some sys" "conn sys = c"
    "jobs sys = js" "results sys = (i, r, cl) # rs" using run open_conn unfolding pipeline_run_def by blast
  let ?sys = "sys\<lparr>conn := c', jobs := js @ new_jobs c c', results := rs\<rparr>"
  have "system_step answers (Deliver ss now) sys = Some ?sys"
    using ev sys(2-4) by (simp add: connection_step_def)
  from run_steps_extend [OF sys(1) this] show ?thesis
    unfolding pipeline_run_def using n
    by (intro exI [of _ n] exI [of _ t0] exI [of _ "evs @ [Deliver ss now]"] exI [of _ ?sys]) simp
qed

lemma remove1_index: "x \<in> set xs \<Longrightarrow> \<exists>j < length xs. xs ! j = x \<and> take j xs @ drop (Suc j) xs = remove1 x xs"
proof (induction xs)
  case (Cons y ys)
  show ?case
  proof (cases "x = y")
    case True
    then show ?thesis by (intro exI [of _ 0]) simp
  next
    case False
    with Cons obtain j where "j < length ys" "ys ! j = x" "take j ys @ drop (Suc j) ys = remove1 x ys" by auto
    with False show ?thesis by (intro exI [of _ "Suc j"]) simp
  qed
qed simp

lemma pipeline_run_work:
  assumes run: "pipeline_run answers lat c js rs" and job: "(i, q) \<in> set js" "answers q (r, cl)"
  shows "pipeline_run answers lat c (remove1 (i, q) js) (rs @ [(i, r, cl)])"
proof -
  obtain n t0 evs sys where n: "0 \<le> n" and
    sys: "run_steps (system_step answers) evs (system_start n t0 connection_timeout lat) = Some sys" "conn sys = c"
    "registered c \<longrightarrow> jobs sys = js \<and> results sys = rs" using run unfolding pipeline_run_def by blast
  show ?thesis
  proof (cases "registered c")
    case False
    then show ?thesis using n sys unfolding pipeline_run_def by blast
  next
    case True
    obtain j where j: "j < length js" "js ! j = (i, q)" "take j js @ drop (Suc j) js = remove1 (i, q) js"
      using remove1_index [OF job(1)] by blast
    let ?sys = "sys\<lparr>jobs := remove1 (i, q) js, results := rs @ [(i, r, cl)]\<rparr>"
    have "system_step answers (Work j r cl) sys = Some ?sys" using True sys(3) j job(2) by simp
    from run_steps_extend [OF sys(1) this] show ?thesis
      unfolding pipeline_run_def using n sys(2)
      by (intro exI [of _ n] exI [of _ t0] exI [of _ "evs @ [Work j r cl]"] exI [of _ ?sys]) simp
  qed
qed

lemma pipeline_run_closed:
  "pipeline_run answers lat c js rs \<Longrightarrow> \<not> registered c \<Longrightarrow> pipeline_run answers lat c js' rs'"
  unfolding pipeline_run_def by blast

lemma pipeline_run_start: "0 \<le> n \<Longrightarrow> pipeline_run answers lat (establish t0 (TcpConnection n connection_timeout lat)) [] []"
  unfolding pipeline_run_def
  by (intro exI [of _ n] exI [of _ t0] exI [of _ "[]"] exI [of _ "system_start n t0 connection_timeout lat"]) (simp add: system_start_def)

subsection \<open>What a callback leaves\<close>

fun reports :: "place \<Rightarrow> (int \<times> u32) list" where
  "reports (Dispatching evs) = evs"
| "reports (Reading evs) = evs"
| "reports (Swapping evs) = evs"
| "reports (Running_tasks evs) = evs"
| "reports p = []"

fun while_tasks :: "place \<Rightarrow> bool" where
  "while_tasks (Running_tasks evs) = True"
| "while_tasks p = False"

text \<open>The state in which connection \<open>k\<close> acts. What it is about to leave is not yet required of it.\<close>

definition other_connections ::
    "(string \<Rightarrow> string \<times> bool \<Rightarrow> bool) \<Rightarrow> bool \<Rightarrow> nat \<Rightarrow> int \<Rightarrow> io_loop \<Rightarrow> bool" where
  "other_connections answers lat k n s \<longleftrightarrow>
     (\<forall>j < length (conns s). j \<noteq> k \<longrightarrow>
        (registered (conns s ! j) \<longrightarrow> fd (conns s ! j) \<noteq> n \<and>
           on_loop (Connection j) (fd (conns s ! j)) (conns s ! j) (the_loop (io_run s))) \<and>
        mset (pending_timers (conns s ! j)) = (\<Sum>t\<leftarrow>loop_timers (the_loop (io_run s)). idle_checks j t) \<and>
        last_activity_at (conns s ! j) \<le> clock s \<and>
        pipeline_run answers lat (conns s ! j) (jobs_of j s) (results_of j s)) \<and>
     (\<forall>m x. m \<noteq> n \<and> loop_channels (the_loop (io_run s)) m = Some (Handler x) \<longrightarrow>
        (\<exists>j < length (conns s). j \<noteq> k \<and> x = Connection j \<and> registered (conns s ! j) \<and> fd (conns s ! j) = m))"

lemma idle_checks_named [simp]:
  "(\<Sum>t\<leftarrow>named_timers (Idle_check k) ts. idle_checks j t) = (if j = k then mset ts else {#})"
  by (induction ts) (auto simp: named_timers_def idle_checks.simps)

lemma timer_ok_named [simp]: "k < m \<Longrightarrow> list_all (timer_ok m) (named_timers (Idle_check k) ts)"
  by (auto simp: named_timers_def list_all_iff timer_ok.simps)

lemma loop_inv_calls:
  assumes "loop_inv r" and "loop_frame n (the_loop r) l'" and "place r = In_callback p" and "n \<noteq> wakeup_fd (the_loop r)"
    and "on_loop h n c l'"
  shows "loop_inv (goto p (r\<lparr>the_loop := l'\<rparr>))"
proof -
  have "loop_inv (goto p r)" by (rule inv_return [OF assms(1,3)])
  moreover have "wakeup_registered l' = wakeup_registered (the_loop r)" if "wakeup_registered (the_loop r)"
    using assms(2,4,5) that unfolding loop_frame_def on_loop_def wakeup_registered_def
    by (metis handler.distinct(1) option.distinct(1) option.inject)
  moreover have "dom (loop_interest l') \<subseteq> dom (loop_channels l')"
    if "dom (loop_interest (the_loop r)) \<subseteq> dom (loop_channels (the_loop r))"
  proof
    fix m assume "m \<in> dom (loop_interest l')"
    moreover have "m \<noteq> n \<Longrightarrow> loop_interest l' m = loop_interest (the_loop r) m \<and> loop_channels l' m = loop_channels (the_loop r) m"
      using assms(2) by (simp add: loop_frame_def)
    ultimately show "m \<in> dom (loop_channels l')"
      using that assms(5) by (cases "m = n") (auto simp: on_loop_def domIff split: if_splits)
  qed
  ultimately show ?thesis using assms(2) unfolding loop_inv_def loop_frame_def by simp
qed

lemma on_loop_frame:
  "on_loop h m c l \<Longrightarrow> loop_frame n l l' \<Longrightarrow> m \<noteq> n \<Longrightarrow> on_loop h m c l'"
  by (simp add: on_loop_def loop_frame_def)

lemma jobs_of_append: "jobs_of j (s\<lparr>outstanding := outstanding s @ map (Pair k) xs\<rparr>) = jobs_of j s @ (if j = k then xs else [])"
  by (induction xs) (auto simp: jobs_of_def)

lemma finish_callback_inv:
  assumes place: "place (io_run s) = In_callback p" and k: "k < length (conns s)"
    and calls: "replay (Connection k) (Idle_check k) (drop (length (tcp_log c)) (tcp_log c')) (the_loop (io_run s)) = (None, l')"
      "on_loop (Connection k) n c' l'" "loop_frame n (the_loop (io_run s)) l'"
      "loop_timers l' = loop_timers (the_loop (io_run s)) @ named_timers (Idle_check k) ts"
    and pending: "mset (pending_timers c') = (\<Sum>t\<leftarrow>loop_timers (the_loop (io_run s)). idle_checks k t) + mset ts"
    and n: "n \<noteq> wakeup_fd (the_loop (io_run s))" "n \<notin> set (new_fds (io_tasks s))"
    and wake: "0 \<le> wakeup_fd (the_loop (io_run s))"
    and base: "loop_inv (io_run s)" "tasks_inv s" "list_all (timer_ok (length (conns s))) (loop_timers (the_loop (io_run s)))"
    and others: "other_connections answers lat k n s"
    and self: "last_activity_at c' \<le> clock s" "pipeline_run answers lat c' (jobs_of k s @ new_jobs c c') (results_of k s)"
    and at: "place_inv p s"
      "\<And>revents. (n, revents) \<in> set (reports p) \<Longrightarrow>
        while_tasks p \<and> (registered c' \<and> bit revents 2 \<longrightarrow> wants_write (conn_channel c'))"
  shows "io_inv answers lat (finish_callback k c (Inr c') s)"
proof -
  let ?l = "the_loop (io_run s)"
  define s' where "s' = s\<lparr>conns := (conns s)[k := c'], outstanding := outstanding s @ map (Pair k) (new_jobs c c'),
    io_run := goto p ((io_run s)\<lparr>the_loop := l'\<rparr>)\<rparr>"
  have s': "finish_callback k c (Inr c') s = s'"
    using calls(1) place by (simp add: finish_callback_def s'_def return_callback_def goto_def)
  have frame: "pending_tasks l' = pending_tasks ?l" "wakeup_fd l' = wakeup_fd ?l"
    "m \<noteq> n \<Longrightarrow> loop_channels l' m = loop_channels ?l m" for m
    using calls(3) by (simp_all add: loop_frame_def)
  have tasks: "io_tasks s' = io_tasks s" "batch (io_run s') = batch (io_run s)" "the_loop (io_run s') = l'"
    "length (conns s') = length (conns s)" "clock s' = clock s" "place (io_run s') = p"
    using frame by (simp_all add: s'_def)
  have conn: "conns s' ! j = (if j = k then c' else conns s ! j)" if "j < length (conns s)" for j
    using that k by (simp add: s'_def)
  have jobs: "jobs_of j s' = jobs_of j s @ (if j = k then new_jobs c c' else [])" and results: "results_of j s' = results_of j s" for j
    using jobs_of_append [of j s k "new_jobs c c'"] tasks(1) by (simp_all add: s'_def jobs_of_def results_of_def frame(1))
  have "registry_inv s'"
  proof -
    have "on_loop (Connection j) (fd (conns s' ! j)) (conns s' ! j) l'" if j: "j < length (conns s)" "registered (conns s' ! j)" for j
    proof (cases "j = k")
      case True
      with calls(2) j conn show ?thesis by (auto simp: on_loop_def)
    next
      case False
      then have "registered (conns s ! j)" using j conn by simp
      with others j(1) False have "on_loop (Connection j) (fd (conns s ! j)) (conns s ! j) ?l" "fd (conns s ! j) \<noteq> n"
        unfolding other_connections_def by blast+
      with on_loop_frame [OF _ calls(3)] conn [OF j(1)] False show ?thesis by simp
    qed
    moreover have "\<exists>j < length (conns s). x = Connection j \<and> registered (conns s' ! j) \<and> fd (conns s' ! j) = m"
      if m: "loop_channels l' m = Some (Handler x)" for m x
    proof (cases "m = n")
      case True
      with m calls(2) have "registered c'" "x = Connection k" "fd c' = n" by (auto simp: on_loop_def split: if_splits)
      with k conn [OF k] True show ?thesis by auto
    next
      case False
      then have "loop_channels ?l m = Some (Handler x)" using m frame(3) by simp
      then obtain j where "j < length (conns s)" "j \<noteq> k" "x = Connection j" "registered (conns s ! j)" "fd (conns s ! j) = m"
        using others False unfolding other_connections_def by blast
      with conn show ?thesis by auto
    qed
    moreover have "0 \<le> wakeup_fd l'" using wake by (simp add: frame(2))
    ultimately show ?thesis unfolding registry_inv_def tasks by blast
  qed
  moreover have "tasks_inv s'"
  proof -
    have "loop_channels l' m = None" if "m \<in> set (new_fds (io_tasks s))" for m
    proof -
      have "m \<noteq> n" using that n(2) by blast
      then show ?thesis using that base(2) frame(3) unfolding tasks_inv_def by simp
    qed
    moreover have "\<forall>j \<in> set (outstanding s'). fst j < length (conns s)"
      using base(2) k by (auto simp: s'_def tasks_inv_def)
    ultimately show ?thesis using base(2) unfolding tasks_inv_def tasks frame(1) by blast
  qed
  moreover have "timers_inv s'"
  proof -
    have "list_all (timer_ok (length (conns s))) (loop_timers l')" using base(3) k by (simp add: calls(4))
    moreover have "mset (pending_timers (conns s' ! j)) = (\<Sum>t\<leftarrow>loop_timers l'. idle_checks j t)" if j: "j < length (conns s)" for j
    proof (cases "j = k")
      case True
      then show ?thesis using pending conn [OF k] by (simp add: calls(4))
    next
      case False
      then have "mset (pending_timers (conns s ! j)) = (\<Sum>t\<leftarrow>loop_timers ?l. idle_checks j t)"
        using others j unfolding other_connections_def by blast
      with False conn [OF j] show ?thesis by (simp add: calls(4))
    qed
    ultimately show ?thesis unfolding timers_inv_def tasks by blast
  qed
  moreover have "clock_inv s'"
    using others self(1) conn unfolding clock_inv_def other_connections_def tasks by (metis (no_types))
  moreover have "pipelines_inv answers lat s'"
  proof -
    have "pipeline_run answers lat (conns s' ! j) (jobs_of j s') (results_of j s')" if j: "j < length (conns s)" for j
    proof (cases "j = k")
      case True
      then show ?thesis using self(2) conn [OF j] by (simp add: jobs results)
    next
      case False
      then have "pipeline_run answers lat (conns s ! j) (jobs_of j s) (results_of j s)"
        using others j unfolding other_connections_def by blast
      with False conn [OF j] show ?thesis by (simp add: jobs results)
    qed
    then show ?thesis unfolding pipelines_inv_def tasks by blast
  qed
  moreover have "place_inv p s'"
  proof -
    have rep: "reports_ok s' evs" if "reports_ok s evs" "evs = reports p" for evs
    proof -
      have "wants_write (conn_channel (conns s' ! j))"
        if j: "j < length (conns s)" "registered (conns s' ! j)" "(fd (conns s' ! j), revents) \<in> set evs" "bit revents 2" for j revents
      proof (cases "j = k")
        case True
        with j conn calls(2) have "registered c'" "fd c' = n" by (auto simp: on_loop_def)
        with at(2) j True conn \<open>evs = reports p\<close> show ?thesis by auto
      next
        case False
        with j conn \<open>reports_ok s evs\<close> show ?thesis by (auto simp: reports_ok_def)
      qed
      with that(1) show ?thesis unfolding reports_ok_def tasks by blast
    qed
    have known: "all_known s' evs" if "all_known s evs" "evs = reports p" "\<not> while_tasks p" for evs
    proof -
      have "loop_channels l' m \<noteq> None" if m: "m \<in> fst ` set evs" for m
      proof -
        have "m \<noteq> n" using m at(2) \<open>evs = reports p\<close> \<open>\<not> while_tasks p\<close> by fastforce
        moreover have "loop_channels ?l m \<noteq> None" using \<open>all_known s evs\<close> m unfolding all_known_def by blast
        ultimately show ?thesis using frame(3) by simp
      qed
      then show ?thesis unfolding all_known_def tasks by blast
    qed
    show ?thesis using at(1) rep known frame(2) by (cases p) (simp_all add: tasks)
  qed
  moreover have "loop_inv (io_run s')"
    using loop_inv_calls [OF base(1) calls(3) place n(1) calls(2)] by (simp add: s'_def)
  ultimately show ?thesis by (simp add: s' io_inv_def io_inv_at_def tasks)
qed

subsection \<open>A connection acts\<close>

lemma send_loop_last: "send_loop ss s c = (e, s', c1) \<Longrightarrow> last_activity_at c1 = last_activity_at c"
  using send_loop_frame by fastforce

lemma handleRead_last: "last_activity_at (handleRead rs now c) \<in> {last_activity_at c, now}"
proof -
  obtain ok r c1 where loop: "recv_loop (if fd c < 0 then [Recv_failed] else rs) False c = (ok, r, c1)"
    by (rule prod_cases3)
  have "last_activity_at c1 = last_activity_at c" using recv_loop_frame [OF loop] by auto
  then show ?thesis using loop by (auto simp: handleRead_def Let_def processRequest_def)
qed

lemma handleWrite_last:
  assumes "handleWrite ss now c = Inr c'"
  shows "last_activity_at c' \<in> {last_activity_at c, now}"
proof -
  obtain e s c1 where loop: "send_loop (if fd c < 0 then [Send_failed] else ss) False c = (e, s, c1)"
    by (rule prod_cases3)
  note same = send_loop_last [OF loop]
  have upd: "update_interest f b = Inr b' \<Longrightarrow> last_activity_at b' = last_activity_at b" for f b b'
    by (auto simp: update_interest_def loop_updateChannel_def split: if_splits)
  show ?thesis
  proof (cases e)
    case Drained
    then obtain c2 where c2: "conn_disableWriting c1 = Inr c2" using assms loop by (auto simp: handleWrite_def split: sum.splits)
    then have "last_activity_at c2 = last_activity_at c" using upd same by (simp add: conn_disableWriting_def)
    then have "last_activity_at (response_done c2) = last_activity_at c" by (simp add: response_done_def)
    then show ?thesis
      using assms loop Drained c2 by (auto simp: handleWrite_def Let_def processRequest_def split: if_splits)
  next
    case Blocked
    then show ?thesis using assms loop same upd by (fastforce simp: handleWrite_def conn_enableWriting_def split: if_splits)
  next
    case Broken
    then show ?thesis using assms loop same by (auto simp: handleWrite_def)
  qed
qed

fun event_time :: "tcp_event \<Rightarrow> time_point" where
  "event_time (Dispatch revents rs ss now1 now2) = now2"
| "event_time (Finish i r cl ss now) = now"
| "event_time (Timer d g now) = now"

lemma step_last:
  assumes "tcp_enabled ev c" and "tcp_step ev c = Inr c'"
  shows "last_activity_at c' \<le> event_time ev"
proof (cases ev)
  case (Dispatch revents rs ss now1 now2)
  let ?c1 = "if bit revents 0 then handleRead rs now1 c else c"
  have t: "last_activity_at c \<le> now1" "now1 \<le> now2" using assms(1) Dispatch by simp_all
  have c1: "last_activity_at ?c1 \<le> now2" using handleRead_last [of rs now1 c] t by auto
  have "c' = close c \<or> handleWrite ss now2 ?c1 = Inr c' \<or> c' = ?c1"
    using assms(2) unfolding Dispatch tcp_step_Dispatch Let_def by (auto split: if_splits)
  then show ?thesis using handleWrite_last [of ss now2 ?c1 c'] c1 t Dispatch by auto
next
  case (Finish i r cl ss now)
  have t: "last_activity_at c \<le> now" using assms(1) Finish by simp
  have "c' = c \<or> handleWrite ss now (accept_response i r cl c) = Inr c'"
    using assms(2) Finish by (auto simp: finishRequest_accept split: if_splits)
  moreover have "last_activity_at (accept_response i r cl c) = last_activity_at c" by (simp add: accept_response_def)
  ultimately show ?thesis using handleWrite_last [of ss now "accept_response i r cl c" c'] t Finish by auto
next
  case (Timer d g now)
  then show ?thesis using assms by (auto simp: closeIfIdle_def scheduleIdleCheck_def)
qed

text \<open>Where the loop has a connection: at its descriptor while it is open.\<close>

definition seat :: "tcp_connection \<Rightarrow> int" where
  "seat c = (if registered c then fd c else - 1)"

lemma acting:
  assumes place: "place (io_run s) = In_callback p" and k: "k < length (conns s)"
    and step: "tcp_step ev (conns s ! k) = Inr c'" "tcp_enabled ev (conns s ! k)" "event_time ev \<le> clock s"
    and seat: "on_loop (Connection k) n (conns s ! k) (the_loop (io_run s))"
      "n \<noteq> wakeup_fd (the_loop (io_run s))" "n \<notin> set (new_fds (io_tasks s))" "0 \<le> wakeup_fd (the_loop (io_run s))"
    and pending: "mset (pending_timers (before_event ev (conns s ! k))) = (\<Sum>t\<leftarrow>loop_timers (the_loop (io_run s)). idle_checks k t)"
    and base: "loop_inv (io_run s)" "tasks_inv s" "list_all (timer_ok (length (conns s))) (loop_timers (the_loop (io_run s)))"
    and others: "other_connections answers lat k n s"
    and self: "pipeline_run answers lat c' (jobs_of k s @ new_jobs (conns s ! k) c') (results_of k s)"
    and at: "place_inv p s"
      "\<And>revents. (n, revents) \<in> set (reports p) \<Longrightarrow>
        while_tasks p \<and> (registered c' \<and> bit revents 2 \<longrightarrow> wants_write (conn_channel c'))"
  shows "io_inv answers lat (finish_callback k (conns s ! k) (tcp_step ev (conns s ! k)) s)"
proof -
  let ?c = "conns s ! k"
  have on: "on_loop (Connection k) n (before_event ev ?c) (the_loop (io_run s))" using seat(1) by simp
  obtain es l' where es: "tcp_log c' = tcp_log ?c @ es"
    "pending_timers c' = pending_timers (before_event ev ?c) @ timers_of es"
    and l': "make_calls (client_calls (Connection k) (Idle_check k) es) (the_loop (io_run s)) = (None, l')"
      "on_loop (Connection k) n c' l'" "loop_frame n (the_loop (io_run s)) l'"
      "loop_timers l' = loop_timers (the_loop (io_run s)) @ named_timers (Idle_check k) (timers_of es)"
    using step_calls_work [OF step(1), of "Connection k" "Idle_check k"] on unfolding calls_work_def before_event_log by blast
  have "replay (Connection k) (Idle_check k) (drop (length (tcp_log ?c)) (tcp_log c')) (the_loop (io_run s)) = (None, l')"
    using l'(1) by (simp add: es(1) replay_def)
  moreover have "mset (pending_timers c') = (\<Sum>t\<leftarrow>loop_timers (the_loop (io_run s)). idle_checks k t) + mset (timers_of es)"
    by (simp add: es(2) pending)
  moreover have "last_activity_at c' \<le> clock s" using step_last [OF step(2,1)] step(3) by linarith
  ultimately show ?thesis
    using finish_callback_inv [OF place k _ l'(2-4) _ seat(2-4) base others _ self at] by (simp add: step(1))
qed

lemma seat_on_loop:
  assumes "io_inv answers lat s" and k: "k < length (conns s)"
  shows "on_loop (Connection k) (seat (conns s ! k)) (conns s ! k) (the_loop (io_run s))"
    and "seat (conns s ! k) \<noteq> wakeup_fd (the_loop (io_run s))"
    and "seat (conns s ! k) \<notin> set (new_fds (io_tasks s))"
    and "other_connections answers lat k (seat (conns s ! k)) s"
proof -
  let ?l = "the_loop (io_run s)" and ?c = "conns s ! k"
  have reg: "registry_inv s" and tsk: "tasks_inv s" and pip: "pipelines_inv answers lat s" and li: "loop_inv (io_run s)"
    using assms(1) by (simp_all add: io_inv_def io_inv_at_def)
  have ctl: "conn_ctl (conns s ! j)" if "j < length (conns s)" for j
    using pip that pipeline_run_ctl(1) unfolding pipelines_inv_def by blast
  then have open_fd: "0 \<le> fd (conns s ! j)" if "j < length (conns s)" "registered (conns s ! j)" for j
    using that unfolding conn_ctl_def conn_base_def by blast
  have on: "on_loop (Connection j) (fd (conns s ! j)) (conns s ! j) ?l" if "j < length (conns s)" "registered (conns s ! j)" for j
    using reg that unfolding registry_inv_def by blast
  have wake: "loop_channels ?l (wakeup_fd ?l) = Some Wakeup_handler" "0 \<le> wakeup_fd ?l"
    using li reg by (simp_all add: loop_inv_def wakeup_registered_def registry_inv_def)
  have minus: "loop_channels ?l (- 1) = None"
  proof -
    have "n = wakeup_fd ?l" if "loop_channels ?l n = Some Wakeup_handler" for n
      using li that by (simp add: loop_inv_def wakeup_registered_def)
    then have "loop_channels ?l (- 1) \<noteq> Some Wakeup_handler" using wake(2) by fastforce
    moreover have "loop_channels ?l (- 1) \<noteq> Some (Handler x)" for x
    proof
      assume "loop_channels ?l (- 1) = Some (Handler x)"
      then obtain j where "j < length (conns s)" "registered (conns s ! j)" "fd (conns s ! j) = - 1"
        using reg unfolding registry_inv_def by blast
      with open_fd [of j] show False by simp
    qed
    ultimately show ?thesis by (metis handler.exhaust not_None_eq)
  qed
  moreover have "loop_interest ?l (- 1) = None" using minus li unfolding loop_inv_def by blast
  ultimately show seat: "on_loop (Connection k) (seat ?c) ?c ?l"
    using on [OF k] by (cases "registered ?c") (auto simp: seat_def on_loop_def)
  then have ch: "loop_channels ?l (seat ?c) = (if registered ?c then Some (Handler (Connection k)) else None)"
    by (simp add: on_loop_def)
  show "seat ?c \<noteq> wakeup_fd ?l"
    using ch wake by (auto simp: seat_def split: if_splits)
  show "seat ?c \<notin> set (new_fds (io_tasks s))"
  proof
    assume new: "seat ?c \<in> set (new_fds (io_tasks s))"
    then have "loop_channels ?l (seat ?c) = None" using tsk unfolding tasks_inv_def by blast
    with ch have "seat ?c = - 1" by (auto simp: seat_def split: if_splits)
    moreover have "0 \<le> n" if "n \<in> set (new_fds ts)" "list_all (task_ok m) ts" for n m ts
      using that by (induction ts) (auto simp: new_fds_def split: io_client.splits)
    then have "0 \<le> seat ?c" using new tsk unfolding tasks_inv_def by blast
    ultimately show False by simp
  qed
  have "fd (conns s ! j) \<noteq> seat ?c" if j: "j < length (conns s)" "j \<noteq> k" "registered (conns s ! j)" for j
  proof
    assume same: "fd (conns s ! j) = seat ?c"
    have "loop_channels ?l (fd (conns s ! j)) = Some (Handler (Connection j))"
      using on [OF j(1,3)] j(3) by (simp add: on_loop_def)
    with ch same j(2) show False by (auto split: if_splits)
  qed
  moreover have "\<exists>j < length (conns s). j \<noteq> k \<and> x = Connection j \<and> registered (conns s ! j) \<and> fd (conns s ! j) = m"
    if "m \<noteq> seat ?c" "loop_channels ?l m = Some (Handler x)" for m x
    using reg that unfolding registry_inv_def seat_def by metis
  moreover have "mset (pending_timers (conns s ! j)) = (\<Sum>t\<leftarrow>loop_timers ?l. idle_checks j t)"
    "last_activity_at (conns s ! j) \<le> clock s" "pipeline_run answers lat (conns s ! j) (jobs_of j s) (results_of j s)"
    if "j < length (conns s)" for j
    using assms(1) that by (auto simp: io_inv_def io_inv_at_def timers_inv_def clock_inv_def pipelines_inv_def)
  ultimately show "other_connections answers lat k (seat ?c) s"
    using on unfolding other_connections_def by (intro conjI allI impI) blast+
qed

subsection \<open>Steps without a callback\<close>

lemma io_inv_same:
  assumes inv: "io_inv answers lat s" and r: "loop_inv r" "place_inv (place r) (s\<lparr>io_run := r, clock := t\<rparr>)"
    and same: "loop_channels (the_loop r) = loop_channels (the_loop (io_run s))"
      "loop_epoller (the_loop r) = loop_epoller (the_loop (io_run s))" "wakeup_fd (the_loop r) = wakeup_fd (the_loop (io_run s))"
      "loop_timers (the_loop r) = loop_timers (the_loop (io_run s))"
      "batch r @ pending_tasks (the_loop r) = io_tasks s"
    and t: "clock s \<le> t"
  shows "io_inv answers lat (s\<lparr>io_run := r, clock := t\<rparr>)"
proof -
  let ?s = "s\<lparr>io_run := r, clock := t\<rparr>"
  have tasks: "io_tasks ?s = io_tasks s" using same(5) by simp
  have "registry_inv ?s" using inv same by (simp add: io_inv_def io_inv_at_def registry_inv_def on_loop_def)
  moreover have "tasks_inv ?s" using inv same(1) unfolding io_inv_def io_inv_at_def tasks_inv_def tasks by simp
  moreover have "timers_inv ?s" using inv same(4) by (simp add: io_inv_def io_inv_at_def timers_inv_def)
  moreover have "last_activity_at (conns s ! k) \<le> t" if "k < length (conns s)" for k
    using inv t that unfolding io_inv_def io_inv_at_def clock_inv_def by (meson order_trans)
  then have "clock_inv ?s" by (simp add: clock_inv_def)
  moreover have "jobs_of k ?s = jobs_of k s" "results_of k ?s = results_of k s" for k
    using tasks by (simp_all add: jobs_of_def results_of_def)
  then have "pipelines_inv answers lat ?s" using inv by (simp add: io_inv_def io_inv_at_def pipelines_inv_def)
  ultimately show ?thesis using r by (simp add: io_inv_def io_inv_at_def)
qed

lemma place_inv_frame:
  assumes "place_inv p s" and "conns s' = conns s" and "loop_channels (the_loop (io_run s')) = loop_channels (the_loop (io_run s))"
    and "wakeup_fd (the_loop (io_run s')) = wakeup_fd (the_loop (io_run s))" and "batch (io_run s') = batch (io_run s)"
    and "clock s \<le> clock s'"
  shows "place_inv p s'"
  using assms by (cases p) (auto simp: reports_ok_def all_known_def)

lemma io_inv_loop: "io_inv answers lat s \<Longrightarrow> loop_inv (io_run s)"
  by (simp add: io_inv_def io_inv_at_def)

lemma io_inv_place: "io_inv answers lat s \<Longrightarrow> place_inv (place (io_run s)) s"
  by (simp add: io_inv_def io_inv_at_def)

text \<open>What epoll reports is in order: write readiness only where the interest list asks for it.\<close>

lemma reportable_writes:
  assumes "reportable l (n, revents)" and "bit revents 2" and "l n = Some events"
  shows "bit events 2"
proof -
  have "bit (revents AND NOT (events OR EPOLLERR OR EPOLLHUP)) 2 = False" using assms(1,3) by (simp add: reportable_def)
  then show ?thesis using assms(2) by (simp add: bit_simps)
qed

lemma wants_write_bit: "wants_write ch \<longleftrightarrow> bit (channel_events ch) 2"
  by (simp add: wants_write_def and_bit_2)

lemma polled_reports_ok:
  assumes inv: "io_inv answers lat s" and allowed: "poll_allowed (the_loop (io_run s)) ms (Ready evs)"
  shows "reports_ok s evs \<and> all_known s evs"
proof -
  let ?l = "the_loop (io_run s)"
  have ev: "distinct (map fst evs)" "\<forall>e \<in> set evs. reportable (loop_interest ?l) e"
    using allowed by (simp_all add: poll_allowed_def list_all_iff)
  have reg: "registry_inv s" using inv by (simp add: io_inv_def io_inv_at_def)
  have "wants_write (conn_channel (conns s ! k))"
    if k: "k < length (conns s)" "registered (conns s ! k)" "(fd (conns s ! k), revents) \<in> set evs" "bit revents 2" for k revents
  proof -
    have "loop_interest ?l (fd (conns s ! k)) = Some (channel_events (conn_channel (conns s ! k)))"
      using reg k(1,2) by (auto simp: registry_inv_def on_loop_def)
    with ev(2) k(3,4) show ?thesis using reportable_writes wants_write_bit by blast
  qed
  moreover have "loop_channels ?l n \<noteq> None" if "(n, revents) \<in> set evs" for n revents
  proof -
    have "loop_interest ?l n \<noteq> None" using ev(2) that by (auto simp: reportable_def split: option.splits)
    then show ?thesis using io_inv_loop [OF inv] unfolding loop_inv_def by blast
  qed
  ultimately show ?thesis using ev(1) unfolding reports_ok_def all_known_def by auto
qed

lemma reports_ok_Cons: "reports_ok s (e # evs) \<Longrightarrow> reports_ok s evs"
  by (auto simp: reports_ok_def)

lemma all_known_Cons: "all_known s (e # evs) \<Longrightarrow> all_known s evs"
  by (simp add: all_known_def)

lemma reports_ok_run [simp]: "reports_ok (s\<lparr>io_run := r\<rparr>) evs = reports_ok s evs"
  "reports_ok (s\<lparr>clock := t\<rparr>) evs = reports_ok s evs"
  by (simp_all add: reports_ok_def)

lemma plain_dispatch_inv:
  assumes inv: "io_inv answers lat s" and place: "place (io_run s) = Dispatching evs"
    and r: "r = loop_dispatch evs (io_run s)" "\<nexists>p. place r = In_callback p" and t: "clock s \<le> t"
  shows "io_inv answers lat (s\<lparr>io_run := r, clock := t\<rparr>)"
proof (cases evs)
  case Nil
  have "loop_inv r" using inv_dispatch [OF io_inv_loop [OF inv] place] r(1) by simp
  with Nil r(1) t show ?thesis by (intro io_inv_same [OF inv]) (simp_all add: loop_dispatch_def)
next
  case (Cons e rest)
  have li: "loop_inv r" using inv_dispatch [OF io_inv_loop [OF inv] place] r(1) by simp
  have pi: "place_inv (Dispatching (e # rest)) s" using io_inv_place [OF inv] place Cons by simp
  then have "fst e \<notin> fst ` set rest" by (simp add: reports_ok_def)
  with pi have ok: "reports_ok s rest" "wakeup_fd (the_loop (io_run s)) \<in> fst ` set rest \<longrightarrow> all_known s rest"
    "fst e = wakeup_fd (the_loop (io_run s)) \<longrightarrow> all_known s rest \<and> wakeup_fd (the_loop (io_run s)) \<notin> fst ` set rest"
    using reports_ok_Cons [of s e rest] all_known_Cons [of s e rest] by (simp_all, metis)
  have wake: "loop_channels (the_loop (io_run s)) n = Some Wakeup_handler \<Longrightarrow> n = wakeup_fd (the_loop (io_run s))" for n
    using io_inv_loop [OF inv] by (simp add: loop_inv_def wakeup_registered_def)
  show ?thesis
  proof (cases "loop_channels (the_loop (io_run s)) (fst e)")
    case None
    then have "r = goto (Dispatching rest) (io_run s)" using r(1) Cons by (simp add: loop_dispatch_def dispatch_def)
    then show ?thesis
      using li t ok by (intro io_inv_same [OF inv]) (simp_all add: all_known_def)
  next
    case (Some h)
    then have h: "h = Wakeup_handler" using r Cons by (cases h) (simp_all add: loop_dispatch_def dispatch_def)
    with Some wake ok(3) have known: "all_known s rest" "wakeup_fd (the_loop (io_run s)) \<notin> fst ` set rest" by auto
    have "r = request_quit (goto (Dispatching rest) (io_run s)) \<or> r = goto (Dispatching rest) (io_run s) \<or>
        r = goto (Reading rest) (goto (Dispatching rest) (io_run s))"
      using r(1) Cons Some h
      by (simp add: loop_dispatch_def dispatch_def handleEvent_def invoke_def Let_def del: epoll_bits split: if_splits)
    then show ?thesis
      using li t ok known
      by (intro io_inv_same [OF inv]) (auto simp: all_known_def request_quit_def quit_def)
  qed
qed

lemma plain_step_inv:
  assumes inv: "io_inv answers lat s" and step: "loop_step pick e (io_run s) = Some r"
    and e: "loop_thread_event e" "started_callback pick (io_run s) r = None" and t: "clock s \<le> t"
    and reading: "\<And>now. e = Timers now \<Longrightarrow> now \<le> t"
  shows "io_inv answers lat (s\<lparr>io_run := r, clock := t\<rparr>)"
proof -
  let ?r = "io_run s"
  have li: "loop_inv r" by (rule loop_step_inv [OF io_inv_loop [OF inv] step])
  note place = io_inv_place [OF inv]
  have no_callback: "\<nexists>p. place ?r = In_callback p" using place by auto
  have not_in: "\<nexists>p. place r = In_callback p"
  proof
    assume "\<exists>p. place r = In_callback p"
    then obtain p where p: "place r = In_callback p" ..
    then have "place_ok (place r)" using li unfolding loop_inv_def by blast
    with p e(2) show False by (cases p) (auto simp: started_callback_def split: prod.splits)
  qed
  have batch: "batch ?r = []" if "\<not> in_batch (place ?r)" using io_inv_loop [OF inv] that by (simp add: loop_inv_def)
  show ?thesis
  proof (cases e)
    case (Push task)
    with e(1) show ?thesis by simp
  next
    case Set_quit
    with step have r: "r = request_quit ?r" by simp
    show ?thesis
      by (rule io_inv_same [OF inv li _ _ _ _ _ _ t], rule place_inv_frame)
        (use place t in \<open>auto simp: r request_quit_def quit_def\<close>)
  next
    case (Write_eventfd b)
    then have r: "r = ?r \<or> r = ?r\<lparr>the_loop := wakeup (the_loop ?r), writers := writers ?r - 1\<rparr>"
      using step by (auto split: if_splits)
    show ?thesis
      by (rule io_inv_same [OF inv li _ _ _ _ _ _ t], rule place_inv_frame [of _ s]) (use place t r in auto)
  next
    case Start
    then show ?thesis using step t li by (intro io_inv_same [OF inv]) (auto split: if_splits)
  next
    case Check
    then show ?thesis using step t li by (intro io_inv_same [OF inv]) (auto simp: loop_check_def split: if_splits)
  next
    case (Poll now w)
    then have p: "place ?r = At_poll" "poll_allowed (the_loop ?r) (millisecondsUntilNextTimer pick now (loop_timers (the_loop ?r))) w"
      and r: "r = (case wait w of Inl e \<Rightarrow> goto (Raised (Epoller_raised e)) (?r\<lparr>polls := polls ?r + 1\<rparr>)
             | Inr evs \<Rightarrow> goto (Dispatching evs) (?r\<lparr>polls := polls ?r + 1\<rparr>))"
      using step by (auto simp: loop_poll_def split: if_splits)
    have same: "the_loop r = the_loop ?r" "batch r = batch ?r" by (auto simp: r split: sum.split)
    have "place_inv (place r) (s\<lparr>io_run := r, clock := t\<rparr>)"
    proof (cases w)
      case (Ready evs)
      then show ?thesis using polled_reports_ok [OF inv p(2) [unfolded Ready]] by (simp add: r wait_def all_known_def)
    next
      case Wait_interrupted
      then show ?thesis by (simp add: r wait_def reports_ok_def)
    next
      case Wait_error
      then show ?thesis by (simp add: r wait_def)
    qed
    then show ?thesis by (intro io_inv_same [OF inv li]) (simp_all add: same t)
  next
    case Dispatch_next
    then obtain evs where "place ?r = Dispatching evs" "r = loop_dispatch evs ?r"
      using step by (auto split: place.splits)
    then show ?thesis using plain_dispatch_inv [OF inv _ _ not_in t] by blast
  next
    case (Call c)
    with e(1) show ?thesis by simp
  next
    case Callback_returns
    with e(1) show ?thesis by simp
  next
    case (Read_eventfd b)
    then obtain rest where p: "place ?r = Reading rest" and r: "r = handleWakeup_read b rest ?r"
      using step by (auto split: place.splits)
    have "r = ?r \<or> r = goto (Dispatching rest) ?r \<or>
        r = goto (Swapping rest) (?r\<lparr>the_loop := (the_loop ?r)\<lparr>eventfd_counter := 0\<rparr>\<rparr>)"
      by (auto simp: r handleWakeup_read_def wakeup_read_def)
    then show ?thesis
      using place p t li by (intro io_inv_same [OF inv]) (auto simp: all_known_def)
  next
    case Swap
    then obtain rest where p: "place ?r = Swapping rest" and r: "r = handleWakeup_swap rest ?r"
      using step by (auto split: place.splits)
    have b: "batch ?r = []" using batch p by simp
    have "tasks_inv s" using inv by (simp add: io_inv_def io_inv_at_def)
    then have "set (new_fds (pending_tasks (the_loop ?r))) \<inter> fst ` set rest = {}"
      using place p b by (auto simp: tasks_inv_def all_known_def)
    then show ?thesis
      using place p t li b by (intro io_inv_same [OF inv]) (auto simp: r handleWakeup_swap_def swap_tasks_def)
  next
    case Next_task
    then obtain rest where p: "place ?r = Running_tasks rest" and r: "r = handleWakeup_task rest ?r"
      using step by (auto split: place.splits)
    then have "batch ?r = []" using not_in by (cases "batch ?r") (auto simp: handleWakeup_task_def)
    then show ?thesis
      using place p t li by (intro io_inv_same [OF inv]) (auto simp: r handleWakeup_task_def)
  next
    case (Timers now)
    then show ?thesis using step t li reading by (intro io_inv_same [OF inv]) (auto split: if_splits)
  next
    case Next_timer
    then obtain now where p: "place ?r = Running_timers now" and r: "r = loop_timer pick now ?r"
      using step by (auto split: place.splits)
    then have "r = goto At_check ?r" using not_in by (auto simp: loop_timer_def Let_def split: if_splits)
    then show ?thesis using t li by (intro io_inv_same [OF inv]) auto
  qed
qed

subsection \<open>Other threads\<close>

lemma new_fds_simps [simp]:
  "new_fds [] = []" "new_fds (xs @ ys) = new_fds xs @ new_fds ys"
  "new_fds (New_connection n # xs) = n # new_fds xs" "new_fds (Delivery k i r cl # xs) = new_fds xs"
  by (simp_all add: new_fds_def)

lemma jobs_of_remove:
  "jobs_of j (s\<lparr>outstanding := remove1 (k, x) (outstanding s)\<rparr>) = (if j = k then remove1 x (jobs_of k s) else jobs_of j s)"
proof -
  have "map snd (filter (\<lambda>y. fst y = j) (remove1 (k, x) ys)) =
      (if j = k then remove1 x (map snd (filter (\<lambda>y. fst y = k) ys)) else map snd (filter (\<lambda>y. fst y = j) ys))"
    for ys :: "(nat \<times> u64 \<times> string) list"
    by (induction ys) auto
  then show ?thesis by (simp add: jobs_of_def)
qed

lemma push_task_simps [simp]:
  "pending_tasks (the_loop (io_run (push_task t s))) = pending_tasks (the_loop (io_run s)) @ [t]" "conns (push_task t s) = conns s" "outstanding (push_task t s) = outstanding s"
  "clock (push_task t s) = clock s" "place (io_run (push_task t s)) = place (io_run s)"
  "loop_channels (the_loop (io_run (push_task t s))) = loop_channels (the_loop (io_run s))"
  "loop_epoller (the_loop (io_run (push_task t s))) = loop_epoller (the_loop (io_run s))"
  "loop_timers (the_loop (io_run (push_task t s))) = loop_timers (the_loop (io_run s))"
  "wakeup_fd (the_loop (io_run (push_task t s))) = wakeup_fd (the_loop (io_run s))"
  "batch (io_run (push_task t s)) = batch (io_run s)"
  by (simp_all add: push_task_def queue_push_def Let_def)

lemma push_task_loop_inv: "loop_inv (io_run s) \<Longrightarrow> loop_inv (io_run (push_task t s))"
  using inv_shared(1) by (simp add: push_task_def Let_def)

lemma results_of_push: "results_of k (push_task t s) = results_of k s @ delivery k t"
  by (simp add: results_of_def)

lemma push_task_inv:
  assumes inv: "loop_inv (io_run s)" "registry_inv s" "tasks_inv s" "timers_inv s" "clock_inv s" "place_inv (place (io_run s)) s"
    and t: "task_ok (length (conns s)) t"
    and fresh: "\<And>n. t = New_connection n \<Longrightarrow> n \<notin> set (new_fds (io_tasks s)) \<and> loop_channels (the_loop (io_run s)) n = None"
    and pipelines: "\<And>k. k < length (conns s) \<Longrightarrow>
      pipeline_run answers lat (conns s ! k) (jobs_of k s) (results_of k s @ delivery k t)"
  shows "io_inv answers lat (push_task t s)"
proof -
  have "registry_inv (push_task t s)"
    using inv(2) by (simp add: registry_inv_def on_loop_def)
  moreover have "tasks_inv (push_task t s)"
    using inv(3) t fresh unfolding tasks_inv_def push_task_simps by (cases t) auto
  moreover have "timers_inv (push_task t s)" "clock_inv (push_task t s)"
    using inv(4,5) by (simp_all add: timers_inv_def clock_inv_def)
  moreover have "pipelines_inv answers lat (push_task t s)"
    using pipelines by (simp add: pipelines_inv_def results_of_push) (simp add: jobs_of_def)
  moreover have "place_inv (place (io_run s)) (push_task t s)"
    by (rule place_inv_frame [OF inv(6)]) simp_all
  ultimately show ?thesis
    using push_task_loop_inv [OF inv(1)] by (simp add: io_inv_def io_inv_at_def)
qed

lemma accepted_inv:
  assumes inv: "io_inv answers lat s" and n: "0 \<le> n" "n \<notin> set (held_fds s)"
  shows "io_inv answers lat (push_task (New_connection n) s)"
proof (rule push_task_inv)
  show "loop_inv (io_run s)" "registry_inv s" "tasks_inv s" "timers_inv s" "clock_inv s" "place_inv (place (io_run s)) s"
    using inv by (simp_all add: io_inv_def io_inv_at_def)
  let ?l = "the_loop (io_run s)"
  have "loop_channels ?l n \<noteq> Some h" for h
  proof (cases h)
    case Wakeup_handler
    then show ?thesis
      using n(2) io_inv_loop [OF inv] by (auto simp: held_fds_def Let_def loop_inv_def wakeup_registered_def)
  next
    case (Handler x)
    show ?thesis
    proof
      assume "loop_channels ?l n = Some h"
      then obtain k where "k < length (conns s)" "registered (conns s ! k)" "fd (conns s ! k) = n"
        using inv Handler unfolding io_inv_def io_inv_at_def registry_inv_def by blast
      then have "n \<in> set (map fd (filter registered (conns s)))" using nth_mem by fastforce
      with n(2) show False by (simp add: held_fds_def Let_def)
    qed
  qed
  then have "loop_channels ?l n = None" by auto
  then show "m \<notin> set (new_fds (io_tasks s)) \<and> loop_channels ?l m = None" if "New_connection n = New_connection m" for m
    using that n(2) by (simp add: held_fds_def Let_def)
  show "pipeline_run answers lat (conns s ! k) (jobs_of k s) (results_of k s @ delivery k (New_connection n))"
    if "k < length (conns s)" for k
    using that inv by (simp add: io_inv_def io_inv_at_def pipelines_inv_def)
qed (use n in simp)

lemma completed_inv:
  assumes inv: "io_inv answers lat s" and job: "(k, i, q) \<in> set (outstanding s)" "answers q (r, cl)"
    and gone: "gone \<longrightarrow> \<not> registered (conns s ! k)"
  shows "io_inv answers lat (let s' = s\<lparr>outstanding := remove1 (k, i, q) (outstanding s)\<rparr>
    in if gone then s' else push_task (Delivery k i r cl) s')"
proof -
  define s' where "s' = s\<lparr>outstanding := remove1 (k, i, q) (outstanding s)\<rparr>"
  have k: "k < length (conns s)" using inv job(1) by (auto simp: io_inv_def io_inv_at_def tasks_inv_def)
  have same: "io_run s' = io_run s" "conns s' = conns s" "clock s' = clock s" "set (outstanding s') \<subseteq> set (outstanding s)"
    "results_of j s' = results_of j s" for j
    by (simp_all add: s'_def results_of_def set_remove1_subset)
  have jobs: "jobs_of j s' = (if j = k then remove1 (i, q) (jobs_of k s) else jobs_of j s)" for j
    unfolding s'_def by (rule jobs_of_remove)
  have pip: "pipeline_run answers lat (conns s ! j) (jobs_of j s) (results_of j s)" if "j < length (conns s)" for j
    using inv that by (simp add: io_inv_def io_inv_at_def pipelines_inv_def)
  have mem: "(i, q) \<in> set (jobs_of k s)" using job(1) by (force simp: jobs_of_def)
  have rest: "loop_inv (io_run s')" "registry_inv s'" "tasks_inv s'" "timers_inv s'" "clock_inv s'"
    "place_inv (place (io_run s')) s'"
    using inv place_inv_frame [of "place (io_run s)" s s'] same
    by (auto simp: io_inv_def io_inv_at_def registry_inv_def tasks_inv_def timers_inv_def clock_inv_def)
  have work: "pipeline_run answers lat (conns s ! j) (jobs_of j s') (results_of j s @ delivery j (Delivery k i r cl))"
    if "j < length (conns s)" for j
    using pip [OF that] pipeline_run_work [OF pip [OF k] mem job(2)] by (simp add: jobs)
  show ?thesis
  proof (cases gone)
    case True
    have "pipeline_run answers lat (conns s ! j) (jobs_of j s') (results_of j s)" if "j < length (conns s)" for j
      using pip [OF that] gone True pipeline_run_closed [OF pip [OF k]] by (cases "j = k") (simp_all add: jobs)
    then have "pipelines_inv answers lat s'" by (simp add: pipelines_inv_def same)
    with rest True show ?thesis by (simp add: io_inv_def io_inv_at_def s'_def [symmetric])
  next
    case False
    have "io_inv answers lat (push_task (Delivery k i r cl) s')"
      by (rule push_task_inv [OF rest]) (use k work in \<open>simp_all add: same\<close>)
    then show ?thesis using False by (simp add: s'_def [symmetric])
  qed
qed

end
