(* ===== verification/EventLoopLiveness.thy ===== *)
theory EventLoopLiveness
  imports EventLoopRun
begin

text \<open>
  What the machine of \<open>EventLoopRun\<close> achieves: no task and no wake-up is lost, queued tasks run in the
  iteration that sees their wake-up, and quitting ends the loop after at most one more poll.
\<close>

section \<open>No lost wake-up\<close>

lemma EventLoop_ok:
  assumes "Epoller created n = Inr ep" and "EventLoop ep refused efd = (None, l)"
  shows "wakeup_registered l" "dom (loop_interest l) = dom (loop_channels l)" "pending_tasks l = []"
    "quit_flag l = False" "eventfd_counter l = 0" "max_events (loop_epoller l) = nat n" "0 < n"
  using assms
  by (auto simp: Epoller_def EventLoop_def loop_defs wakeup_registered_def enableReading_def new_channel_def split: if_splits)

lemma start_inv:
  "Epoller created n = Inr ep \<Longrightarrow> EventLoop ep refused efd = (None, l) \<Longrightarrow> loop_inv (start_run l)"
  using EventLoop_ok [of created n ep refused efd l] by (auto simp: loop_inv_def start_run_def)

text \<open>C11: The loop loses no task and no wake-up: in every interleaving of the loop thread with any number
  of threads that queue tasks and quit, with any readiness reports, callbacks, timers and interrupted
  system calls, the tasks executed, those of the batch being run and those waiting are exactly the tasks
  queued so far, in order; and whenever the loop thread is about to block in \<open>epoll_wait\<close> while a task
  waits or the quit flag is set, either some thread is still about to write to the eventfd, or the eventfd
  is readable, so that the poll cannot block and reports it unless the batch is full of other events.\<close>

theorem event_loop_loses_no_task:
  assumes "Epoller created n = Inr ep" and "EventLoop ep refused efd = (None, l)"
    and "run_steps (loop_step pick) es (start_run l) = Some s"
  shows "pushed s = executed s @ batch s @ pending_tasks (the_loop s) \<and>
    (\<not> in_batch (place s) \<longrightarrow> batch s = []) \<and>
    (place s = At_poll \<and> (pending_tasks (the_loop s) \<noteq> [] \<or> quit_flag (the_loop s)) \<and> writers s = 0 \<longrightarrow>
      (\<forall>now evs. loop_poll pick now (Ready evs) s \<noteq> None \<longrightarrow>
        wakeup_reported (the_loop s) evs \<or> length evs = max_events (loop_epoller (the_loop s))))"
proof -
  have inv: "loop_inv s" by (rule loop_run.run_keeps [OF assms(3) start_inv [OF assms(1,2)]])
  then have "eventfd_counter (the_loop s) \<noteq> 0"
    if "place s = At_poll" "pending_tasks (the_loop s) \<noteq> [] \<or> quit_flag (the_loop s)" "writers s = 0"
    using that unfolding loop_inv_def by auto
  then show ?thesis using inv by (auto simp: loop_inv_def loop_poll_def poll_allowed_def split: if_splits)
qed

section \<open>Queued tasks run in the next iteration\<close>

text \<open>The wake-up descriptor is readable in a list of reports, without an error on it.\<close>

definition plain_wakeup :: "'c event_loop \<Rightarrow> (int \<times> u32) list \<Rightarrow> bool" where
  "plain_wakeup l evs = list_ex (\<lambda>ev. fst ev = wakeup_fd l \<and> readable_event (snd ev) \<and>
     snd ev AND (EPOLLERR OR EPOLLHUP) = 0) evs"

text \<open>How far the loop thread is on the way to run the tasks \<open>ts\<close>.\<close>

fun on_the_way :: "'c list \<Rightarrow> 'c event_loop \<Rightarrow> place \<Rightarrow> bool" where
  "on_the_way ts l (Dispatching evs) \<longleftrightarrow> plain_wakeup l evs \<and> eventfd_counter l \<noteq> 0"
| "on_the_way ts l (Reading rest) \<longleftrightarrow> eventfd_counter l \<noteq> 0"
| "on_the_way ts l (Swapping rest) \<longleftrightarrow> True"
| "on_the_way ts l (In_callback p) \<longleftrightarrow> on_the_way ts l p"
| "on_the_way ts l (Raised e) \<longleftrightarrow> True"
| "on_the_way ts l p \<longleftrightarrow> False"

definition will_run :: "'c list \<Rightarrow> 'c loop_run \<Rightarrow> bool" where
  "will_run ts s \<longleftrightarrow> prefix ts (executed s @ batch s @ pending_tasks (the_loop s)) \<and>
     (on_the_way ts (the_loop s) (place s) \<or> prefix ts (executed s) \<or>
      in_batch (place s) \<and> prefix ts (executed s @ batch s))"

lemma prefix_append_left: "prefix ts xs \<Longrightarrow> prefix ts (xs @ ys)"
  by (auto simp: prefix_def)

lemma on_the_way_cong:
  assumes "wakeup_fd l' = wakeup_fd l" and "eventfd_counter l \<noteq> 0 \<Longrightarrow> eventfd_counter l' \<noteq> 0"
  shows "on_the_way ts l p \<Longrightarrow> on_the_way ts l' p"
  using assms by (induction p) (auto simp: plain_wakeup_def)

lemma will_run_loop:
  assumes "will_run ts s" and "wakeup_fd l' = wakeup_fd (the_loop s)"
    and "eventfd_counter (the_loop s) \<noteq> 0 \<Longrightarrow> eventfd_counter l' \<noteq> 0"
    and "prefix (pending_tasks (the_loop s)) (pending_tasks l')"
  shows "will_run ts (s\<lparr>the_loop := l'\<rparr>)"
proof -
  have "prefix ts (executed s @ batch s @ pending_tasks l')"
    using assms(1,4) unfolding will_run_def prefix_def by (metis append.assoc)
  then show ?thesis using assms(1) on_the_way_cong [OF assms(2,3)] by (auto simp: will_run_def)
qed

lemma will_run_history [simp]:
  "will_run ts (s\<lparr>writers := w\<rparr>) = will_run ts s" "will_run ts (s\<lparr>pushed := p\<rparr>) = will_run ts s"
  "will_run ts (s\<lparr>invoked := i\<rparr>) = will_run ts s" "will_run ts (s\<lparr>polls := k\<rparr>) = will_run ts s"
  by (simp_all add: will_run_def)

lemma will_run_goto:
  assumes "will_run ts s" and "on_the_way ts (the_loop s) (place s) \<Longrightarrow> on_the_way ts (the_loop s) p"
    and "in_batch (place s) \<Longrightarrow> in_batch p"
  shows "will_run ts (goto p s)"
  using assms by (auto simp: will_run_def)

lemma will_run_shared:
  "will_run ts s \<Longrightarrow> will_run ts (s\<lparr>the_loop := queue_push task (the_loop s)\<rparr>)"
  "will_run ts s \<Longrightarrow> will_run ts (s\<lparr>the_loop := wakeup (the_loop s)\<rparr>)"
  "will_run ts s \<Longrightarrow> will_run ts (s\<lparr>the_loop := quit (the_loop s)\<rparr>)"
  by (auto intro!: will_run_loop simp: queue_push_def quit_def)

lemma will_run_dispatch:
  assumes "will_run ts s" and "loop_inv s" and "place s = Dispatching evs"
  shows "will_run ts (loop_dispatch evs s)"
proof (cases evs)
  case Nil
  with assms show ?thesis by (auto simp: loop_dispatch_def plain_wakeup_def intro!: will_run_goto)
next
  case (Cons ev rest)
  let ?n = "fst ev" and ?e = "snd ev"
  have reg: "loop_channels (the_loop s) (wakeup_fd (the_loop s)) = Some Wakeup_handler"
    "loop_channels (the_loop s) ?n = Some Wakeup_handler \<Longrightarrow> ?n = wakeup_fd (the_loop s)"
    using assms(2) unfolding loop_inv_def wakeup_registered_def by blast+
  have plain: "plain_wakeup (the_loop s) evs \<Longrightarrow> plain_wakeup (the_loop s) rest \<or>
      (?n = wakeup_fd (the_loop s) \<and> readable_event ?e \<and> ?e AND (EPOLLERR OR EPOLLHUP) = 0)"
    by (auto simp: Cons plain_wakeup_def)
  have way: "on_the_way ts (the_loop s) (place s) \<longleftrightarrow> plain_wakeup (the_loop s) evs \<and> eventfd_counter (the_loop s) \<noteq> 0"
    by (simp add: assms(3))
  consider (none) "loop_channels (the_loop s) ?n = None"
    | (client) c where "loop_channels (the_loop s) ?n = Some (Handler c)"
    | (own) "loop_channels (the_loop s) ?n = Some Wakeup_handler" "?n = wakeup_fd (the_loop s)"
    using reg(2) by (metis handler.exhaust option.exhaust)
  then show ?thesis
  proof cases
    case none
    then show ?thesis using assms(1,3) way plain reg(1)
      by (auto simp: Cons loop_dispatch_def dispatch_def intro!: will_run_goto)
  next
    case client
    then show ?thesis using assms(1,3) way plain reg(1)
      by (auto simp: Cons loop_dispatch_def dispatch_def intro!: will_run_goto)
  next
    case own
    show ?thesis
    proof (cases "?e AND (EPOLLERR OR EPOLLHUP) = 0")
      case True
      have "loop_dispatch evs s = goto (if readable_event ?e then Reading rest else Dispatching rest) s"
        using own True by (simp add: Cons loop_dispatch_def dispatch_def handleEvent_def invoke_def readable_event_def goto_def Let_def)
      then show ?thesis using assms(1,3) way plain by (auto intro!: will_run_goto)
    next
      case False
      have "will_run ts (goto (Dispatching rest) s)" using assms(1,3) way plain False by (auto intro!: will_run_goto)
      then have "will_run ts (request_quit (goto (Dispatching rest) s))"
        using will_run_shared(3) [of ts "goto (Dispatching rest) s"] by (simp add: request_quit_def)
      with own False show ?thesis
        by (simp add: Cons loop_dispatch_def dispatch_def handleEvent_def invoke_def)
    qed
  qed
qed

lemma will_run_swap:
  assumes "will_run ts s" and "loop_inv s" and "place s = Swapping rest"
  shows "will_run ts (handleWakeup_swap rest s)"
proof -
  have "batch s = []" using assms(2,3) by (simp add: loop_inv_def)
  then show ?thesis using assms(1) by (auto simp: will_run_def handleWakeup_swap_def swap_tasks_def)
qed

lemma will_run_task:
  "will_run ts s \<Longrightarrow> place s = Running_tasks rest \<Longrightarrow> will_run ts (handleWakeup_task rest s)"
  by (auto simp: will_run_def handleWakeup_task_def prefix_append_left split: list.split)

lemma will_run_read:
  "will_run ts s \<Longrightarrow> place s = Reading rest \<Longrightarrow> will_run ts (handleWakeup_read b rest s)"
  by (auto simp: will_run_def handleWakeup_read_def wakeup_read_def split: option.split)

lemma will_run_timer:
  "will_run ts s \<Longrightarrow> place s = Running_timers now \<Longrightarrow> will_run ts (loop_timer pick now s)"
  by (auto simp: will_run_def loop_timer_def Let_def)

lemma will_run_poll:
  "will_run ts s \<Longrightarrow> place s = At_poll \<Longrightarrow> loop_poll pick now r s = Some s' \<Longrightarrow> will_run ts s'"
  by (auto simp: will_run_def loop_poll_def split: if_splits sum.splits)

lemma will_run_client:
  assumes "will_run ts s" and "client_step call s = Some s'"
  shows "will_run ts s'"
proof -
  obtain err l' where call: "loop_call call (the_loop s) = (err, l')" by (rule prod.exhaust)
  have "will_run ts (s\<lparr>the_loop := l'\<rparr>)"
    using assms(1) loop_call_frame(2-4) [OF call] by (auto intro: will_run_loop)
  moreover from this have "will_run ts (goto (Raised e) (s\<lparr>the_loop := l'\<rparr>))" for e
    by (auto intro!: will_run_goto)
  ultimately show ?thesis using assms(2) call by (cases err) (auto simp: client_step_def split: if_splits)
qed

lemma will_run_other:
  "will_run ts s \<Longrightarrow> place s = At_check \<Longrightarrow> will_run ts (loop_check s)"
  "will_run ts s \<Longrightarrow> place s = Not_started \<Longrightarrow> will_run ts (goto At_check s)"
  "will_run ts s \<Longrightarrow> place s = At_timers \<Longrightarrow> will_run ts (goto (Running_timers now) s)"
  "will_run ts s \<Longrightarrow> place s = In_callback p \<Longrightarrow> will_run ts (goto p s)"
  by (auto simp: loop_check_def intro!: will_run_goto)

lemma will_run_step:
  assumes "will_run ts s" and "loop_inv s" and "loop_step pick e s = Some s'"
  shows "will_run ts s'"
  using assms
  by (cases e; cases "place s")
    (auto simp: will_run_shared request_quit_def will_run_other will_run_dispatch will_run_swap will_run_task will_run_read
      will_run_timer intro: will_run_poll will_run_client split: if_splits)

text \<open>C16: Queued tasks run soon: when the loop thread has come back from a poll that reported the wake-up
  descriptor (and only the loop thread empties its counter), then in every continuation, once the loop
  thread is through with the reported events, all tasks that were waiting at that poll have been executed,
  whatever the callbacks and the other threads did meanwhile.\<close>

theorem queued_tasks_run_in_this_iteration:
  assumes "Epoller created n = Inr ep" and "EventLoop ep refused efd = (None, l)"
    and "run_steps (loop_step pick) es (start_run l) = Some s"
    and "loop_poll pick now (Ready evs) s = Some s1" and "place s = At_poll" and "plain_wakeup (the_loop s) evs"
    and "run_steps (loop_step pick) fs s1 = Some s2" and "place s2 = At_timers"
  shows "prefix (pushed s) (executed s2)"
proof -
  have inv: "loop_inv s" by (rule loop_run.run_keeps [OF assms(3) start_inv [OF assms(1,2)]])
  have inv1: "loop_inv s1" by (rule inv_poll [OF inv assms(5,4)])
  have allowed: "poll_allowed (the_loop s) (millisecondsUntilNextTimer pick now (loop_timers (the_loop s))) (Ready evs)"
    and s1: "s1 = goto (Dispatching evs) (s\<lparr>polls := polls s + 1\<rparr>)"
    using assms(4) by (auto simp: loop_poll_def wait_def split: if_splits)
  have "wakeup_reported (the_loop s) evs"
    using assms(6) by (auto simp: plain_wakeup_def wakeup_reported_def list_ex_iff)
  then have "eventfd_counter (the_loop s) \<noteq> 0" using allowed by (simp add: poll_allowed_def)
  moreover have "pushed s = executed s @ batch s @ pending_tasks (the_loop s)" using inv by (simp add: loop_inv_def)
  ultimately have start: "will_run (pushed s) s1" using assms(6) by (simp add: s1 will_run_def)
  have "will_run (pushed s) s1 \<longrightarrow> will_run (pushed s) s2"
    by (rule loop_run.run_relates [OF assms(7) inv1, where R = "\<lambda>a b. will_run (pushed s) a \<longrightarrow> will_run (pushed s) b"])
      (auto intro: will_run_step)
  then have "will_run (pushed s) s2" using start by blast
  then show ?thesis using assms(8) by (simp add: will_run_def)
qed

section \<open>Quitting\<close>

definition poll_bound :: "'c loop_run \<Rightarrow> nat" where
  "poll_bound s = polls s + (if place s = At_poll then 1 else 0)"

definition quitting :: "nat \<Rightarrow> 'c loop_run \<Rightarrow> bool" where
  "quitting k s \<longleftrightarrow> quit_flag (the_loop s) \<and> poll_bound s \<le> k"

lemma quitting_goto: "quitting k s \<Longrightarrow> p \<noteq> At_poll \<Longrightarrow> quitting k (goto p s)"
  by (auto simp: quitting_def poll_bound_def)

lemma quitting_loop:
  "quitting k s \<Longrightarrow> quit_flag l \<Longrightarrow> quitting k (s\<lparr>the_loop := l\<rparr>)"
  "quitting k (s\<lparr>writers := w\<rparr>) = quitting k s" "quitting k (s\<lparr>pushed := p\<rparr>) = quitting k s"
  "quitting k (s\<lparr>batch := b\<rparr>) = quitting k s" "quitting k (s\<lparr>executed := x\<rparr>) = quitting k s"
  "quitting k (s\<lparr>invoked := i\<rparr>) = quitting k s"
  "quitting k s \<Longrightarrow> quit_flag (the_loop s)"
  by (auto simp: quitting_def poll_bound_def)

lemma quitting_client:
  assumes "quitting k s" and "client_step call s = Some s'"
  shows "quitting k s'"
proof -
  obtain err l' where call: "loop_call call (the_loop s) = (err, l')" by (rule prod.exhaust)
  have "quit_flag l'" using loop_call_frame(1) [OF call] assms(1) by (simp add: quitting_def)
  then have "quitting k (s\<lparr>the_loop := l'\<rparr>)" by (rule quitting_loop(1) [OF assms(1)])
  with assms(2) call show ?thesis
    by (cases err) (auto simp: client_step_def quitting_goto split: if_splits)
qed

lemma quitting_poll:
  "quitting k s \<Longrightarrow> place s = At_poll \<Longrightarrow> loop_poll pick now r s = Some s' \<Longrightarrow> quitting k s'"
  by (auto simp: quitting_def poll_bound_def loop_poll_def split: if_splits sum.splits)

lemma quitting_step:
  assumes "quitting k s" and "loop_inv s" and "loop_step pick e s = Some s'"
  shows "quitting k s'"
proof -
  have "place_ok (place s)" using assms(2) by (simp add: loop_inv_def)
  with assms(1,3) quitting_loop(7) [OF assms(1)] show ?thesis
    by (cases e; cases "place s")
      (auto simp: request_quit_def quitting_loop quitting_goto loop_check_def loop_dispatch_def dispatch_def handleEvent_def
        invoke_def handleWakeup_read_def wakeup_read_def handleWakeup_swap_def swap_tasks_def handleWakeup_task_def
        loop_timer_def Let_def queue_push_def quit_def
        intro: quitting_client quitting_poll split: if_splits list.splits option.splits handler.splits place.splits)
qed

text \<open>C32: Quitting works: from the moment the flag is set the loop polls at most once more, and only if it
  was already past its test of the flag; that poll cannot block once the thread that quits has written to
  the eventfd, since the counter is then not zero and an empty report is impossible; and the next test of
  the flag ends the loop.\<close>

theorem quit_stops_the_loop:
  assumes "Epoller created n = Inr ep" and "EventLoop ep refused efd = (None, l)"
    and "run_steps (loop_step pick) es (start_run l) = Some s" and "quit_flag (the_loop s)"
    and "run_steps (loop_step pick) fs s = Some s2"
  shows "polls s2 \<le> polls s + (if place s = At_poll then 1 else 0) \<and>
    (place s2 = At_check \<longrightarrow> loop_step pick Check s2 = Some (goto Finished s2)) \<and>
    (place s2 = At_poll \<and> writers s2 = 0 \<longrightarrow> loop_poll pick now (Ready []) s2 = None)"
proof -
  have inv: "loop_inv s" by (rule loop_run.run_keeps [OF assms(3) start_inv [OF assms(1,2)]])
  have inv2: "loop_inv s2" by (rule loop_run.run_keeps [OF assms(5) inv])
  have "quitting (poll_bound s) s" using assms(4) by (simp add: quitting_def)
  moreover have "quitting (poll_bound s) s \<longrightarrow> quitting (poll_bound s) s2"
    by (rule loop_run.run_relates [OF assms(5) inv, where R = "\<lambda>a b. quitting (poll_bound s) a \<longrightarrow> quitting (poll_bound s) b"])
      (auto intro: quitting_step)
  ultimately have q: "quitting (poll_bound s) s2" by blast
  have size: "max_events (loop_epoller (the_loop s2)) \<noteq> 0" using inv2 by (simp add: loop_inv_def)
  have "eventfd_counter (the_loop s2) \<noteq> 0" if "place s2 = At_poll" "writers s2 = 0"
    using inv2 q that unfolding loop_inv_def quitting_def by auto
  then show ?thesis
    using q size by (auto simp: quitting_def poll_bound_def loop_check_def loop_poll_def poll_allowed_def wakeup_reported_def split: if_splits)
qed

section \<open>A concrete run\<close>

text \<open>A loop with epoll instance 3 and eventfd 4; tasks are numbers.\<close>

definition demo_loop :: "nat event_loop" where
  "demo_loop = snd (EventLoop (projr (Epoller 3 16)) False 4)"

definition demo_run :: "nat loop_event list \<Rightarrow> nat loop_run" where
  "demo_run es = the (run_steps (loop_step first_top) es (start_run demo_loop))"

definition demo_before :: "nat loop_event list" where
  "demo_before = [Start, Push 7, Check, Push 8, Write_eventfd True, Write_eventfd False, Write_eventfd False]"

definition demo_after :: "nat loop_event list" where
  "demo_after = [Dispatch_next, Read_eventfd True, Push 9, Read_eventfd False, Set_quit, Swap, Next_task,
     Call (Add False (enableReading (new_channel 5)) 50), Callback_returns, Next_task, Callback_returns,
     Next_task, Callback_returns, Next_task, Dispatch_next]"

lemma demo_start:
  "Epoller 3 16 = Inr (projr (Epoller 3 16))" "EventLoop (projr (Epoller 3 16)) False 4 = (None, demo_loop)"
  by (simp_all add: Epoller_def demo_loop_def EventLoop_def loop_defs)

lemma some_the: "\<not> Option.is_none x \<Longrightarrow> x = Some (the x)"
  by (cases x) simp_all

lemma demo_steps:
  "run_steps (loop_step first_top) demo_before (start_run demo_loop) = Some (demo_run demo_before)"
  "run_steps (loop_step first_top) [Start, Push 7, Set_quit] (start_run demo_loop) = Some (demo_run [Start, Push 7, Set_quit])"
  unfolding demo_run_def by (rule some_the, code_simp)+

lemma event_loop_loses_no_task_witness:
  "pushed (demo_run demo_before) = executed (demo_run demo_before) @ [] @ [7, 8] \<and>
   (wakeup_reported (the_loop (demo_run demo_before)) [(4, 1)] \<or>
    length [(4 :: int, 1 :: u32)] = max_events (loop_epoller (the_loop (demo_run demo_before))))"
proof -
  have facts: "place (demo_run demo_before) = At_poll" "pending_tasks (the_loop (demo_run demo_before)) = [7, 8]"
    "writers (demo_run demo_before) = 0" "\<not> Option.is_none (loop_poll first_top 0 (Ready [(4, 1)]) (demo_run demo_before))"
    by code_simp+
  note safe = event_loop_loses_no_task [OF demo_start demo_steps(1)]
  have "loop_poll first_top 0 (Ready [(4, 1)]) (demo_run demo_before) \<noteq> None" using facts(4) by (simp add: Option.is_none_def)
  then have "wakeup_reported (the_loop (demo_run demo_before)) [(4, 1)] \<or>
      length [(4 :: int, 1 :: u32)] = max_events (loop_epoller (the_loop (demo_run demo_before)))"
    using facts(1-3) by (intro safe [THEN conjunct2, THEN conjunct2, THEN mp, THEN spec [of _ 0], THEN spec [of _ "[(4, 1)]"], THEN mp]) simp_all
  moreover have "batch (demo_run demo_before) = []" using safe [THEN conjunct2, THEN conjunct1] facts(1) by simp
  ultimately show ?thesis using safe facts(2) by simp
qed

definition demo_poll :: "nat loop_run" where
  "demo_poll = the (loop_poll first_top 0 (Ready [(4, 1)]) (demo_run demo_before))"

lemma queued_tasks_run_in_this_iteration_witness:
  "prefix [7, 8] (executed (the (run_steps (loop_step first_top) demo_after demo_poll)))"
proof -
  have steps: "loop_poll first_top 0 (Ready [(4, 1)]) (demo_run demo_before) = Some demo_poll"
    "run_steps (loop_step first_top) demo_after demo_poll = Some (the (run_steps (loop_step first_top) demo_after demo_poll))"
    unfolding demo_poll_def by (rule some_the, code_simp)+
  have "place (demo_run demo_before) = At_poll" "plain_wakeup (the_loop (demo_run demo_before)) [(4, 1)]"
    "place (the (run_steps (loop_step first_top) demo_after demo_poll)) = At_timers"
    "pushed (demo_run demo_before) = [7, 8]"
    by code_simp+
  with queued_tasks_run_in_this_iteration [OF demo_start demo_steps(1) steps(1) _ _ steps(2)] show ?thesis by simp
qed

definition demo_last :: "nat loop_run" where
  "demo_last = the (run_steps (loop_step first_top) [Check] (demo_run [Start, Push 7, Set_quit]))"

lemma quit_stops_the_loop_witness: "polls demo_last = 0"
proof -
  have run: "run_steps (loop_step first_top) [Check] (demo_run [Start, Push 7, Set_quit]) = Some demo_last"
    unfolding demo_last_def by (rule some_the, code_simp)
  have "quit_flag (the_loop (demo_run [Start, Push 7, Set_quit]))"
    and "polls (demo_run [Start, Push 7, Set_quit]) = 0" "place (demo_run [Start, Push 7, Set_quit]) = At_check"
    by code_simp+
  with quit_stops_the_loop [OF demo_start demo_steps(2) this(1) run, of 0] show ?thesis by simp
qed

text \<open>A task that waits when the loop stops is dropped.\<close>

lemma waiting_task_dropped:
  "let s = demo_run [Start, Push 7, Set_quit, Check]
   in place s = Finished \<and> executed s = [] \<and> pending_tasks (the_loop s) = [7]"
  by code_simp

end
