(* ===== verification/IoLoopRun.thy ===== *)
theory IoLoopRun
  imports IoLoop EventLoopLiveness
begin

text \<open>
  The callbacks of \<open>IoLoop\<close> keep its invariant: each event that the loop dispatches may happen to the
  connection that it reaches. So every run of the loop keeps it, and the properties of loop and connections
  follow.
\<close>

section \<open>The callbacks\<close>

lemma other_connections_cong:
  assumes "other_connections answers lat k n s" and "conns s' = conns s" and "outstanding s' = outstanding s"
    and "clock s \<le> clock s'" and "loop_channels (the_loop (io_run s')) = loop_channels (the_loop (io_run s))"
    and "loop_epoller (the_loop (io_run s')) = loop_epoller (the_loop (io_run s))"
    and "\<And>j. j \<noteq> k \<Longrightarrow> (\<Sum>t\<leftarrow>loop_timers (the_loop (io_run s')). idle_checks j t) =
      (\<Sum>t\<leftarrow>loop_timers (the_loop (io_run s)). idle_checks j t)"
    and "\<And>j. j < length (conns s) \<Longrightarrow> j \<noteq> k \<Longrightarrow> results_of j s' = results_of j s"
  shows "other_connections answers lat k n s'"
proof -
  have "jobs_of j s' = jobs_of j s" for j using assms(3) by (simp add: jobs_of_def)
  moreover have "on_loop h m c (the_loop (io_run s')) = on_loop h m c (the_loop (io_run s))" for h m c
    using assms(5,6) by (simp add: on_loop_def)
  moreover have "t \<le> clock s \<Longrightarrow> t \<le> clock s'" for t using assms(4) by simp
  ultimately show ?thesis using assms(1,7,8) unfolding other_connections_def assms(2,5) by simp
qed

lemma io_inv_parts:
  assumes "io_inv answers lat s"
  shows "registry_inv s" "tasks_inv s" "timers_inv s" "clock_inv s" "pipelines_inv answers lat s"
    "0 \<le> wakeup_fd (the_loop (io_run s))"
  using assms by (simp_all add: io_inv_def io_inv_at_def registry_inv_def)

lemma io_inv_conn:
  assumes "io_inv answers lat s" and "k < length (conns s)"
  shows "pipeline_run answers lat (conns s ! k) (jobs_of k s) (results_of k s)" and "conn_ctl (conns s ! k)"
    and "last_activity_at (conns s ! k) \<le> clock s"
  using assms pipeline_run_ctl(1) by (auto simp: io_inv_def io_inv_at_def pipelines_inv_def clock_inv_def)

text \<open>A readiness event.\<close>

lemma ready_inv:
  assumes inv: "io_inv answers lat s" and step: "loop_step pick Dispatch_next (io_run s) = Some r"
    and cb: "place r = In_callback p" and t: "clock s \<le> env_read env" "env_read env \<le> env_write env"
  shows "\<exists>cb. started_callback pick (io_run s) r = Some cb \<and>
    io_inv answers lat (run_callback lat env cb (s\<lparr>io_run := r, clock := env_write env\<rparr>))"
proof -
  let ?r = "io_run s"
  obtain evs where at: "place ?r = Dispatching evs" and r: "r = loop_dispatch evs ?r"
    using step by (auto split: place.splits)
  obtain n revents rest where evs: "evs = (n, revents) # rest"
    using cb r at by (cases evs) (auto simp: loop_dispatch_def)
  obtain x where x: "loop_channels (the_loop ?r) n = Some (Handler x)"
    and r': "r = goto (In_callback (Dispatching rest)) (?r\<lparr>invoked := invoked ?r @ [(n, revents, x)]\<rparr>)" and p: "p = Dispatching rest"
    using cb r evs by (auto simp: loop_dispatch_def dispatch_def handleEvent_def invoke_def Let_def request_quit_def
        simp del: epoll_bits split: option.splits handler.splits if_splits)
  obtain k where k: "k < length (conns s)" "x = Connection k" "registered (conns s ! k)" "fd (conns s ! k) = n"
    using io_inv_parts(1) [OF inv] x unfolding registry_inv_def by blast
  let ?c = "conns s ! k" and ?s = "s\<lparr>io_run := r, clock := env_write env\<rparr>"
  define ev where "ev = Dispatch revents (env_recvs env) (env_sends env) (env_read env) (env_write env)"
  have started: "started_callback pick ?r r = Some (Ready_callback (Connection k) revents)"
    by (simp add: started_callback_def r' k(2) goto_def)
  have place: "place_inv (Dispatching evs) s" using io_inv_place [OF inv] at by simp
  then have "n \<notin> fst ` set rest" "reports_ok s rest" "bit revents 2 \<longrightarrow> wants_write (conn_channel ?c)"
    using k evs reports_ok_Cons by (auto simp: reports_ok_def)
  moreover have "wants_read (conn_channel ?c)" using io_inv_conn(2) [OF inv k(1)] k(3) by (simp add: conn_ctl_def conn_base_def)
  ultimately have en: "tcp_enabled ev ?c" and n: "n \<notin> fst ` set rest" and ok: "reports_ok s rest"
    using k(3) io_inv_conn(3) [OF inv k(1)] t by (simp_all add: ev_def)
  obtain c' where c': "tcp_step ev ?c = Inr c'" using tcp_step_ctl [OF io_inv_conn(2) [OF inv k(1)] en] by blast
  have seat: "seat ?c = n" using k by (simp add: seat_def)
  note on = seat_on_loop [OF inv k(1), unfolded seat]
  have same: "conns ?s ! k = ?c" "jobs_of k ?s = jobs_of k s" "results_of k ?s = results_of k s" "the_loop (io_run ?s) = the_loop ?r"
    "io_tasks ?s = io_tasks s" "place (io_run ?s) = In_callback (Dispatching rest)"
    by (simp_all add: jobs_of_def results_of_def r')
  have "io_inv answers lat (finish_callback k (conns ?s ! k) (tcp_step ev (conns ?s ! k)) ?s)"
  proof (rule acting [where p = "Dispatching rest" and n = n and c' = c'])
    show "loop_inv (io_run ?s)" using loop_step_inv [OF io_inv_loop [OF inv] step] by simp
    show "other_connections answers lat k n ?s"
      by (rule other_connections_cong [OF on(4)]) (use t same in \<open>simp_all add: results_of_def\<close>)
    show "pipeline_run answers lat c' (jobs_of k ?s @ new_jobs (conns ?s ! k) c') (results_of k ?s)"
      using pipeline_run_io [OF io_inv_conn(1) [OF inv k(1)] _ en c'] unfolding same by (simp add: ev_def)
    show "mset (pending_timers (before_event ev (conns ?s ! k))) = (\<Sum>t\<leftarrow>loop_timers (the_loop (io_run ?s)). idle_checks k t)"
      using io_inv_parts(3) [OF inv] k(1) by (simp add: timers_inv_def same ev_def r')
    show "place_inv (Dispatching rest) ?s"
      using place ok all_known_Cons unfolding evs by (auto simp: r' all_known_def)
    show "while_tasks (Dispatching rest) \<and> (registered c' \<and> bit ev' 2 \<longrightarrow> wants_write (conn_channel c'))"
      if "(n, ev') \<in> set (reports (Dispatching rest))" for ev' using that n by force
    show "tasks_inv ?s" using io_inv_parts(2) [OF inv] by (simp add: tasks_inv_def r')
    show "list_all (timer_ok (length (conns ?s))) (loop_timers (the_loop (io_run ?s)))"
      using io_inv_parts(3) [OF inv] by (simp add: timers_inv_def r')
  qed (use k on io_inv_parts(6) [OF inv] c' en in \<open>simp_all add: same r' ev_def\<close>)
  with started show ?thesis by (simp add: same ev_def callback_bodies)
qed

text \<open>The task that delivers a result.\<close>

lemma writer_not_processing:
  "conn_ctl c \<Longrightarrow> wants_write (conn_channel c) \<Longrightarrow> finishRequest i r cl ss now c = Inr c"
  by (auto simp: conn_ctl_def conn_base_def finishRequest_def)

lemma next_task_result:
  assumes "loop_step pick Next_task r0 = Some r" and "place r = In_callback p"
  shows "\<exists>rest t ts. place r0 = Running_tasks rest \<and> p = Running_tasks rest \<and> batch r0 = t # ts \<and>
    r = goto (In_callback (Running_tasks rest)) (r0\<lparr>batch := ts, executed := executed r0 @ [t]\<rparr>) \<and>
    started_callback pick r0 r = Some (Task_callback t)"
  using assms by (auto simp: handleWakeup_task_def started_callback_def split: place.splits list.splits)

lemma delivery_inv:
  assumes inv: "io_inv answers lat s" and step: "loop_step pick Next_task (io_run s) = Some r"
    and at: "place (io_run s) = Running_tasks rest" "batch (io_run s) = Delivery k i reply cl # ts"
    and r: "r = goto (In_callback (Running_tasks rest)) ((io_run s)\<lparr>batch := ts, executed := es\<rparr>)"
    and t: "clock s \<le> env_read env" "env_read env \<le> env_write env"
  shows "io_inv answers lat (run_callback lat env (Task_callback (Delivery k i reply cl)) (s\<lparr>io_run := r, clock := env_write env\<rparr>))"
proof -
  let ?r = "io_run s" and ?c = "conns s ! k" and ?s = "s\<lparr>io_run := r, clock := env_write env\<rparr>"
  have k: "k < length (conns s)" using io_inv_parts(2) [OF inv] at(2) by (simp add: tasks_inv_def)
  note ctl = io_inv_conn(2) [OF inv k]
  define ev where "ev = Finish i reply cl (env_sends env) (env_write env)"
  have en: "tcp_enabled ev ?c" using io_inv_conn(3) [OF inv k] t by (simp add: ev_def)
  obtain c' where c': "tcp_step ev ?c = Inr c'" using tcp_step_ctl [OF ctl en] by blast
  note on = seat_on_loop [OF inv k]
  have before: "results_of k s = (i, reply, cl) # results_of k ?s" "\<And>j. j \<noteq> k \<Longrightarrow> results_of j s = results_of j ?s"
    using at(2) by (simp_all add: results_of_def r)
  have same: "conns ?s ! k = ?c" "jobs_of k ?s = jobs_of k s" "the_loop (io_run ?s) = the_loop ?r"
    "place (io_run ?s) = In_callback (Running_tasks rest)"
    by (simp_all add: jobs_of_def r)
  have closed: "c' = ?c" if "\<not> registered ?c"
  proof -
    have "fd ?c < 0" using ctl that unfolding conn_ctl_def conn_base_def by (meson not_le)
    then show ?thesis using c' by (simp add: ev_def finishRequest_def)
  qed
  have place: "place_inv (Running_tasks rest) s" using io_inv_place [OF inv] at(1) by simp
  have tasks: "tasks_inv ?s"
    using io_inv_parts(2) [OF inv] at(2) by (simp add: tasks_inv_def r)
  have "io_inv answers lat (finish_callback k (conns ?s ! k) (tcp_step ev (conns ?s ! k)) ?s)"
  proof (rule acting [where p = "Running_tasks rest" and n = "seat ?c" and c' = c'])
    show "loop_inv (io_run ?s)" using loop_step_inv [OF io_inv_loop [OF inv] step] by simp
    show "other_connections answers lat k (seat ?c) ?s"
      by (rule other_connections_cong [OF on(4)]) (use t before(2) same in simp_all)
    show "pipeline_run answers lat c' (jobs_of k ?s @ new_jobs (conns ?s ! k) c') (results_of k ?s)"
    proof (cases "registered ?c")
      case True
      have "pipeline_run answers lat ?c (jobs_of k s) ((i, reply, cl) # results_of k ?s)"
        using io_inv_conn(1) [OF inv k] by (simp only: before(1))
      from pipeline_run_deliver [OF this True en [unfolded ev_def] c' [unfolded ev_def]] show ?thesis by (simp add: same)
    next
      case False
      with closed pipeline_run_closed [OF io_inv_conn(1) [OF inv k]] show ?thesis by simp
    qed
    show "mset (pending_timers (before_event ev (conns ?s ! k))) = (\<Sum>t\<leftarrow>loop_timers (the_loop (io_run ?s)). idle_checks k t)"
      using io_inv_parts(3) [OF inv] k by (simp add: timers_inv_def same ev_def r)
    show "place_inv (Running_tasks rest) ?s"
      using place at(2) by (auto simp: r)
    show "while_tasks (Running_tasks rest) \<and> (registered c' \<and> bit ev' 2 \<longrightarrow> wants_write (conn_channel c'))"
      if "(seat ?c, ev') \<in> set (reports (Running_tasks rest))" for ev'
    proof -
      have "wants_write (conn_channel c')" if "registered c'" "bit ev' 2"
      proof -
        have "registered ?c" using closed that(1) by blast
        moreover have "fd ?c = seat ?c" using calculation by (simp add: seat_def)
        moreover have "reports_ok s rest" using place by simp
        ultimately have "wants_write (conn_channel ?c)"
          using k \<open>(seat ?c, ev') \<in> _\<close> \<open>bit ev' 2\<close> unfolding reports_ok_def reports.simps by blast
        with writer_not_processing [OF ctl] c' show ?thesis by (simp add: ev_def)
      qed
      then show ?thesis by simp
    qed
    show "tasks_inv ?s" by (rule tasks)
    show "list_all (timer_ok (length (conns ?s))) (loop_timers (the_loop (io_run ?s)))"
      using io_inv_parts(3) [OF inv] by (simp add: timers_inv_def r)
    show "seat ?c \<notin> set (new_fds (io_tasks ?s))" using on(3) at(2) by (simp add: r)
  qed (use k on io_inv_parts(6) [OF inv] c' en in \<open>simp_all add: same ev_def r\<close>)
  then show ?thesis by (simp add: same ev_def callback_bodies)
qed

text \<open>The task that establishes a connection.\<close>

lemma idle_checks_none:
  "list_all (timer_ok m) ts \<Longrightarrow> m \<le> j \<Longrightarrow> (\<Sum>t\<leftarrow>ts. idle_checks j t) = {#}"
  by (induction ts) (auto simp: idle_checks.simps timer_ok.simps split: io_client.splits)

lemma deliveries_none:
  "list_all (task_ok m) ts \<Longrightarrow> m \<le> j \<Longrightarrow> concat (map (delivery j) ts) = []"
proof (induction ts)
  case (Cons t ts)
  then show ?case by (cases t) auto
qed simp

lemma task_ok_mono: "list_all (task_ok m) ts \<Longrightarrow> m \<le> m' \<Longrightarrow> list_all (task_ok m') ts"
proof (induction ts)
  case (Cons t ts)
  then show ?case by (cases t) auto
qed simp

lemma timer_ok_mono: "list_all (timer_ok m) ts \<Longrightarrow> m \<le> m' \<Longrightarrow> list_all (timer_ok m') ts"
  by (induction ts) (auto simp: timer_ok.simps split: io_client.splits)

lemma establish_inv:
  assumes inv: "io_inv answers lat s" and step: "loop_step pick Next_task (io_run s) = Some r"
    and at: "place (io_run s) = Running_tasks rest" "batch (io_run s) = New_connection n # ts"
    and r: "r = goto (In_callback (Running_tasks rest)) ((io_run s)\<lparr>batch := ts, executed := es\<rparr>)"
    and t: "clock s \<le> env_read env" "env_read env \<le> env_write env"
  shows "io_inv answers lat (run_callback lat env (Task_callback (New_connection n)) (s\<lparr>io_run := r, clock := env_write env\<rparr>))"
proof -
  let ?r = "io_run s" and ?k = "length (conns s)"
  define c c' where "c = TcpConnection n connection_timeout lat" and "c' = establish (env_write env) c"
  define s2 where "s2 = s\<lparr>io_run := r, clock := env_write env, conns := conns s @ [c]\<rparr>"
  note tasks = io_inv_parts(2) [OF inv, unfolded tasks_inv_def] and timers = io_inv_parts(3) [OF inv, unfolded timers_inv_def]
  have n: "0 \<le> n" "loop_channels (the_loop ?r) n = None" "n \<notin> set (new_fds (ts @ pending_tasks (the_loop ?r)))"
    using tasks at(2) by simp_all
  have "loop_interest (the_loop ?r) n = None" using n(2) io_inv_loop [OF inv] unfolding loop_inv_def by blast
  from establish_calls [OF n(2) this, of "Connection ?k" "Idle_check ?k" "env_write env" connection_timeout lat]
  obtain l' where l': "replay (Connection ?k) (Idle_check ?k) (tcp_log c') (the_loop ?r) = (None, l')"
    "on_loop (Connection ?k) n c' l'" "loop_frame n (the_loop ?r) l'"
    "loop_timers l' = loop_timers (the_loop ?r) @ named_timers (Idle_check ?k) (pending_timers c')"
    unfolding c'_def c_def by blast
  have old: "conns s2 ! j = conns s ! j" "jobs_of j s2 = jobs_of j s" if "j < ?k" for j
    using that by (simp_all add: s2_def nth_append jobs_of_def)
  have results: "results_of j s2 = results_of j s" for j using at(2) by (simp add: s2_def results_of_def r)
  have run: "the_loop (io_run s2) = the_loop ?r" "place (io_run s2) = In_callback (Running_tasks rest)" "length (conns s2) = Suc ?k"
    "io_tasks s2 = ts @ pending_tasks (the_loop ?r)" "clock s2 = env_write env" "batch (io_run s2) = ts"
    by (simp_all add: s2_def r)
  have place: "place_inv (Running_tasks rest) s" using io_inv_place [OF inv] at(1) by simp
  have wake: "loop_channels (the_loop ?r) (wakeup_fd (the_loop ?r)) = Some Wakeup_handler"
    using io_inv_loop [OF inv] by (simp add: loop_inv_def wakeup_registered_def)
  have log: "tcp_log c = []" by (simp add: c_def TcpConnection_def)
  have none: "jobs_of ?k s2 = []" "results_of ?k s2 = []"
    using tasks deliveries_none [of ?k "io_tasks s" ?k] unfolding results
    by (auto simp: s2_def jobs_of_def results_of_def filter_empty_conv)
  have "new_jobs c c' = []"
    by (simp add: new_jobs_def c'_def c_def establish_def Let_def loop_addChannel_def TcpConnection_def scheduleIdleCheck_def log_defs)
  moreover have "pipeline_run answers lat c' [] []" unfolding c'_def c_def by (rule pipeline_run_start [OF n(1)])
  ultimately have pip: "pipeline_run answers lat c' (jobs_of ?k s2 @ new_jobs c c') (results_of ?k s2)" by (simp add: none)
  have "io_inv answers lat (finish_callback ?k c (Inr c') s2)"
  proof (rule finish_callback_inv [where p = "Running_tasks rest" and n = n and l' = l' and ts = "pending_timers c'"])
    show "replay (Connection ?k) (Idle_check ?k) (drop (length (tcp_log c)) (tcp_log c')) (the_loop (io_run s2)) = (None, l')"
      using l'(1) by (simp add: run log)
    show "mset (pending_timers c') = (\<Sum>t\<leftarrow>loop_timers (the_loop (io_run s2)). idle_checks ?k t) + mset (pending_timers c')"
      using idle_checks_none [of ?k _ ?k] timers by (simp add: run)
    show "n \<noteq> wakeup_fd (the_loop (io_run s2))" using n(2) wake by (auto simp: run)
    show "tasks_inv s2"
      using tasks at(2) task_ok_mono [of ?k _ "Suc ?k"]
      by (auto simp: tasks_inv_def run s2_def r)
    show "list_all (timer_ok (length (conns s2))) (loop_timers (the_loop (io_run s2)))"
      using timers timer_ok_mono [of ?k _ "Suc ?k"] by (simp add: run)
    show "other_connections answers lat ?k n s2"
      unfolding other_connections_def
    proof (intro conjI allI impI)
      fix j assume j: "j < length (conns s2)" "j \<noteq> ?k"
      then have j': "j < ?k" by (simp add: run)
      note o = old [OF j'] and inv_j = io_inv_conn [OF inv j']
      show "pipeline_run answers lat (conns s2 ! j) (jobs_of j s2) (results_of j s2)" using inv_j(1) by (simp add: o results)
      show "last_activity_at (conns s2 ! j) \<le> clock s2" using inv_j(3) t by (simp add: o run)
      show "mset (pending_timers (conns s2 ! j)) = (\<Sum>t\<leftarrow>loop_timers (the_loop (io_run s2)). idle_checks j t)"
        using timers j' by (simp add: o run)
      assume reg: "registered (conns s2 ! j)"
      then have on: "on_loop (Connection j) (fd (conns s ! j)) (conns s ! j) (the_loop ?r)"
        using io_inv_parts(1) [OF inv] j' by (simp add: registry_inv_def o)
      then show "on_loop (Connection j) (fd (conns s2 ! j)) (conns s2 ! j) (the_loop (io_run s2))" by (simp add: o run)
      show "fd (conns s2 ! j) \<noteq> n" using on reg n(2) by (auto simp: o on_loop_def)
    next
      fix m x assume "m \<noteq> n \<and> loop_channels (the_loop (io_run s2)) m = Some (Handler x)"
      then obtain j where "j < ?k" "x = Connection j" "registered (conns s ! j)" "fd (conns s ! j) = m"
        using io_inv_parts(1) [OF inv] unfolding registry_inv_def run by blast
      then show "\<exists>j < length (conns s2). j \<noteq> ?k \<and> x = Connection j \<and> registered (conns s2 ! j) \<and> fd (conns s2 ! j) = m"
        by (intro exI [of _ j]) (simp add: old run)
    qed
    have "reports_ok s2 rest"
    proof -
      have "wants_write (conn_channel (conns s2 ! j))"
        if "j < Suc ?k" "registered (conns s2 ! j)" "(fd (conns s2 ! j), rev) \<in> set rest" "bit rev 2" for j rev
      proof (cases "j = ?k")
        case True
        then have "\<not> registered (conns s2 ! j)" by (simp add: s2_def c_def TcpConnection_def)
        with that show ?thesis by simp
      next
        case False
        then have "j < ?k" using that(1) by simp
        with that old place show ?thesis by (auto simp: reports_ok_def)
      qed
      moreover have "distinct (map fst rest)" using place by (simp add: reports_ok_def)
      ultimately show ?thesis unfolding reports_ok_def run by blast
    qed
    then show "place_inv (Running_tasks rest) s2" using place at(2) by (auto simp: run)
    show "while_tasks (Running_tasks rest) \<and> (registered c' \<and> bit ev' 2 \<longrightarrow> wants_write (conn_channel c'))"
      if "(n, ev') \<in> set (reports (Running_tasks rest))" for ev'
      using that place at(2) by force
    show "last_activity_at c' \<le> clock s2"
      by (simp add: run c'_def c_def establish_def Let_def scheduleIdleCheck_def)
    show "loop_inv (io_run s2)" using loop_step_inv [OF io_inv_loop [OF inv] step] by (simp add: s2_def)
  qed (use l' n pip io_inv_parts(6) [OF inv] in \<open>simp_all add: run\<close>)
  then show ?thesis by (simp add: callback_bodies Let_def c_def c'_def s2_def)
qed

text \<open>A timer.\<close>

lemma sum_list_without:
  fixes f :: "'a \<Rightarrow> 'b :: comm_monoid_add"
  shows "i < length xs \<Longrightarrow> (\<Sum>x\<leftarrow>xs. f x) = f (xs ! i) + (\<Sum>x\<leftarrow>take i xs @ drop (Suc i) xs. f x)"
  by (subst (1) id_take_nth_drop [of i xs]) (simp_all add: ac_simps)

lemma timer_inv:
  assumes inv: "io_inv answers lat s" and step: "loop_step pick Next_timer (io_run s) = Some r" and top: "valid_top pick"
    and cb: "place r = In_callback p" and t: "clock s \<le> env_read env" "env_read env \<le> env_write env"
  shows "\<exists>cb. started_callback pick (io_run s) r = Some cb \<and>
    io_inv answers lat (run_callback lat env cb (s\<lparr>io_run := r, clock := env_write env\<rparr>))"
proof -
  let ?r = "io_run s" and ?q = "loop_timers (the_loop (io_run s))" and ?s = "s\<lparr>io_run := r, clock := env_write env\<rparr>"
  obtain now where at: "place ?r = Running_timers now" and "r = loop_timer pick now ?r"
    using step by (auto split: place.splits)
  then have due: "?q \<noteq> []" "deadline (timer_top pick ?q) \<le> now"
    and r: "r = goto (In_callback (Running_timers now)) (?r\<lparr>the_loop := (the_loop ?r)\<lparr>loop_timers := timer_pop pick ?q\<rparr>\<rparr>)"
    and p: "p = Running_timers now"
    using cb by (auto simp: loop_timer_def Let_def split: if_splits)
  have i: "pick ?q < length ?q" using top due(1) by (simp add: valid_top_def)
  define tm where "tm = timer_top pick ?q"
  have "tm \<in> set ?q" using i by (simp add: tm_def timer_top_def)
  then have "timer_ok (length (conns s)) tm"
    using io_inv_parts(3) [OF inv] by (auto simp: timers_inv_def list_all_iff)
  then obtain k g where k: "k < length (conns s)" "callback tm = Idle_check k g"
    by (auto simp: timer_ok.simps split: io_client.splits)
  have sum: "(\<Sum>t\<leftarrow>?q. idle_checks j t) = idle_checks j tm + (\<Sum>t\<leftarrow>timer_pop pick ?q. idle_checks j t)" for j
    using sum_list_without [OF i, of "idle_checks j"] by (simp add: tm_def timer_top_def timer_pop_def)
  let ?c = "conns s ! k"
  define ev where "ev = Timer (deadline tm) g (env_write env)"
  have pend: "mset (pending_timers ?c) = {#(deadline tm, g)#} + (\<Sum>t\<leftarrow>timer_pop pick ?q. idle_checks k t)"
    using io_inv_parts(3) [OF inv] k sum [of k] by (simp add: timers_inv_def idle_checks.simps)
  then have mem: "(deadline tm, g) \<in> set (pending_timers ?c)" by (metis in_multiset_in_set union_iff union_single_eq_member)
  have "now \<le> clock s" using io_inv_place [OF inv] at by simp
  then have "deadline tm \<le> env_write env" using due(2) t by (simp add: tm_def)
  then have en: "tcp_enabled ev ?c" using mem io_inv_conn(3) [OF inv k(1)] t by (simp add: ev_def)
  obtain c' where c': "tcp_step ev ?c = Inr c'" using tcp_step_ctl [OF io_inv_conn(2) [OF inv k(1)] en] by blast
  note on = seat_on_loop [OF inv k(1)]
  have same: "conns ?s ! k = ?c" "jobs_of k ?s = jobs_of k s" "results_of k ?s = results_of k s"
    "loop_channels (the_loop (io_run ?s)) = loop_channels (the_loop ?r)" "loop_epoller (the_loop (io_run ?s)) = loop_epoller (the_loop ?r)"
    "wakeup_fd (the_loop (io_run ?s)) = wakeup_fd (the_loop ?r)" "io_tasks ?s = io_tasks s"
    "place (io_run ?s) = In_callback (Running_timers now)" "loop_timers (the_loop (io_run ?s)) = timer_pop pick ?q"
    by (simp_all add: jobs_of_def results_of_def r)
  have "io_inv answers lat (finish_callback k (conns ?s ! k) (tcp_step ev (conns ?s ! k)) ?s)"
  proof (rule acting [where p = "Running_timers now" and n = "seat ?c" and c' = c'])
    show "loop_inv (io_run ?s)" using loop_step_inv [OF io_inv_loop [OF inv] step] by simp
    have "idle_checks j tm = {#}" if "j \<noteq> k" for j using that k(2) by (simp add: idle_checks.simps)
    then show "other_connections answers lat k (seat ?c) ?s"
      by (intro other_connections_cong [OF on(4)]) (use t same sum in \<open>simp_all add: results_of_def\<close>)
    show "pipeline_run answers lat c' (jobs_of k ?s @ new_jobs (conns ?s ! k) c') (results_of k ?s)"
      using pipeline_run_io [OF io_inv_conn(1) [OF inv k(1)] _ en c'] unfolding same by (simp add: ev_def)
    show "mset (pending_timers (before_event ev (conns ?s ! k))) = (\<Sum>t\<leftarrow>loop_timers (the_loop (io_run ?s)). idle_checks k t)"
      using pend by (simp add: same ev_def r)
    show "place_inv (Running_timers now) ?s" using \<open>now \<le> clock s\<close> t by simp
    show "while_tasks (Running_timers now) \<and> (registered c' \<and> bit ev' 2 \<longrightarrow> wants_write (conn_channel c'))"
      if "(seat ?c, ev') \<in> set (reports (Running_timers now))" for ev' using that by simp
    show "tasks_inv ?s" using io_inv_parts(2) [OF inv] by (simp add: tasks_inv_def r)
    show "list_all (timer_ok (length (conns ?s))) (loop_timers (the_loop (io_run ?s)))"
    proof -
      have "set (timer_pop pick ?q) \<subseteq> set ?q"
        by (auto simp: timer_pop_def dest: in_set_takeD in_set_dropD)
      then show ?thesis using io_inv_parts(3) [OF inv] by (auto simp: timers_inv_def r list_all_iff)
    qed
    show "on_loop (Connection k) (seat ?c) (conns ?s ! k) (the_loop (io_run ?s))"
      using on(1) by (simp add: on_loop_def r)
  qed (use k on(2,3) io_inv_parts(6) [OF inv] c' en in \<open>simp_all add: r ev_def\<close>)
  moreover have "started_callback pick ?r r = Some (Timer_callback tm)"
    by (simp add: started_callback_def r tm_def)
  ultimately show ?thesis using k(2) by (simp add: ev_def callback_bodies)
qed

section \<open>Every run keeps the invariant\<close>

lemma callback_starts:
  assumes "io_inv answers lat s" and "loop_step pick e (io_run s) = Some r" and "loop_thread_event e"
    and "started_callback pick (io_run s) r \<noteq> None"
  shows "\<exists>p. place r = In_callback p \<and> e \<in> {Dispatch_next, Next_task, Next_timer}"
proof -
  obtain p where p: "place r = In_callback p" using assms(4) by (auto simp: started_callback_def split: place.splits)
  have no: "place (io_run s) \<noteq> In_callback q" for q using io_inv_place [OF assms(1)] by auto
  have "e \<in> {Dispatch_next, Next_task, Next_timer}"
    using assms(2,3) p no
    by (cases e) (auto simp: request_quit_def loop_check_def loop_poll_def handleWakeup_read_def handleWakeup_swap_def
        swap_tasks_def split: if_splits place.splits sum.splits option.splits)
  with p show ?thesis by blast
qed

lemma io_step_inv:
  assumes top: "valid_top pick" and inv: "io_inv answers lat s" and step: "io_step pick lat answers ev s = Some s'"
  shows "io_inv answers lat s'"
proof (cases ev)
  case (Accepted n)
  with step accepted_inv [OF inv] show ?thesis by (auto split: if_splits)
next
  case (Completed job r cl gone)
  obtain k i q where "job = (k, i, q)" by (rule prod_cases3)
  with step Completed completed_inv [OF inv, of k i q r cl gone] show ?thesis by (auto simp: Let_def split: if_splits)
next
  case (Loop_thread e env)
  then obtain r where e: "loop_thread_event e" "clock s \<le> fst (readings e env)" "fst (readings e env) \<le> snd (readings e env)"
    and r: "loop_step pick e (io_run s) = Some r"
    and s': "s' = (case started_callback pick (io_run s) r of None \<Rightarrow> s\<lparr>io_run := r, clock := snd (readings e env)\<rparr>
       | Some cb \<Rightarrow> run_callback lat env cb (s\<lparr>io_run := r, clock := snd (readings e env)\<rparr>))"
    using step by (auto simp: Let_def split: if_splits option.splits)
  show ?thesis
  proof (cases "started_callback pick (io_run s) r")
    case None
    have "io_inv answers lat (s\<lparr>io_run := r, clock := snd (readings e env)\<rparr>)"
      by (rule plain_step_inv [OF inv r e(1) None]) (use e in \<open>auto simp: readings_def\<close>)
    with None show ?thesis by (simp add: s')
  next
    case (Some cb)
    then obtain p where p: "place r = In_callback p" and which: "e \<in> {Dispatch_next, Next_task, Next_timer}"
      using callback_starts [OF inv r e(1)] by auto
    have t: "clock s \<le> env_read env" "env_read env \<le> env_write env" and now: "snd (readings e env) = env_write env"
      using e which by (auto simp: readings_def)
    consider "e = Dispatch_next" | "e = Next_task" | "e = Next_timer" using which by blast
    then show ?thesis
    proof cases
      case 1
      from ready_inv [OF inv r [unfolded 1] p t] Some show ?thesis by (auto simp: s' now)
    next
      case 2
      from next_task_result [OF r [unfolded 2] p] obtain rest task ts where at:
        "place (io_run s) = Running_tasks rest" "batch (io_run s) = task # ts"
        "r = goto (In_callback (Running_tasks rest)) ((io_run s)\<lparr>batch := ts, executed := executed (io_run s) @ [task]\<rparr>)"
        and cb: "cb = Task_callback task" using Some by fastforce
      have "task_ok (length (conns s)) task" using io_inv_parts(2) [OF inv] at(2) by (simp add: tasks_inv_def)
      then have "(\<exists>n. task = New_connection n) \<or> (\<exists>k i q cl. task = Delivery k i q cl)" by (cases task) auto
      then show ?thesis
        using establish_inv [OF inv r [unfolded 2] at(1) _ at(3) t] delivery_inv [OF inv r [unfolded 2] at(1) _ at(3) t] at(2)
        by (auto simp: s' Some cb now simp del: run_callback.simps)
    next
      case 3
      from timer_inv [OF inv r [unfolded 3] top p t] Some show ?thesis by (auto simp: s' now)
    qed
  qed
qed

lemma io_start_inv:
  assumes "Epoller created n = Inr ep" and "EventLoop ep refused efd = (None, l)"
  shows "io_inv answers lat (io_start l t0)"
proof -
  have "loop_inv (start_run l)" by (rule start_inv [OF assms])
  moreover have "loop_channels l = [efd \<mapsto> Wakeup_handler]" "loop_timers l = []" "pending_tasks l = []" "wakeup_fd l = efd" "0 \<le> efd"
    using assms by (auto simp: Epoller_def EventLoop_def loop_defs enableReading_def new_channel_def split: if_splits)
  ultimately show ?thesis
    by (simp add: io_inv_def io_inv_at_def io_start_def start_run_def registry_inv_def tasks_inv_def timers_inv_def clock_inv_def
        pipelines_inv_def)
qed

interpretation io: machine "io_step pick lat answers" "\<lambda>s. valid_top pick \<and> io_inv answers lat s"
  by unfold_locales (auto intro: io_step_inv)

text \<open>C6: A loop and its connections agree, whatever happens: for a constructed loop and every run of it,
  with any new clients, results, reports, failures of sockets and timers, the loop has raised nothing (but a
  failure of \<open>epoll_wait\<close>); its table of channels holds exactly its open connections, each at its
  descriptor and with the events that epoll watches; every report that is about to be dispatched to a
  connection is one that the connection asked for, also when a descriptor number has been used again; and
  the timers of the loop are exactly the pending idle checks of the connections.\<close>

theorem loop_serves_its_connections:
  assumes "valid_top pick" and "Epoller created m = Inr ep" and "EventLoop ep refused efd = (None, l)"
    and "run_steps (io_step pick lat answers) evs (io_start l t0) = Some s"
  shows "(\<forall>e. place (io_run s) = Raised e \<longrightarrow> e = Epoller_raised Epoll_wait_failed) \<and>
    (\<forall>n x. loop_channels (the_loop (io_run s)) n = Some (Handler x) \<longleftrightarrow>
      (\<exists>k < length (conns s). x = Connection k \<and> registered (conns s ! k) \<and> fd (conns s ! k) = n)) \<and>
    (\<forall>k < length (conns s). registered (conns s ! k) \<longrightarrow>
      loop_interest (the_loop (io_run s)) (fd (conns s ! k)) = Some (channel_events (conn_channel (conns s ! k)))) \<and>
    (\<forall>n revents rest k. place (io_run s) = Dispatching ((n, revents) # rest) \<and>
      loop_channels (the_loop (io_run s)) n = Some (Handler (Connection k)) \<longrightarrow>
      (bit revents 0 \<longrightarrow> wants_read (conn_channel (conns s ! k))) \<and> (bit revents 2 \<longrightarrow> wants_write (conn_channel (conns s ! k)))) \<and>
    (\<forall>k < length (conns s). mset (pending_timers (conns s ! k)) =
      (\<Sum>t\<leftarrow>loop_timers (the_loop (io_run s)). idle_checks k t))"
proof -
  have inv: "io_inv answers lat s"
    using io.run_keeps [OF assms(4)] assms(1) io_start_inv [OF assms(2,3)] by blast
  have on: "on_loop (Connection k) (fd (conns s ! k)) (conns s ! k) (the_loop (io_run s))"
    if "k < length (conns s)" "registered (conns s ! k)" for k
    using io_inv_parts(1) [OF inv] that unfolding registry_inv_def by blast
  have from_table: "\<exists>k < length (conns s). x = Connection k \<and> registered (conns s ! k) \<and> fd (conns s ! k) = n"
    if "loop_channels (the_loop (io_run s)) n = Some (Handler x)" for n x
    using io_inv_parts(1) [OF inv] that unfolding registry_inv_def by blast
  have "e = Epoller_raised Epoll_wait_failed" if "place (io_run s) = Raised e" for e
    using io_inv_place [OF inv] that by simp
  moreover have "loop_channels (the_loop (io_run s)) n = Some (Handler x) \<longleftrightarrow>
      (\<exists>k < length (conns s). x = Connection k \<and> registered (conns s ! k) \<and> fd (conns s ! k) = n)" for n x
  proof
    assume "\<exists>k < length (conns s). x = Connection k \<and> registered (conns s ! k) \<and> fd (conns s ! k) = n"
    then obtain k where "k < length (conns s)" "x = Connection k" "registered (conns s ! k)" "fd (conns s ! k) = n" by blast
    with on [of k] show "loop_channels (the_loop (io_run s)) n = Some (Handler x)" by (simp add: on_loop_def)
  qed (rule from_table)
  moreover have "loop_interest (the_loop (io_run s)) (fd (conns s ! k)) = Some (channel_events (conn_channel (conns s ! k)))"
    if "k < length (conns s)" "registered (conns s ! k)" for k
    using on [OF that] that by (simp add: on_loop_def)
  moreover have "(bit revents 0 \<longrightarrow> wants_read (conn_channel (conns s ! k))) \<and> (bit revents 2 \<longrightarrow> wants_write (conn_channel (conns s ! k)))"
    if at: "place (io_run s) = Dispatching ((n, revents) # rest) \<and> loop_channels (the_loop (io_run s)) n = Some (Handler (Connection k))"
    for n revents rest k
  proof -
    have k: "k < length (conns s)" "registered (conns s ! k)" "fd (conns s ! k) = n" using from_table [of n "Connection k"] at by simp_all
    have "reports_ok s ((n, revents) # rest)" using io_inv_place [OF inv] at by simp
    then have "bit revents 2 \<longrightarrow> wants_write (conn_channel (conns s ! k))"
      using k reports_okD [of s _ k revents] by simp
    moreover have "wants_read (conn_channel (conns s ! k))"
      using k(2) io_inv_conn(2) [OF inv k(1)] unfolding conn_ctl_def conn_base_def by blast
    ultimately show ?thesis by blast
  qed
  moreover have "mset (pending_timers (conns s ! k)) = (\<Sum>t\<leftarrow>loop_timers (the_loop (io_run s)). idle_checks k t)"
    if "k < length (conns s)" for k
    using io_inv_parts(3) [OF inv] that by (simp add: timers_inv_def)
  ultimately show ?thesis by (intro conjI allI impI) blast+
qed

section \<open>A concrete run\<close>

text \<open>A client is accepted and sends a part of a request; the loop is about to dispatch it.\<close>

definition no_io :: "time_point \<Rightarrow> io_env" where
  "no_io t = \<lparr>env_recvs = [], env_sends = [], env_read = t, env_write = t\<rparr>"

definition first_client :: "io_event list" where
  "first_client = Accepted 7 # map (\<lambda>(e, t). Loop_thread e (no_io t))
     [(Start, 1), (Write_eventfd False, 1), (Check, 1), (Poll 1 (Ready [(4, 1)]), 1), (Dispatch_next, 1), (Read_eventfd False, 1),
      (Swap, 1), (Next_task, 2), (Next_task, 2), (Dispatch_next, 2), (Timers 2, 2), (Next_timer, 2), (Check, 2),
      (Poll 3 (Ready [(7, 1)]), 3)]"

definition first_loop :: "io_client event_loop" where
  "first_loop = snd (EventLoop (projr (Epoller 3 16)) False 4)"

definition after_first_client :: io_loop where
  "after_first_client = the (run_steps (io_step first_top True (\<lambda>q a. False)) first_client (io_start first_loop 0))"

lemma loop_serves_its_connections_witness:
  "loop_interest (the_loop (io_run after_first_client)) 7 =
    Some (channel_events (conn_channel (conns after_first_client ! 0))) \<and>
   wants_read (conn_channel (conns after_first_client ! 0))"
proof -
  have made: "Epoller 3 16 = Inr (projr (Epoller 3 16))" "EventLoop (projr (Epoller 3 16)) False 4 = (None, first_loop)"
    by (simp_all add: first_loop_def Epoller_def EventLoop_def loop_defs)
  have run: "run_steps (io_step first_top True (\<lambda>q a. False)) first_client (io_start first_loop 0) = Some after_first_client"
    unfolding after_first_client_def by (rule some_the) code_simp
  have facts: "length (conns after_first_client) = 1" "registered (conns after_first_client ! 0)" "fd (conns after_first_client ! 0) = 7"
    "place (io_run after_first_client) = Dispatching ((7, 1) # [])"
    "loop_channels (the_loop (io_run after_first_client)) 7 = Some (Handler (Connection 0))"
    by code_simp+
  note result = loop_serves_its_connections [OF valid_first_top made run]
  have "loop_interest (the_loop (io_run after_first_client)) (fd (conns after_first_client ! 0)) =
      Some (channel_events (conn_channel (conns after_first_client ! 0)))"
    using result [THEN conjunct2, THEN conjunct2, THEN conjunct1] facts(1,2) by simp
  moreover have "bit (1 :: u32) 0 \<longrightarrow> wants_read (conn_channel (conns after_first_client ! 0))"
    using result [THEN conjunct2, THEN conjunct2, THEN conjunct2, THEN conjunct1] facts(4,5) by blast
  ultimately show ?thesis by (simp add: facts(3))
qed

end
