(* ===== verification/Serving.thy ===== *)
theory Serving
  imports Main_Program IoLoopRun
begin

text \<open>
  The server while it serves (\<open>serveWithEventLoop\<close> of \<open>src/main.cpp\<close>), put together from the models of its
  parts: the group that hands out the loops in turn, the loops with their connections (\<open>IoLoop\<close>) and the pool
  of workers (\<open>WorkerPool\<close>), which all loops share. The accept callback queues a new connection on the
  next loop; a request that a connection submits becomes a task of the pool, tagged with its loop; a
  worker that ends the task queues its result on that loop. Every thread steps on its own.
\<close>

section \<open>Model\<close>

record serving =
  io_group :: "nat loop_group"
  crew :: "(nat \<times> job) pool"
  io_threads :: "io_loop list"

datatype serving_event =
  Accept_client int bool
| Run_loop nat "io_client loop_event" io_env
| Run_worker nat string bool bool
| Notify_worker "nat option"
| Wake_worker nat

fun submit_jobs :: "'t list \<Rightarrow> 't pool \<Rightarrow> pool_error + 't pool" where
  "submit_jobs [] p = Inr p"
| "submit_jobs (t # ts) p = (case submit t p of Inl e \<Rightarrow> Inl e | Inr p' \<Rightarrow> submit_jobs ts p')"

fun queue_client :: "nat accept_effect \<Rightarrow> io_loop list \<Rightarrow> io_loop list" where
  "queue_client (Queue_connection i n) ls = ls[i := push_task (New_connection n) (ls ! i)]"
| "queue_client e ls = ls"

text \<open>A step. The kernel gives a new client a descriptor that is not in use; a worker that ends a request
  has a result that the handler allows. Submitting to a pool that stops would raise; it does not stop
  while the server serves, so that this case does not occur.\<close>

fun serving_step ::
    "(io_client timer_queue \<Rightarrow> nat) \<Rightarrow> bool \<Rightarrow> (string \<Rightarrow> string \<times> bool \<Rightarrow> bool) \<Rightarrow> serving_event \<Rightarrow> serving \<Rightarrow> serving option" where
  "serving_step pick lat answers (Accept_client n nonblocking) s =
     (if n < 0 \<or> (\<exists>l \<in> set (io_threads s). n \<in> set (held_fds l)) then None
      else case accept_clients [Accept_fd n nonblocking] (io_group s) of
        (es, g) \<Rightarrow> Some (s\<lparr>io_group := g, io_threads := fold queue_client es (io_threads s)\<rparr>))"
| "serving_step pick lat answers (Run_loop i e env) s =
     (if length (io_threads s) \<le> i then None
      else case io_step pick lat answers (Loop_thread e env) (io_threads s ! i) of
        None \<Rightarrow> None
      | Some l \<Rightarrow>
          (case submit_jobs (map (Pair i) (drop (length (outstanding (io_threads s ! i))) (outstanding l))) (crew s) of
             Inl e \<Rightarrow> None
           | Inr p \<Rightarrow> Some (s\<lparr>crew := p, io_threads := (io_threads s)[i := l]\<rparr>)))"
| "serving_step pick lat answers (Run_worker w r cl gone) s =
     (if length (workers (crew s)) \<le> w then None
      else case workers (crew s) ! w of
        Running (i, job) \<Rightarrow>
          (case io_step pick lat answers (Completed job r cl gone) (io_threads s ! i) of
             None \<Rightarrow> None
           | Some l \<Rightarrow> map_option (\<lambda>p. s\<lparr>crew := p, io_threads := (io_threads s)[i := l]\<rparr>) (workerLoop w False (crew s)))
      | _ \<Rightarrow> map_option (\<lambda>p. s\<lparr>crew := p\<rparr>) (workerLoop w False (crew s)))"
| "serving_step pick lat answers (Notify_worker chosen) s = map_option (\<lambda>p. s\<lparr>crew := p\<rparr>) (notify_one chosen (crew s))"
| "serving_step pick lat answers (Wake_worker w) s = map_option (\<lambda>p. s\<lparr>crew := p\<rparr>) (spurious_wakeup w (crew s))"

definition serving_start :: "nat loop_group \<Rightarrow> (nat \<times> job) pool \<Rightarrow> io_client event_loop list \<Rightarrow> time_point \<Rightarrow> serving" where
  "serving_start g p ls t0 = \<lparr>io_group = g, crew = p, io_threads = map (\<lambda>l. io_start l t0) ls\<rparr>"

section \<open>The tasks of the pool are the outstanding jobs of the loops\<close>

definition in_pool :: "'t pool \<Rightarrow> 't multiset" where
  "in_pool p = mset (tasks p) + running p"

lemma submit_jobs_pool:
  assumes "pool_inv p" and "submit_jobs ts p = Inr p'"
  shows "pool_inv p' \<and> stopping p' = stopping p \<and> in_pool p' = in_pool p + mset ts \<and> workers p' = workers p"
  using assms
proof (induction ts arbitrary: p)
  case (Cons t ts)
  then obtain q where q: "submit t p = Inr q" "submit_jobs ts q = Inr p'" by (auto split: sum.splits)
  then have "stopping q = stopping p" "in_pool q = in_pool p + {#t#}" "workers q = workers p"
    by (auto simp: submit_def in_pool_def running_def split: if_splits)
  with Cons.IH [OF pool_inv_submit [OF Cons.prems(1) q(1)] q(2)] show ?case by simp
qed simp

lemma submit_jobs_accepted: "\<not> stopping p \<Longrightarrow> \<exists>p'. submit_jobs ts p = Inr p'"
  by (induction ts arbitrary: p) (auto simp: submit_def)

lemma worker_in_pool:
  assumes "workerLoop i raised p = Some p'"
  shows "in_pool p = in_pool p' + running_task (workers p ! i)" and "stopping p' = stopping p"
    and "length (workers p') = length (workers p)"
proof -
  have i: "i < length (workers p)" using assms by (simp add: workerLoop_def split: if_splits)
  have "in_pool p = in_pool p' + running_task (workers p ! i) \<and> stopping p' = stopping p \<and> length (workers p') = length (workers p)"
  proof (cases "workers p ! i")
    case At_lock
    then have p': "p' = worker_lock i p" using assms i by (simp add: workerLoop_def)
    show ?thesis
      using running_update [OF i, of Asleep] running_update [OF i, of worker.Returned] running_update [OF i, of "Running (hd (tasks p))"] At_lock
      by (cases "tasks p") (auto simp: p' worker_lock_def in_pool_def running_def)
  next
    case (Running t)
    with running_update [OF i, of At_lock] assms i show ?thesis by (auto simp: workerLoop_def in_pool_def running_def)
  qed (use assms i in \<open>simp_all add: workerLoop_def\<close>)
  then show "in_pool p = in_pool p' + running_task (workers p ! i)" "stopping p' = stopping p"
    "length (workers p') = length (workers p)" by blast+
qed

lemma woken_in_pool:
  assumes "i < length (workers p)" and "workers p ! i = Asleep"
  shows "running (p\<lparr>workers := (workers p)[i := At_lock]\<rparr>) = running p"
  using running_update [OF assms(1), of At_lock] assms(2) by simp

lemma notify_in_pool:
  assumes "notify_one chosen p = Some p'"
  shows "in_pool p' = in_pool p" "stopping p' = stopping p" "length (workers p') = length (workers p)"
  using assms woken_in_pool by (auto simp: notify_one_def in_pool_def running_def split: if_splits option.splits)

lemma spurious_in_pool:
  assumes "spurious_wakeup i p = Some p'"
  shows "in_pool p' = in_pool p" "stopping p' = stopping p" "length (workers p') = length (workers p)"
  using assms woken_in_pool by (auto simp: spurious_wakeup_def in_pool_def running_def split: if_splits)

lemma finish_callback_outstanding: "\<exists>js. outstanding (finish_callback k c res s) = outstanding s @ js"
  by (auto simp: finish_callback_def raise_loop_def Let_def split: sum.split prod.split option.split)

lemma loop_outstanding:
  assumes "io_step pick lat answers (Loop_thread e env) l = Some l'"
  shows "outstanding l' = outstanding l @ drop (length (outstanding l)) (outstanding l')"
proof -
  have "\<exists>js. outstanding (run_callback lat env cb s) = outstanding s @ js" for cb s
  proof (induction lat env cb s rule: run_callback.induct)
    case (2 lat env n s)
    from finish_callback_outstanding [of _ _ _ "s\<lparr>conns := _\<rparr>"] show ?case by (simp add: callback_bodies Let_def)
  qed (auto simp: callback_bodies finish_callback_outstanding raise_loop_def split: io_client.split)
  note runs = this [of _ "l\<lparr>io_run := _, clock := _\<rparr>", simplified]
  have "\<exists>js. outstanding l' = outstanding l @ js"
    using assms runs by (auto simp: Let_def split: if_splits option.splits)
  then show ?thesis by auto
qed

section \<open>Invariant\<close>

definition jobs_linked :: "serving \<Rightarrow> bool" where
  "jobs_linked s \<longleftrightarrow>
     (\<forall>i < length (io_threads s). mset (outstanding (io_threads s ! i)) =
        image_mset snd (filter_mset (\<lambda>t. fst t = i) (in_pool (crew s)))) \<and>
     (\<forall>t \<in># in_pool (crew s). fst t < length (io_threads s))"

definition threads_inv :: "(string \<Rightarrow> string \<times> bool \<Rightarrow> bool) \<Rightarrow> bool \<Rightarrow> serving \<Rightarrow> bool" where
  "threads_inv answers lat s \<longleftrightarrow>
     (\<forall>i < length (io_threads s). io_inv answers lat (io_threads s ! i)) \<and>
     pool_inv (crew s) \<and> workers (crew s) \<noteq> [] \<and> jobs_linked s"

definition serving_inv :: "(string \<Rightarrow> string \<times> bool \<Rightarrow> bool) \<Rightarrow> bool \<Rightarrow> serving \<Rightarrow> bool" where
  "serving_inv answers lat s \<longleftrightarrow>
     group_started (io_group s) \<and> loops (io_group s) = [0..<length (io_threads s)] \<and> next_index (io_group s) < length (io_threads s) \<and>
     threads_inv answers lat s \<and> \<not> stopping (crew s)"

lemmas serving_inv_parts = serving_inv_def [unfolded threads_inv_def]

lemma serving_threads: "serving_inv answers lat s \<Longrightarrow> threads_inv answers lat s"
  by (simp add: serving_inv_def)

lemma jobs_of_loop_submitted:
  "image_mset snd (filter_mset (\<lambda>t. fst t = j) (mset (map (Pair i) js))) = (if j = i then mset js else {#})"
  by (induction js) auto

lemma linked_submit:
  assumes "jobs_linked s" and i: "i < length (io_threads s)" and "outstanding l = outstanding (io_threads s ! i) @ js"
    and "in_pool p = in_pool (crew s) + mset (map (Pair i) js)"
  shows "jobs_linked (s\<lparr>crew := p, io_threads := (io_threads s)[i := l]\<rparr>)"
proof -
  have "mset (outstanding ((io_threads s)[i := l] ! j)) = image_mset snd (filter_mset (\<lambda>t. fst t = j) (in_pool p))"
    if j: "j < length (io_threads s)" for j
    using assms(1,3) i j jobs_of_loop_submitted [of j i js]
    by (cases "j = i") (simp_all add: jobs_linked_def assms(4) del: mset_map)
  moreover have "\<forall>t \<in># in_pool p. fst t < length (io_threads s)"
    using assms(1) i by (auto simp: jobs_linked_def assms(4))
  ultimately show ?thesis by (simp add: jobs_linked_def)
qed

lemma linked_complete:
  assumes "jobs_linked s" and "outstanding l = remove1 job (outstanding (io_threads s ! i))"
    and "in_pool (crew s) = in_pool p + {#(i, job)#}"
  shows "jobs_linked (s\<lparr>crew := p, io_threads := (io_threads s)[i := l]\<rparr>)"
proof -
  have i: "i < length (io_threads s)" using assms(1,3) by (auto simp: jobs_linked_def)
  have "mset (outstanding ((io_threads s)[i := l] ! j)) = image_mset snd (filter_mset (\<lambda>t. fst t = j) (in_pool p))"
    if j: "j < length (io_threads s)" for j
    using assms(1,2) i j by (cases "j = i") (simp_all add: jobs_linked_def assms(3))
  moreover have "\<forall>t \<in># in_pool p. fst t < length (io_threads s)"
    using assms(1) by (auto simp: jobs_linked_def assms(3))
  ultimately show ?thesis by (simp add: jobs_linked_def)
qed

lemma linked_same:
  assumes "jobs_linked s" and "in_pool p = in_pool (crew s)" and "length ls = length (io_threads s)"
    and "\<And>i. i < length ls \<Longrightarrow> outstanding (ls ! i) = outstanding (io_threads s ! i)"
  shows "jobs_linked (s\<lparr>io_group := g, crew := p, io_threads := ls\<rparr>)"
  using assms by (simp add: jobs_linked_def)

text \<open>A task that a worker runs is known to its loop.\<close>

lemma running_known:
  assumes "threads_inv answers lat s" and w: "w < length (workers (crew s))" "workers (crew s) ! w = Running (i, job)"
  shows "i < length (io_threads s) \<and> job \<in> set (outstanding (io_threads s ! i))"
proof -
  have "running (crew s) = running_task (workers (crew s) ! w) +
      (\<Sum>v\<leftarrow>take w (workers (crew s)) @ drop (Suc w) (workers (crew s)). running_task v)"
    unfolding running_def by (rule sum_list_without [OF w(1)])
  then have mem: "(i, job) \<in># in_pool (crew s)" by (simp add: w(2) in_pool_def)
  then have i: "i < length (io_threads s)" using assms(1) by (fastforce simp: threads_inv_def jobs_linked_def)
  have "job \<in># image_mset snd (filter_mset (\<lambda>t. fst t = i) (in_pool (crew s)))" using mem by force
  then have "job \<in># mset (outstanding (io_threads s ! i))" using assms(1) i by (simp add: threads_inv_def jobs_linked_def)
  with i show ?thesis by simp
qed

lemma accept_inv:
  assumes inv: "serving_inv answers lat s" and n: "0 \<le> n" "\<forall>l \<in> set (io_threads s). n \<notin> set (held_fds l)"
    and g: "accept_clients [Accept_fd n ok] (io_group s) = (es, g)"
  shows "serving_inv answers lat (s\<lparr>io_group := g, io_threads := fold queue_client es (io_threads s)\<rparr>)"
proof (cases ok)
  case False
  with g have "es = [Close_client n]" "g = io_group s" by auto
  with inv show ?thesis by (simp add: serving_inv_parts)
next
  case True
  let ?i = "next_index (io_group s)"
  have i: "?i < length (io_threads s)" and gr: "group_started (io_group s)" "loops (io_group s) = [0..<length (io_threads s)]"
    using inv by (simp_all add: serving_inv_parts)
  have "nextLoop (io_group s) = Inr (?i, (io_group s)\<lparr>next_index := (?i + 1) mod length (io_threads s)\<rparr>)"
    using nextLoop_index [OF gr(1)] i gr(2) by simp
  with g True have es: "es = [Queue_connection ?i n]" and g': "g = (io_group s)\<lparr>next_index := (?i + 1) mod length (io_threads s)\<rparr>"
    by auto
  let ?ls = "(io_threads s)[?i := push_task (New_connection n) (io_threads s ! ?i)]"
  have "n \<notin> set (held_fds (io_threads s ! ?i))" using n(2) i by simp
  then have "io_inv answers lat (push_task (New_connection n) (io_threads s ! ?i))"
    using accepted_inv [OF _ n(1)] inv i by (simp add: serving_inv_parts)
  then have "\<forall>j < length (io_threads s). io_inv answers lat (?ls ! j)"
    using inv i by (auto simp: serving_inv_parts nth_list_update)
  moreover have "jobs_linked (s\<lparr>io_group := g, crew := crew s, io_threads := ?ls\<rparr>)"
    by (rule linked_same) (use inv i in \<open>auto simp: serving_inv_parts nth_list_update\<close>)
  moreover have "(?i + 1) mod length (io_threads s) < length (io_threads s)" using i by (intro mod_less_divisor) linarith
  ultimately show ?thesis using inv by (simp add: serving_inv_parts es g')
qed

text \<open>A step of a loop, with its submissions, and a step of the pool, also while the pool stops.\<close>

lemma loop_step_keeps:
  assumes top: "valid_top pick" and inv: "threads_inv answers lat s" and i: "i < length (io_threads s)"
    and l: "io_step pick lat answers (Loop_thread e env) (io_threads s ! i) = Some l"
    and p: "submit_jobs (map (Pair i) (drop (length (outstanding (io_threads s ! i))) (outstanding l))) (crew s) = Inr p"
  shows "threads_inv answers lat (s\<lparr>crew := p, io_threads := (io_threads s)[i := l]\<rparr>) \<and> stopping p = stopping (crew s)"
proof -
  have loop: "io_inv answers lat (io_threads s ! i)" and pool: "pool_inv (crew s)" using inv i by (simp_all add: threads_inv_def)
  have "io_inv answers lat l" by (rule io_step_inv [OF top loop l])
  with inv i submit_jobs_pool [OF pool p] linked_submit [OF _ i loop_outstanding [OF l]] show ?thesis
    by (auto simp: threads_inv_def nth_list_update)
qed

fun crew_event :: "serving_event \<Rightarrow> bool" where
  "crew_event (Run_worker w r cl gone) = True"
| "crew_event (Notify_worker chosen) = True"
| "crew_event (Wake_worker w) = True"
| "crew_event ev = False"

lemma crew_step_keeps:
  assumes top: "valid_top pick" and inv: "threads_inv answers lat s" and step: "serving_step pick lat answers ev s = Some s'"
    and ev: "crew_event ev"
  shows "threads_inv answers lat s' \<and> stopping (crew s') = stopping (crew s) \<and> io_group s' = io_group s \<and>
    length (io_threads s') = length (io_threads s)"
proof -
  have plain: ?thesis if p: "s' = s\<lparr>crew := p\<rparr>" "pool_inv p" "in_pool p = in_pool (crew s)" "stopping p = stopping (crew s)"
    "length (workers p) = length (workers (crew s))" for p
  proof -
    have "workers p \<noteq> []" using p(5) inv by (auto simp: threads_inv_def)
    with inv p show ?thesis by (simp add: threads_inv_def jobs_linked_def)
  qed
  have pool: "pool_inv (crew s)" using inv by (simp add: threads_inv_def)
  show ?thesis
  proof (cases ev)
    case (Run_worker w r cl gone)
    then have w: "w < length (workers (crew s))" using step by (auto split: if_splits)
    show ?thesis
    proof (cases "\<exists>i job. workers (crew s) ! w = Running (i, job)")
      case True
      then obtain i job where run: "workers (crew s) ! w = Running (i, job)" by blast
      then obtain l p where l: "io_step pick lat answers (Completed job r cl gone) (io_threads s ! i) = Some l"
        and p: "workerLoop w False (crew s) = Some p" and s': "s' = s\<lparr>crew := p, io_threads := (io_threads s)[i := l]\<rparr>"
        using step w Run_worker by (auto simp del: io_step.simps split: option.splits)
      have i: "i < length (io_threads s)" using running_known [OF inv w run] by blast
      note steps = worker_in_pool [OF p]
      have "outstanding l = remove1 job (outstanding (io_threads s ! i))"
        using l by (cases job) (auto simp: Let_def split: if_splits)
      moreover have "io_inv answers lat l" using io_step_inv [OF top _ l] inv i by (simp add: threads_inv_def)
      moreover have "workers p \<noteq> []" using steps(3) w by auto
      ultimately show ?thesis
        using inv i linked_complete [of s l job i p] steps run pool_inv_workerLoop [OF pool p]
        by (auto simp: threads_inv_def s' nth_list_update)
    next
      case False
      then obtain p where p: "workerLoop w False (crew s) = Some p" and s': "s' = s\<lparr>crew := p\<rparr>"
        using step w Run_worker by (auto split: worker.splits)
      have "running_task (workers (crew s) ! w) = {#}" using False by (cases "workers (crew s) ! w") auto
      with plain [OF s' pool_inv_workerLoop [OF pool p]] worker_in_pool [OF p] show ?thesis by simp
    qed
  next
    case (Notify_worker chosen)
    then obtain p where p: "notify_one chosen (crew s) = Some p" "s' = s\<lparr>crew := p\<rparr>" using step by auto
    from plain [OF p(2) pool_inv_notify_one [OF pool p(1)]] notify_in_pool [OF p(1)] show ?thesis by simp
  next
    case (Wake_worker w)
    then obtain p where p: "spurious_wakeup w (crew s) = Some p" "s' = s\<lparr>crew := p\<rparr>" using step by auto
    from plain [OF p(2) pool_inv_spurious [OF pool p(1)]] spurious_in_pool [OF p(1)] show ?thesis by simp
  qed (use ev in simp_all)
qed

lemma serving_step_inv:
  assumes top: "valid_top pick" and inv: "serving_inv answers lat s" and step: "serving_step pick lat answers ev s = Some s'"
  shows "serving_inv answers lat s'"
proof (cases ev)
  case (Accept_client n ok)
  with step accept_inv [OF inv, of n ok] show ?thesis by (auto simp del: accept_clients.simps split: if_splits prod.splits)
next
  case (Run_loop i e env)
  then obtain l p where i: "i < length (io_threads s)" and l: "io_step pick lat answers (Loop_thread e env) (io_threads s ! i) = Some l"
    and p: "submit_jobs (map (Pair i) (drop (length (outstanding (io_threads s ! i))) (outstanding l))) (crew s) = Inr p"
    and s': "s' = s\<lparr>crew := p, io_threads := (io_threads s)[i := l]\<rparr>"
    using step by (auto simp del: io_step.simps split: if_splits option.splits sum.splits)
  from loop_step_keeps [OF top serving_threads [OF inv] i l p] inv show ?thesis by (simp add: serving_inv_def s')
qed (use crew_step_keeps [OF top serving_threads [OF inv] step] inv in \<open>simp_all add: serving_inv_def del: serving_step.simps\<close>)

interpretation serving: machine "serving_step pick lat answers" "\<lambda>s. valid_top pick \<and> serving_inv answers lat s"
  by unfold_locales (auto intro: serving_step_inv)

section \<open>The server at work\<close>

text \<open>A loop that its constructor has made, and the server that is made of such loops.\<close>

definition constructed_loop :: "io_client event_loop \<Rightarrow> bool" where
  "constructed_loop l \<longleftrightarrow> (\<exists>created n ep refused efd. Epoller created n = Inr ep \<and> EventLoop ep refused efd = (None, l))"

lemma serving_start_inv:
  assumes "EventLoopGroup m = Inr g0" and "start (map Some [0..<m]) g0 = (None, g)" and "WorkerPool w = Inr p"
    and "length ls = m" and "\<forall>l \<in> set ls. constructed_loop l"
  shows "serving_inv answers lat (serving_start g p ls t0)"
proof -
  have g0: "0 < m" "g0 = \<lparr>threads = replicate m EventLoopThread, loops = [], next_index = 0, group_started = False\<rparr>"
    using assms(1) by (auto simp: EventLoopGroup_def split: if_splits)
  have "start_threads (map Some [0..<m]) (replicate m EventLoopThread) =
      (None, map (\<lambda>t. t\<lparr>started := True, owner := Claimed\<rparr>) (replicate m EventLoopThread), [0..<m])"
    by (intro start_threads_fresh) (auto simp: EventLoopThread_def)
  then have g: "loops g = [0..<m]" "next_index g = 0" "group_started g"
    using assms(2) by (auto simp: start_def g0(2) Let_def)
  have "io_inv answers lat (io_start (ls ! i) t0)" if "i < m" for i
    using assms(4,5) that io_start_inv unfolding constructed_loop_def by (metis nth_mem)
  moreover have "\<not> stopping p" "in_pool p = {#}"
    using assms(3) by (auto simp: WorkerPool_def in_pool_def running_def no_running split: if_splits)
  ultimately show ?thesis
    using g g0(1) assms(4) pool_inv_start [OF assms(3)] WorkerPool_workers [OF assms(3)]
    by (auto simp: serving_inv_parts serving_start_def jobs_linked_def io_start_def)
qed

text \<open>Nothing moves by itself: the workers sleep, no notification or wake-up is under way, and every loop
  blocks in \<open>epoll_wait\<close> with nothing to read from its eventfd.\<close>

definition loop_at_rest :: "io_loop \<Rightarrow> bool" where
  "loop_at_rest l \<longleftrightarrow> place (io_run l) = At_poll \<and> writers (io_run l) = 0 \<and> eventfd_counter (the_loop (io_run l)) = 0"

definition at_rest :: "serving \<Rightarrow> bool" where
  "at_rest s \<longleftrightarrow> quiescent (crew s) \<and> list_all loop_at_rest (io_threads s)"

lemma at_rest_empty:
  assumes inv: "serving_inv answers lat s" and rest: "at_rest s" and i: "i < length (io_threads s)"
  shows "outstanding (io_threads s ! i) = []" and "io_tasks (io_threads s ! i) = []"
proof -
  have pool: "pool_inv (crew s)" "quiescent (crew s)" "workers (crew s) \<noteq> []"
    using inv rest by (simp_all add: serving_inv_parts at_rest_def)
  have "running (crew s) = {#}" using pool(2) at_lock_zero [of "crew s"] by (simp add: quiescent_def)
  then have "in_pool (crew s) = {#}" using quiescent_done [OF pool] by (simp add: in_pool_def)
  then have "mset (outstanding (io_threads s ! i)) = {#}" using inv i by (simp add: serving_inv_parts jobs_linked_def)
  then show "outstanding (io_threads s ! i) = []" by simp
  have "loop_at_rest (io_threads s ! i)" using rest i by (simp add: at_rest_def list_all_length)
  moreover have "loop_inv (io_run (io_threads s ! i))" using inv i io_inv_loop by (simp add: serving_inv_parts) blast
  ultimately show "io_tasks (io_threads s ! i) = []" by (auto simp: loop_at_rest_def loop_inv_def)
qed

lemma at_rest_pipeline:
  assumes "serving_inv answers lat s" and "i < length (io_threads s)" and "k < length (conns (io_threads s ! i))"
  shows "\<exists>sys. system_inv answers sys \<and> conn sys = conns (io_threads s ! i) ! k \<and>
    (at_rest s \<and> registered (conn sys) \<longrightarrow> jobs sys = [] \<and> results sys = [])"
proof -
  have "io_inv answers lat (io_threads s ! i)" using assms(1,2) by (simp add: serving_inv_parts)
  from pipeline_run_system [OF io_inv_conn(1) [OF this assms(3)]] obtain sys where
    sys: "system_inv answers sys" "conn sys = conns (io_threads s ! i) ! k"
    "registered (conn sys) \<longrightarrow> jobs sys = jobs_of k (io_threads s ! i) \<and> results sys = results_of k (io_threads s ! i)" by auto
  moreover have "jobs_of k (io_threads s ! i) = [] \<and> results_of k (io_threads s ! i) = []" if "at_rest s"
    using at_rest_empty [OF assms(1) that assms(2)] by (simp add: jobs_of_def results_of_def)
  ultimately show ?thesis by auto
qed

lemma loop_step_submits:
  assumes "serving_inv answers lat s" and "i < length (io_threads s)"
    and "io_step pick lat answers (Loop_thread e env) (io_threads s ! i) \<noteq> None"
  shows "serving_step pick lat answers (Run_loop i e env) s \<noteq> None"
proof -
  obtain l where l: "io_step pick lat answers (Loop_thread e env) (io_threads s ! i) = Some l" using assms(3) by blast
  have "\<not> stopping (crew s)" using assms(1) by (simp add: serving_inv_def)
  from submit_jobs_accepted [OF this] obtain p' where
    "submit_jobs (map (Pair i) (drop (length (outstanding (io_threads s ! i))) (outstanding l))) (crew s) = Inr p'" by blast
  with l assms(2) show ?thesis by (simp del: io_step.simps)
qed

text \<open>C3: Nothing goes wrong while the server serves: for every number of loops and workers and every
  interleaving of all threads with the network, no loop has raised anything (but a failure of \<open>epoll_wait\<close>);
  every new client with a fresh descriptor gets a loop; a loop that can step is never stopped by a refused
  submission; and a worker that runs a task can always deliver its result to the task's loop.\<close>

theorem serving_is_safe:
  assumes "valid_top pick" and "EventLoopGroup m = Inr g0" and "start (map Some [0..<m]) g0 = (None, g)"
    and "WorkerPool w = Inr p" and "length ls = m" and "\<forall>l \<in> set ls. constructed_loop l"
    and "run_steps (serving_step pick lat answers) evs (serving_start g p ls t0) = Some s"
  shows "(\<forall>i < length (io_threads s). \<forall>e. place (io_run (io_threads s ! i)) = Raised e \<longrightarrow> e = Epoller_raised Epoll_wait_failed) \<and>
    (\<forall>n ok. Dropped n \<notin> set (fst (accept_clients [Accept_fd n ok] (io_group s)))) \<and>
    (\<forall>i < length (io_threads s). \<forall>e env. io_step pick lat answers (Loop_thread e env) (io_threads s ! i) \<noteq> None \<longrightarrow>
      serving_step pick lat answers (Run_loop i e env) s \<noteq> None) \<and>
    (\<forall>v i k n q r cl. v < length (workers (crew s)) \<and> workers (crew s) ! v = Running (i, k, n, q) \<and> answers q (r, cl) \<longrightarrow>
      serving_step pick lat answers (Run_worker v r cl False) s \<noteq> None)"
proof -
  have inv: "serving_inv answers lat s"
    using serving.run_keeps [OF assms(7)] assms(1) serving_start_inv [OF assms(2-6)] by blast
  have "e = Epoller_raised Epoll_wait_failed" if "i < length (io_threads s)" "place (io_run (io_threads s ! i)) = Raised e" for i e
    using io_inv_place [of answers lat "io_threads s ! i"] inv that by (simp add: serving_inv_parts)
  moreover have "Dropped n \<notin> set (fst (accept_clients [Accept_fd n ok] (io_group s)))" for n ok
    using accept_clients_assigned [of "io_group s"] inv by (simp add: serving_inv_parts del: accept_clients.simps)
  moreover have "serving_step pick lat answers (Run_loop i e env) s \<noteq> None"
    if can: "i < length (io_threads s)" "io_step pick lat answers (Loop_thread e env) (io_threads s ! i) \<noteq> None" for i e env
    by (rule loop_step_submits [OF inv can])
  moreover have "serving_step pick lat answers (Run_worker v r cl False) s \<noteq> None"
    if "v < length (workers (crew s)) \<and> workers (crew s) ! v = Running (i, k, n, q) \<and> answers q (r, cl)" for v i k n q r cl
    using that running_known [OF serving_threads [OF inv], of v i "(k, n, q)"] by (simp add: workerLoop_def Let_def)
  ultimately show ?thesis by (intro conjI allI impI) blast+
qed

end
