(* ===== verification/TcpIdle.thy ===== *)
theory TcpIdle
  imports TcpStreams TcpPrimitives TimerQueue
begin

text \<open>
  The idle timeout of a connection (\<open>closeIfIdle\<close>, \<open>scheduleIdleCheck\<close> and \<open>markActivity\<close> of
  \<open>src/net/TcpConnection.cpp\<close>): while the connection is open exactly one timer is pending, and it closes
  the connection only if it is idle and nothing happened for the whole timeout. Generations are 64-bit
  numbers; the last statement needs that fewer than \<open>2^64\<close> activities were marked. The checks of all
  connections of a loop are callbacks of its timer queue: they interpret its locale \<open>timer_callbacks\<close>.
\<close>

definition activities :: "tcp_effect list \<Rightarrow> nat" where
  "activities es = length (filter (\<lambda>e. case e of Activity _ \<Rightarrow> True | _ \<Rightarrow> False) es)"

lemma activities_simps [simp]:
  "activities [] = 0" "activities (a @ b) = activities a + activities b"
  "activities (Activity t # es) = Suc (activities es)" "activities (Run_at t g # es) = activities es"
  "activities (Add_channel n w # es) = activities es" "activities (Update_channel n w # es) = activities es"
  "activities (Remove_channel n # es) = activities es" "activities (Close_fd n # es) = activities es"
  "activities (Timing m i # es) = activities es" "activities (Received d # es) = activities es"
  "activities (Sent d # es) = activities es" "activities (Submit i r # es) = activities es"
  "activities (Accepted i r # es) = activities es"
  by (simp_all add: activities_def)

text \<open>What every operation other than a timer does to the idle bookkeeping: some activities, or none.\<close>

definition act_step :: "tcp_connection \<Rightarrow> tcp_connection \<Rightarrow> bool" where
  "act_step c c' \<longleftrightarrow> pending_timers c' = pending_timers c \<and> idle_timeout c' = idle_timeout c \<and>
     (\<exists>m. activities (tcp_log c') = activities (tcp_log c) + m \<and>
          idle_generation c' = idle_generation c + word_of_nat m \<and>
          (m = 0 \<longrightarrow> last_activity_at c' = last_activity_at c))"

lemma act_step_refl [simp]: "act_step c c"
  by (simp add: act_step_def)

lemma act_step_trans [trans]: "act_step a b \<Longrightarrow> act_step b c \<Longrightarrow> act_step a c"
  unfolding act_step_def by (elim conjE exE, intro conjI exI) auto

lemma act_step_same:
  "pending_timers c' = pending_timers c \<Longrightarrow> idle_timeout c' = idle_timeout c \<Longrightarrow>
    activities (tcp_log c') = activities (tcp_log c) \<Longrightarrow> idle_generation c' = idle_generation c \<Longrightarrow>
    last_activity_at c' = last_activity_at c \<Longrightarrow> act_step c c'"
  by (simp add: act_step_def)

lemma act_step_activity [simp]: "act_step c (markActivity now c)"
  by (simp add: act_step_def exI [of _ 1])

lemma act_step_close [simp]: "act_step c (close c)"
  by (rule act_step_same) (simp_all add: close_def loop_removeChannel_def)

lemma act_step_process [simp]: "act_step c (processRequest c)"
  by (rule act_step_same) (simp_all add: processRequest_def Let_def)

lemma act_step_sent [simp]: "act_step c (sent_some n c)"
  by (rule act_step_same) (simp_all add: sent_some_def split: option.split)

lemma act_step_done [simp]: "act_step c (response_done c)"
  by (rule act_step_same) (simp_all add: response_done_def split: option.split)

lemma act_step_update:
  "update_interest f c = Inr c' \<Longrightarrow> act_step c c'"
  by (rule act_step_same) (auto simp: update_interest_def loop_updateChannel_def split: if_splits)

lemma act_step_accept [simp]: "act_step c (accept_response i r cl c)"
  by (rule act_step_same) (simp_all add: accept_response_def)

interpretation idling: connection_relation act_step
proof
  show "act_step a c" if "act_step a b" "act_step b c" for a b c using that by (rule act_step_trans)
  show "act_step c c'" if "update_interest f c = Inr c'" for f c c' using that by (rule act_step_update)
  show "act_step c (emit [Received d] (c\<lparr>input_buffer := append_data d (input_buffer c)\<rparr>))" for c d
    by (rule act_step_same) simp_all
  show "act_step c (c\<lparr>peer_closed := True\<rparr>)" for c by (rule act_step_same) simp_all
qed simp_all

section \<open>The pending timer\<close>

definition idle_inv :: "tcp_connection \<Rightarrow> bool" where
  "idle_inv c \<longleftrightarrow> idle_generation c = word_of_nat (activities (tcp_log c)) \<and>
     (0 \<le> fd c \<longrightarrow> (\<exists>d k. pending_timers c = [(d, word_of_nat k)] \<and> k \<le> activities (tcp_log c) \<and>
        (k = activities (tcp_log c) \<longrightarrow> last_activity_at c + idle_timeout c \<le> d))) \<and>
     length (pending_timers c) \<le> 1"

lemma idle_inv_act:
  assumes "idle_inv c" and "act_step c c'" and "0 \<le> fd c"
  shows "idle_inv c'"
proof -
  obtain m where m: "activities (tcp_log c') = activities (tcp_log c) + m"
    "idle_generation c' = idle_generation c + word_of_nat m" "m = 0 \<longrightarrow> last_activity_at c' = last_activity_at c"
    and same: "pending_timers c' = pending_timers c" "idle_timeout c' = idle_timeout c"
    using assms(2) by (auto simp: act_step_def)
  obtain d k where k: "pending_timers c = [(d, word_of_nat k)]" "k \<le> activities (tcp_log c)"
    "k = activities (tcp_log c) \<longrightarrow> last_activity_at c + idle_timeout c \<le> d"
    using assms(1,3) by (auto simp: idle_inv_def)
  have "idle_generation c' = word_of_nat (activities (tcp_log c'))" using m assms(1) by (simp add: idle_inv_def)
  moreover have "k \<le> activities (tcp_log c')" using m k by simp
  moreover have "last_activity_at c' + idle_timeout c' \<le> d" if "k = activities (tcp_log c')"
    using that m k same by simp
  ultimately show ?thesis unfolding idle_inv_def using k(1) same by auto
qed

lemma idle_inv_closed:
  "idle_inv c \<Longrightarrow> fd c' < 0 \<Longrightarrow> tcp_log c' = tcp_log c \<Longrightarrow> idle_generation c' = idle_generation c \<Longrightarrow>
    length (pending_timers c') \<le> 1 \<Longrightarrow> idle_inv c'"
  by (simp add: idle_inv_def)

lemma idle_inv_timer:
  assumes inv: "idle_inv c" and en: "tcp_enabled (Timer d g now) c" and step: "tcp_step (Timer d g now) c = Inr c'"
  shows "idle_inv c'"
proof -
  have one: "pending_timers c = [(d, g)]"
    using inv en by (cases "pending_timers c") (auto simp: idle_inv_def)
  let ?c = "c\<lparr>pending_timers := []\<rparr>"
  have c': "c' = closeIfIdle g now ?c" using step one by simp
  have gen: "idle_generation c = word_of_nat (activities (tcp_log c))" using inv by (simp add: idle_inv_def)
  have sched: "idle_inv (scheduleIdleCheck t ?c)" if "last_activity_at c + idle_timeout c \<le> t" for t
    using gen that by (simp add: idle_inv_def scheduleIdleCheck_def exI [of _ "activities (tcp_log c)"])
  have closed: "idle_inv (close ?c)"
  proof -
    have "\<not> 0 \<le> fd (close ?c)" by (simp add: not_le)
    then show ?thesis using gen act_step_close [of ?c] by (auto simp: idle_inv_def act_step_def)
  qed
  have "idle_inv ?c" if "fd c < 0" using gen that by (simp add: idle_inv_def)
  moreover have "last_activity_at c \<le> now" using en by simp
  ultimately show ?thesis unfolding c' closeIfIdle_def using sched closed by simp
qed

lemma tcp_step_idle:
  assumes "conn_ctl c" and "idle_inv c" and "tcp_enabled ev c" and "tcp_step ev c = Inr c'"
  shows "idle_inv c'"
proof (cases "fd c < 0")
  case True
  show ?thesis
  proof (cases ev)
    case (Dispatch revents rs ss now1 now2)
    have "\<not> registered c" using assms(1) True unfolding conn_ctl_def conn_base_def by (meson not_le)
    with Dispatch assms(3) show ?thesis by simp
  next
    case (Finish i r cl ss now)
    with True assms show ?thesis by (simp add: finishRequest_def)
  next
    case (Timer d g now)
    with assms idle_inv_timer show ?thesis by blast
  qed
next
  case False
  show ?thesis
  proof (cases ev)
    case (Timer d g now)
    with assms idle_inv_timer show ?thesis by blast
  qed (use assms False idle_inv_act idling.dispatching idling.finish in auto)
qed

lemma establish_idle: "idle_inv (establish t0 (TcpConnection n timeout lat))"
  by (simp add: establish_def Let_def loop_addChannel_def TcpConnection_def scheduleIdleCheck_def idle_inv_def exI [of _ 1])

lemma tcp_steps_idle: "tcp_steps c evs c' \<Longrightarrow> conn_ctl c \<Longrightarrow> idle_inv c \<Longrightarrow> idle_inv c'"
  by (induction rule: tcp_steps.induct) (auto intro: tcp_step_idle dest: tcp_steps_ctl)

text \<open>What the pending timer does when it fires.\<close>

lemma idle_timer_fires:
  assumes "0 \<le> n" and "tcp_steps (establish t0 (TcpConnection n timeout lat)) evs c" and "0 \<le> fd c"
    and "activities (tcp_log c) < 2 ^ 64"
    and "tcp_enabled (Timer d g now) c" and "tcp_step (Timer d g now) c = Inr c1"
  shows "pending_timers c = [(d, g)] \<and>
    (fd c1 < 0 \<longleftrightarrow> isIdle c \<and> g = idle_generation c) \<and>
    (fd c1 < 0 \<longrightarrow> last_activity_at c + idle_timeout c \<le> now \<and> pending_timers c1 = []) \<and>
    (0 \<le> fd c1 \<longrightarrow> pending_timers c1 =
       [(if g = idle_generation c then now + idle_timeout c else last_activity_at c + idle_timeout c, idle_generation c)]) \<and>
    (isIdle c \<and> 0 \<le> fd c1 \<longrightarrow> (\<forall>d' g' now' c2. tcp_enabled (Timer d' g' now') c1 \<longrightarrow>
       tcp_step (Timer d' g' now') c1 = Inr c2 \<longrightarrow> fd c2 < 0))"
proof -
  have inv: "idle_inv c" using tcp_steps_idle [OF assms(2) establish_ctl [OF assms(1)] establish_idle] .
  have one: "pending_timers c = [(d, g)]"
    using inv assms(5) by (cases "pending_timers c") (auto simp: idle_inv_def)
  let ?c = "c\<lparr>pending_timers := []\<rparr>"
  have c1: "c1 = closeIfIdle g now ?c" using assms(6) one by simp
  have idle: "isIdle ?c = isIdle c" by (simp add: isIdle_def)
  have due: "last_activity_at c + idle_timeout c \<le> now" if "g = idle_generation c"
  proof -
    obtain k where k: "g = word_of_nat k" "k \<le> activities (tcp_log c)"
      "k = activities (tcp_log c) \<longrightarrow> last_activity_at c + idle_timeout c \<le> d"
      using inv one assms(3) by (auto simp: idle_inv_def)
    have "(word_of_nat k :: u64) = word_of_nat (activities (tcp_log c))" using that k inv by (simp add: idle_inv_def)
    then have "k = activities (tcp_log c)"
      using k(2) assms(4) by (simp add: word_of_nat_eq_iff take_bit_nat_eq_self)
    with k(3) assms(5) show ?thesis by simp
  qed
  have cases: "c1 = (if g \<noteq> idle_generation c then scheduleIdleCheck (last_activity_at c + idle_timeout c) ?c
      else if \<not> isIdle c then scheduleIdleCheck (now + idle_timeout c) ?c else close ?c)"
    using c1 assms(3) by (simp add: closeIfIdle_def idle)
  have sched: "fd (scheduleIdleCheck t ?c) = fd c" "idle_generation (scheduleIdleCheck t ?c) = idle_generation c"
    "pending_timers (scheduleIdleCheck t ?c) = [(t, idle_generation c)]" "isIdle (scheduleIdleCheck t ?c) = isIdle c" for t
    by (simp_all add: scheduleIdleCheck_def isIdle_def)
  have shut: "\<not> 0 \<le> fd (close ?c)" by (simp add: not_le)
  have second: "fd c2 < 0" if "isIdle c" "0 \<le> fd c1" "tcp_enabled (Timer d' g' now') c1"
    "tcp_step (Timer d' g' now') c1 = Inr c2" for d' g' now' c2
  proof -
    have c1': "c1 = scheduleIdleCheck (last_activity_at c + idle_timeout c) ?c"
      using cases that(1,2) shut by (auto split: if_splits)
    then have "g' = idle_generation c1" "isIdle c1" using that(1,3) sched by auto
    then have "closeIfIdle g' now' (c1\<lparr>pending_timers := ts\<rparr>) = close (c1\<lparr>pending_timers := ts\<rparr>)" for ts
      using that(2) by (simp add: closeIfIdle_def isIdle_def)
    with that(4) show ?thesis by auto
  qed
  show ?thesis
    using one cases due sched second assms(3) by (simp add: shut split: if_splits)
qed

text \<open>C18: The idle timeout works. In every reachable state an open connection has exactly one timer
  pending, however many activities there were. At any time from its deadline on it can fire, and then the
  connection is closed exactly if it is idle (no input, no output, no request in progress) and no activity
  was marked since the timer was set, and then its last activity lies at least the timeout back and no
  timer is left; otherwise exactly one new timer is set, after the timeout since the last activity or since
  now. And an idle connection on which nothing happens is closed by its second timer at the latest.\<close>

theorem idle_timeout_works:
  assumes "0 \<le> n" and "tcp_steps (establish t0 (TcpConnection n timeout lat)) evs c" and "0 \<le> fd c"
    and "activities (tcp_log c) < 2 ^ 64"
  shows "\<exists>d g. pending_timers c = [(d, g)] \<and>
    (\<forall>now. d \<le> now \<and> last_activity_at c \<le> now \<longrightarrow>
      (\<exists>c1. tcp_enabled (Timer d g now) c \<and> tcp_step (Timer d g now) c = Inr c1 \<and>
        ((fd c1 < 0 \<longleftrightarrow> isIdle c \<and> g = idle_generation c) \<and>
        (fd c1 < 0 \<longrightarrow> last_activity_at c + idle_timeout c \<le> now \<and> pending_timers c1 = []) \<and>
        (0 \<le> fd c1 \<longrightarrow> pending_timers c1 =
           [(if g = idle_generation c then now + idle_timeout c else last_activity_at c + idle_timeout c, idle_generation c)]) \<and>
        (isIdle c \<and> 0 \<le> fd c1 \<longrightarrow> (\<forall>d' g' now' c2. tcp_enabled (Timer d' g' now') c1 \<longrightarrow>
 tcp_step (Timer d' g' now') c1 = Inr c2 \<longrightarrow> fd c2 < 0)))))"
  (is "\<exists>d g. _ \<and> (\<forall>now. _ \<longrightarrow> (\<exists>c1. _ \<and> _ \<and> ?after d g now c1))")
proof -
  have "idle_inv c" using tcp_steps_idle [OF assms(2) establish_ctl [OF assms(1)] establish_idle] .
  then obtain d g where one: "pending_timers c = [(d, g)]" using assms(3) by (auto simp: idle_inv_def)
  have fires: "\<exists>c1. tcp_enabled (Timer d g now) c \<and> tcp_step (Timer d g now) c = Inr c1"
    if "d \<le> now \<and> last_activity_at c \<le> now" for now using one that by simp
  show ?thesis
  proof (intro exI [of _ d] exI [of _ g] conjI one allI impI)
    fix now
    assume "d \<le> now \<and> last_activity_at c \<le> now"
    from fires [OF this] obtain c1
      where fired: "tcp_enabled (Timer d g now) c" "tcp_step (Timer d g now) c = Inr c1" by blast
    show "\<exists>c1. tcp_enabled (Timer d g now) c \<and> tcp_step (Timer d g now) c = Inr c1 \<and> ?after d g now c1"
      by (rule exI [of _ c1], rule conjI [OF fired(1)], rule conjI [OF fired(2)])
        (rule idle_timer_fires [OF assms fired, THEN conjunct2])
  qed
qed

section \<open>The idle checks as callbacks of the timers\<close>

text \<open>
  The connections of a loop and its clock; a timer belongs to a connection, by position, and carries the
  generation it was set with. An idle check may add a timer that has expired already: after the timeout
  since an activity that lies further back. That one carries the current generation, so it closes the
  connection or adds a timer for later. So the idle checks can make at most one more timer due each, which
  is what the timer queue needs. \<open>tick\<close> is the reading of the clock in a check: it does not go back.
\<close>

type_synonym idle_state = "time_point \<times> tcp_connection list"

definition idle_callback ::
    "(time_point \<Rightarrow> time_point) \<Rightarrow> nat \<times> u64 \<Rightarrow> idle_state \<Rightarrow> idle_state \<times> (nat \<times> u64) timer list" where
  "idle_callback tick kg s =
    (case (kg, s) of
       ((k, g), (now, cs)) \<Rightarrow>
         if k < length cs then
           let c = closeIfIdle g (tick now) ((cs ! k)\<lparr>pending_timers := []\<rparr>)
           in ((tick now, cs[k := c\<lparr>pending_timers := []\<rparr>]),
               map (\<lambda>(d, g'). \<lparr>deadline = d, callback = (k, g')\<rparr>) (pending_timers c))
         else (s, []))"

definition idle_budget :: "idle_state \<Rightarrow> nat \<times> u64 \<Rightarrow> nat" where
  "idle_budget s kg = (if fst kg < length (snd s) \<and> snd kg \<noteq> idle_generation (snd s ! fst kg) then 1 else 0)"

definition clock_ok :: "time_point \<Rightarrow> idle_state \<Rightarrow> bool" where
  "clock_ok now s \<longleftrightarrow> now \<le> fst s \<and> list_all (\<lambda>c. 0 < idle_timeout c) (snd s)"

lemma closeIfIdle_generation [simp]:
  "idle_generation (closeIfIdle g now c) = idle_generation c" "idle_timeout (closeIfIdle g now c) = idle_timeout c"
  by (simp_all add: closeIfIdle_def scheduleIdleCheck_def close_def loop_removeChannel_def)

lemma closeIfIdle_timers:
  "pending_timers c = [] \<Longrightarrow> pending_timers (closeIfIdle g now c) =
    (if fd c < 0 \<or> g = idle_generation c \<and> isIdle c then []
     else [(if g = idle_generation c then now + idle_timeout c else last_activity_at c + idle_timeout c,
            idle_generation c)])"
  by (simp add: closeIfIdle_def scheduleIdleCheck_def close_def loop_removeChannel_def)

lemma idle_callback_inv:
  assumes "\<And>t. t \<le> tick t" and "clock_ok now s"
  shows "clock_ok now (fst (idle_callback tick kg s))"
proof -
  obtain k g t cs where "kg = (k, g)" "s = (t, cs)" by (metis surj_pair)
  then show ?thesis using assms order_trans [OF _ assms(1), of now t]
    by (auto simp: clock_ok_def idle_callback_def Let_def list_all_length nth_list_update)
qed

lemma idle_callback_others: "idle_budget (fst (idle_callback tick kg s)) kg' = idle_budget s kg'"
proof -
  obtain k g t cs where "kg = (k, g)" "s = (t, cs)" by (metis surj_pair)
  then show ?thesis by (auto simp: idle_budget_def idle_callback_def Let_def nth_list_update)
qed

lemma idle_callback_pays:
  assumes "\<And>t. t \<le> tick t" and "clock_ok now s"
  shows "(\<Sum>t\<leftarrow>filter (\<lambda>t. deadline t \<le> now) (snd (idle_callback tick kg s)).
      Suc (idle_budget (fst (idle_callback tick kg s)) (callback t))) \<le> idle_budget s kg"
proof -
  obtain k g t cs where s: "kg = (k, g)" "s = (t, cs)" by (metis surj_pair)
  have "now < tick t + idle_timeout (cs ! k)" if "k < length cs"
    using assms(2) assms(1) [of t] that unfolding clock_ok_def s by (fastforce simp: list_all_length)
  then show ?thesis unfolding idle_callback_others
    by (auto simp: s idle_callback_def idle_budget_def Let_def closeIfIdle_timers)
qed

definition advancing :: "(time_point \<Rightarrow> nat) \<Rightarrow> time_point \<Rightarrow> time_point" where
  "advancing steps t = t + int (steps t)"

interpretation idle_checks: timer_callbacks "idle_callback (advancing steps)" now "clock_ok now" idle_budget for steps now
proof
  have ahead: "t \<le> advancing steps t" for t by (simp add: advancing_def)
  fix s kg
  assume "clock_ok now s"
  then show "clock_ok now (fst (idle_callback (advancing steps) kg s))"
    and "(\<Sum>t\<leftarrow>filter (\<lambda>t. deadline t \<le> now) (snd (idle_callback (advancing steps) kg s)).
      Suc (idle_budget (fst (idle_callback (advancing steps) kg s)) (callback t))) \<le> idle_budget s kg"
    using ahead by (rule idle_callback_inv [rotated], rule idle_callback_pays [rotated])
qed (simp add: idle_callback_others)

text \<open>So a pass over the timers of a loop runs at most two idle checks for each timer that had expired.\<close>

lemma idle_pass_ends:
  assumes "valid_top pick" and "clock_ok now s"
  shows "\<exists>due q'. runExpiredTimers pick (idle_callback (advancing steps)) now q s =
      Some (q', fst (run_callbacks (idle_callback (advancing steps)) due s)) \<and>
    length due \<le> 2 * length (filter (\<lambda>t. deadline t \<le> now) q) \<and> list_all (\<lambda>t. now < deadline t) q'"
proof -
  obtain due q' where run: "runExpiredTimers pick (idle_callback (advancing steps)) now q s =
      Some (q', fst (run_callbacks (idle_callback (advancing steps)) due s))"
    and rest: "mset q' = filter_mset (\<lambda>t. \<not> deadline t \<le> now)
      (mset q + mset (snd (run_callbacks (idle_callback (advancing steps)) due s)))"
    and few: "length due \<le> timer_callbacks.cost now idle_budget s (mset q)"
    using idle_checks.run_due [OF assms] by blast
  have "timer_callbacks.cost now idle_budget s (mset q) = (\<Sum>t\<leftarrow>filter (\<lambda>t. deadline t \<le> now) q. Suc (idle_budget s (callback t)))"
    by (simp add: idle_checks.cost_def flip: mset_filter sum_mset_sum_list)
  also have "\<dots> \<le> (\<Sum>t\<leftarrow>filter (\<lambda>t. deadline t \<le> now) q. 2)"
    by (rule sum_list_mono) (simp add: idle_budget_def)
  finally have "length due \<le> 2 * length (filter (\<lambda>t. deadline t \<le> now) q)"
    using few by (simp add: sum_list_triv)
  moreover have "list_all (\<lambda>t. now < deadline t) q'"
    using arg_cong [OF rest, of set_mset] by (auto simp: list_all_iff)
  ultimately show ?thesis using run by blast
qed

section \<open>Observations\<close>

text \<open>A connection that has sent part of a request is not idle: the timer never closes it, it is set
  again and again.\<close>

lemma partial_request_never_times_out:
  "peek (input_buffer c) \<noteq> [] \<Longrightarrow> 0 \<le> fd c \<Longrightarrow> fd (closeIfIdle g now c) = fd c \<and>
    pending_timers (closeIfIdle g now c) \<noteq> []"
  by (simp add: closeIfIdle_def isIdle_def scheduleIdleCheck_def)

text \<open>While a request is processed, a peer that has shut down its side makes the descriptor readable
  again at once; the read handler has nothing to do and leaves everything as it was, with read interest
  on, so the loop spins until the result arrives.\<close>

lemma half_closed_peer_spins:
  assumes "peer_closed c" and "processing_request c" and "0 \<le> fd c"
  shows "handleRead [Recv_eof] now c = c"
  using assms by (simp add: handleRead_def Let_def)

definition quiet :: tcp_connection where
  "quiet = run_events [Dispatch 1 [] [] 10 10] conn0"

lemma idle_timeout_works_witness:
  "\<exists>d g. pending_timers quiet = [(d, g)] \<and> (\<exists>c1. tcp_step (Timer d g 61) quiet = Inr c1 \<and> fd c1 < 0)"
proof -
  have "all_enabled [Dispatch 1 [] [] 10 10] conn0" by code_simp
  from all_enabled_steps [OF this] have steps: "tcp_steps (establish 0 (TcpConnection 7 60 True)) [Dispatch 1 [] [] 10 10] quiet"
    by (simp add: conn0_def quiet_def)
  have facts: "0 \<le> fd quiet" "activities (tcp_log quiet) = 1" "pending_timers quiet = [(60, 1)]"
    "isIdle quiet" "idle_generation quiet = 1" "last_activity_at quiet \<le> 61" by code_simp+
  have bounds: "0 \<le> (7 :: int)" "activities (tcp_log quiet) < 2 ^ 64" using facts(2) by simp_all
  obtain d g where one: "pending_timers quiet = [(d, g)]"
    and fires: "d \<le> 61 \<and> last_activity_at quiet \<le> 61 \<Longrightarrow>
      \<exists>c1. tcp_step (Timer d g 61) quiet = Inr c1 \<and> (fd c1 < 0 \<longleftrightarrow> isIdle quiet \<and> g = idle_generation quiet)"
    using idle_timeout_works [OF bounds(1) steps facts(1) bounds(2)] by blast
  have "d = 60" "g = 1" using one facts(3) by simp_all
  with one fires facts(4-6) show ?thesis by auto
qed

end
