(* ===== verification/Settling.thy ===== *)
theory Settling
  imports Serving TcpIdle
begin

text \<open>
  The server comes to rest. Left alone (no new client, no new report of epoll but of the wake-up descriptor,
  no interruption), its threads can always step until everything is at rest, and they cannot step forever:
  an order on the states of \<open>Serving\<close>, which every such step descends, counts in turn the reports still to be
  dispatched, the work that unread input, tasks and wake-ups may still cause, how far each loop is in its
  iteration, and the tasks and timers that it has before it there. Time may pass, and timers may fire.
\<close>

section \<open>The steps of the server itself\<close>

text \<open>A step of a loop that needs nothing from outside: epoll reports the wake-up descriptor and no client, nobody
  asks the loop to quit, and no signal interrupts a call. A report that has been made may still be dispatched.\<close>

definition calm :: "io_loop \<Rightarrow> io_client loop_event \<Rightarrow> bool" where
  "calm l e =
    (case e of
       Poll now r \<Rightarrow> r = Ready [(wakeup_fd (the_loop (io_run l)), EPOLLIN)]
     | Set_quit \<Rightarrow> False | Write_eventfd interrupted \<Rightarrow> \<not> interrupted | Read_eventfd interrupted \<Rightarrow> \<not> interrupted
     | _ \<Rightarrow> True)"

fun own_step :: "serving \<Rightarrow> serving_event \<Rightarrow> bool" where
  "own_step s (Run_loop i e env) = calm (io_threads s ! i) e"
| "own_step s (Run_worker w r cl gone) = True"
| "own_step s (Notify_worker chosen) = True"
| "own_step s (Wake_worker w) = False"
| "own_step s (Accept_client n ok) = False"

definition left_alone ::
    "(io_client timer_queue \<Rightarrow> nat) \<Rightarrow> bool \<Rightarrow> (string \<Rightarrow> string \<times> bool \<Rightarrow> bool) \<Rightarrow> serving_event \<Rightarrow> serving \<Rightarrow> serving option" where
  "left_alone pick lat answers ev s = (if own_step s ev then serving_step pick lat answers ev s else None)"

text \<open>A loop that \<open>quit\<close> or a failure of \<open>epoll_wait\<close> has ended; the server that cannot step on its own.\<close>

definition loop_ended :: "io_loop \<Rightarrow> bool" where
  "loop_ended l = (case place (io_run l) of Finished \<Rightarrow> True | Raised e \<Rightarrow> True | _ \<Rightarrow> False)"

definition settled :: "serving \<Rightarrow> bool" where
  "settled s \<longleftrightarrow> quiescent (crew s) \<and> list_all (\<lambda>l. loop_at_rest l \<or> loop_ended l) (io_threads s)"

section \<open>Connections\<close>

text \<open>Delivering a result and checking for idleness receive nothing, so each request that they submit takes
  its bytes from the input buffer.\<close>

definition no_receipt :: "tcp_connection \<Rightarrow> tcp_connection \<Rightarrow> bool" where
  "no_receipt c c' \<longleftrightarrow> received_bytes (tcp_log c') = received_bytes (tcp_log c)"

interpretation receiving_nothing: finish_relation no_receipt
proof
  show "no_receipt c (close c)" for c
    by (simp add: no_receipt_def close_def loop_removeChannel_def) (simp add: received_bytes_def)
  show "no_receipt c (markActivity now c)" for now c
    by (simp add: no_receipt_def) (simp add: received_bytes_def)
  show "no_receipt c (processRequest c)" for c
    by (simp add: no_receipt_def processRequest_def Let_def) (simp add: received_bytes_def)
  show "no_receipt c (sent_some n c)" for n c
    by (auto simp: no_receipt_def sent_some_def received_bytes_def split: option.split)
  show "no_receipt c (response_done c)" for c
    by (auto simp: no_receipt_def response_done_def received_bytes_def split: option.split)
  show "no_receipt c c'" if "update_interest f c = Inr c'" for f c c'
    using that by (auto simp: no_receipt_def update_interest_def loop_updateChannel_def received_bytes_def split: if_splits)
  show "no_receipt c (accept_response i r cl c)" for i r cl c
    by (simp add: no_receipt_def accept_response_def) (simp add: received_bytes_def)
qed (simp_all add: no_receipt_def)

definition unread :: "tcp_connection \<Rightarrow> nat" where
  "unread c = length (peek (input_buffer c))"

lemma requests_not_empty:
  "list_all (one_request \<circ> snd) js \<Longrightarrow> length js \<le> length (concat (map snd js))"
  by (induction js) (auto simp: one_request_def)

lemma requests_paid:
  assumes "conn_stream c" and "conn_stream c'" and "no_receipt c c'" and log: "tcp_log c' = tcp_log c @ es"
  shows "unread c' + length (new_jobs c c') \<le> unread c"
proof -
  have new: "new_jobs c c' = submitted es" by (simp add: new_jobs_def log)
  have "received_bytes (tcp_log c) = concat (map snd (submitted (tcp_log c))) @ peek (input_buffer c)"
    using assms(1) by (simp add: conn_stream_def stream_inv_def)
  moreover have "received_bytes (tcp_log c') = concat (map snd (submitted (tcp_log c))) @ concat (map snd (submitted es)) @ peek (input_buffer c')"
    "list_all (one_request \<circ> snd) (submitted es)"
    using assms(2) by (simp_all add: conn_stream_def stream_inv_def log)
  ultimately have "peek (input_buffer c) = concat (map snd (submitted es)) @ peek (input_buffer c')"
    using assms(3) unfolding no_receipt_def by (metis same_append_eq)
  then show ?thesis
    using requests_not_empty [OF \<open>list_all _ (submitted es)\<close>] by (simp add: unread_def new)
qed

lemma step_receives_nothing:
  assumes "tcp_step ev c = Inr c'" and "\<And>revents rs ss now1 now2. ev \<noteq> Dispatch revents rs ss now1 now2"
  shows "no_receipt c c'"
proof (cases ev)
  case (Finish i r cl ss now)
  with assms(1) receiving_nothing.finish show ?thesis by simp
next
  case (Timer d g now)
  with assms(1) have "c' = closeIfIdle g now (before_event ev c)" by simp
  then have "no_receipt (before_event ev c) c'"
    using receiving_nothing.closing
    by (auto simp: closeIfIdle_def scheduleIdleCheck_def no_receipt_def) (simp_all add: received_bytes_def)
  then show ?thesis by (simp add: no_receipt_def)
qed (use assms(2) in blast)

lemma step_log: "tcp_step ev c = Inr c' \<Longrightarrow> \<exists>es. tcp_log c' = tcp_log c @ es"
  using step_calls_work [of ev c c' "()" "\<lambda>g. ()"] unfolding calls_work_def before_event_log by blast

text \<open>The idle timeout of a served connection never changes.\<close>

lemma step_timeout: "tcp_step ev c = Inr c' \<Longrightarrow> idle_timeout c' = idle_timeout c"
proof (cases ev)
  case (Timer d g now)
  assume "tcp_step ev c = Inr c'"
  with Timer show ?thesis by (auto simp: closeIfIdle_def scheduleIdleCheck_def close_def loop_removeChannel_def)
qed (use idling.dispatching idling.finish in \<open>fastforce simp: act_step_def simp del: tcp_step.simps(1)\<close>)+

lemma pipeline_run_timeout:
  assumes "pipeline_run answers lat c js rs"
  shows "idle_timeout c = connection_timeout"
proof -
  obtain n t0 evs sys where n: "0 \<le> n" and
    run: "run_steps (system_step answers) evs (system_start n t0 connection_timeout lat) = Some sys" "conn sys = c"
    using assms unfolding pipeline_run_def by blast
  have "idle_timeout (conn sys) = idle_timeout (conn (system_start n t0 connection_timeout lat))"
  proof (rule pipeline.run_relates [OF run(1) system_start_inv [OF n], where R = "\<lambda>s u. idle_timeout (conn u) = idle_timeout (conn s)"])
    fix s t u :: system and e
    assume "idle_timeout (conn t) = idle_timeout (conn s)" and step: "system_step answers e t = Some u"
    moreover have "idle_timeout (conn u) = idle_timeout (conn t)"
      using step step_timeout
      by (cases e) (auto simp: connection_step_def simp del: tcp_step.simps split: if_splits sum.splits list.splits)
    ultimately show "idle_timeout (conn u) = idle_timeout (conn s)" by simp
  qed simp
  then show ?thesis
    using run(2) by (simp add: system_start_def establish_def Let_def loop_addChannel_def markActivity_def scheduleIdleCheck_def TcpConnection_def)
qed

section \<open>The work before a loop\<close>

text \<open>Reports still to be dispatched, other than that of the wake-up descriptor.\<close>

definition stray :: "io_loop \<Rightarrow> nat" where
  "stray l = length (filter (\<lambda>ev. ev \<noteq> (wakeup_fd (the_loop (io_run l)), EPOLLIN)) (reports (place (io_run l))))"

text \<open>Wake-ups: two for each thread that is still to write the eventfd, one if it is to be read.\<close>

fun to_read :: "int \<Rightarrow> place \<Rightarrow> bool" where
  "to_read w (Dispatching evs) = ((w, EPOLLIN) \<in> set evs)"
| "to_read w (Reading evs) = True"
| "to_read w p = False"

definition wakeups :: "io_loop \<Rightarrow> nat" where
  "wakeups l = 2 * writers (io_run l) +
     (if eventfd_counter (the_loop (io_run l)) \<noteq> 0 \<or> to_read (wakeup_fd (the_loop (io_run l))) (place (io_run l)) then 1 else 0)"

text \<open>A byte that has not been read may be a request, which costs six in the pool.\<close>

definition unread_bytes :: "io_loop \<Rightarrow> nat" where
  "unread_bytes l = (\<Sum>c\<leftarrow>conns l. unread c)"

definition loop_work :: "io_loop \<Rightarrow> nat" where
  "loop_work l = 6 * unread_bytes l + wakeups l"

text \<open>How far the loop is in its iteration, from the reading of the eventfd to the next poll that reports it.\<close>

fun stage :: "int \<Rightarrow> place \<Rightarrow> nat" where
  "stage w Not_started = 9"
| "stage w (Swapping evs) = 8"
| "stage w (Running_tasks evs) = 7"
| "stage w (Dispatching evs) = (if (w, EPOLLIN) \<in> set evs then 1 else 6)"
| "stage w At_timers = 5"
| "stage w (Running_timers now) = 4"
| "stage w At_check = 3"
| "stage w At_poll = 2"
| "stage w p = 0"

definition loop_stage :: "io_loop \<Rightarrow> nat" where
  "loop_stage l = stage (wakeup_fd (the_loop (io_run l))) (place (io_run l))"

text \<open>Within a stage, the tasks taken from the queue and the expired timers. An idle check that finds a
  later activity may schedule another for a time that has passed too, but this one is then up to date.\<close>

definition timer_cost :: "tcp_connection list \<Rightarrow> time_point \<Rightarrow> io_client timer \<Rightarrow> nat" where
  "timer_cost cs now t =
    (if deadline t \<le> now then
       (case callback t of Idle_check k g \<Rightarrow> if g = idle_generation (cs ! k) then 1 else 2 | _ \<Rightarrow> 1)
     else 0)"

definition stage_steps :: "io_loop \<Rightarrow> nat" where
  "stage_steps l =
    (case place (io_run l) of
       Running_tasks evs \<Rightarrow> length (batch (io_run l))
     | Running_timers now \<Rightarrow> (\<Sum>t\<leftarrow>loop_timers (the_loop (io_run l)). timer_cost (conns l) now t)
     | _ \<Rightarrow> 0)"

text \<open>A step of the loop, with \<open>m\<close> requests submitted.\<close>

definition advances :: "nat \<Rightarrow> io_loop \<Rightarrow> io_loop \<Rightarrow> bool" where
  "advances m l l' \<longleftrightarrow> stray l' < stray l \<or> stray l' \<le> stray l \<and>
     unread_bytes l' + m \<le> unread_bytes l \<and>
     (wakeups l' < wakeups l \<or> wakeups l' \<le> wakeups l \<and>
       (loop_stage l' < loop_stage l \<or> loop_stage l' = loop_stage l \<and> stage_steps l' < stage_steps l))"

section \<open>Callbacks\<close>

lemma make_calls_frame:
  assumes "make_calls cs l = (err, l')"
  shows "wakeup_fd l' = wakeup_fd l \<and> eventfd_counter l' = eventfd_counter l"
  using assms
proof (induction cs arbitrary: l)
  case (Cons c cs)
  obtain e l1 where c: "loop_call c l = (e, l1)" by (rule prod.exhaust)
  from loop_call_frame(2,3) [OF c] Cons.IH [of l1] Cons.prems c show ?case by (cases e) auto
qed simp

lemma make_calls_timers:
  assumes "make_calls (client_calls h tm es) l = (None, l')"
  shows "loop_timers l' = loop_timers l @ named_timers tm (timers_of es)"
  using assms
proof (induction es arbitrary: l)
  case (Cons e es)
  obtain err l1 where first: "make_calls (client_call_of h tm e) l = (err, l1)" by (rule prod.exhaust)
  then have "err = None" using Cons.prems by (cases e) (auto split: prod.splits option.splits)
  moreover have "loop_timers l1 = loop_timers l @ named_timers tm (timers_of [e])" if "err = None"
    using first that by (cases e) (auto simp: loop_defs runAt_def addTimer_def timers_of_def split: if_splits option.splits)
  moreover have "make_calls (client_calls h tm es) l1 = (None, l')" if "err = None"
    using Cons.prems make_calls_append [of "client_call_of h tm e" l l1] first that by simp
  moreover have "timers_of (e # es) = timers_of [e] @ timers_of es" using timers_of_simps(2) [of "[e]" es] by simp
  ultimately show ?case using Cons.IH [of l1] by simp
qed simp

lemma finish_callback_effect:
  assumes "place (io_run s) = In_callback p"
  shows "place (io_run (finish_callback k c res s)) = p \<or> (\<exists>e. place (io_run (finish_callback k c res s)) = Raised e)"
    and "wakeup_fd (the_loop (io_run (finish_callback k c res s))) = wakeup_fd (the_loop (io_run s))"
    and "eventfd_counter (the_loop (io_run (finish_callback k c res s))) = eventfd_counter (the_loop (io_run s))"
    and "writers (io_run (finish_callback k c res s)) = writers (io_run s)"
    and "batch (io_run (finish_callback k c res s)) = batch (io_run s)"
  using assms make_calls_frame
  by (auto simp: finish_callback_def raise_loop_def return_callback_def replay_def Let_def split: sum.split prod.split option.split)

lemma finish_callback_conns:
  "conns (finish_callback k c (Inr c') s) = (conns s)[k := c']"
  "outstanding (finish_callback k c (Inr c') s) = outstanding s @ map (Pair k) (new_jobs c c')"
  "conns (finish_callback k c (Inl e) s) = conns s" "outstanding (finish_callback k c (Inl e) s) = outstanding s"
  by (auto simp: finish_callback_def raise_loop_def Let_def split: prod.split option.split)

lemma finish_callback_timers:
  assumes "place (io_run (finish_callback k c (Inr c') s)) \<notin> range Raised" and "tcp_log c' = tcp_log c @ es"
  shows "loop_timers (the_loop (io_run (finish_callback k c (Inr c') s))) =
    loop_timers (the_loop (io_run s)) @ named_timers (Idle_check k) (timers_of es)"
proof -
  obtain err l where calls: "make_calls (client_calls (Connection k) (Idle_check k) es) (the_loop (io_run s)) = (err, l)"
    by (rule prod.exhaust)
  then have "err = None" using assms by (cases err) (simp_all add: finish_callback_def replay_def raise_loop_def Let_def)
  with calls make_calls_timers [of _ _ es _ l] assms(2) show ?thesis
    by (simp add: finish_callback_def replay_def return_callback_def Let_def split: place.split)
qed

lemma unread_update:
  "k < length cs \<Longrightarrow> unread c' + m \<le> unread (cs ! k) \<Longrightarrow> (\<Sum>c\<leftarrow>cs[k := c']. unread c) + m \<le> (\<Sum>c\<leftarrow>cs. unread c)"
  using sum_list_update_add [of k cs unread c'] by linarith

text \<open>A callback of a task or a timer for connection \<open>k\<close>.\<close>

lemma callback_pays:
  assumes k: "k < length (conns s)" and stream: "conn_stream (conns s ! k)" and inv: "io_inv answers lat s'"
    and s': "s' = finish_callback k (conns s ! k) (tcp_step ev (conns s ! k)) s"
    and ev: "\<And>revents rs ss now1 now2. ev \<noteq> Dispatch revents rs ss now1 now2"
  shows "unread_bytes s' + (length (outstanding s') - length (outstanding s)) \<le> unread_bytes s"
proof (cases "tcp_step ev (conns s ! k)")
  case (Inl e)
  then show ?thesis by (simp add: s' unread_bytes_def finish_callback_conns)
next
  case (Inr c')
  have conns: "conns s' = (conns s)[k := c']" using s' Inr by (simp add: finish_callback_conns)
  then have "conn_stream c'" using pipeline_run_ctl(2) [OF io_inv_conn(1) [OF inv, of k]] k by simp
  with step_receives_nothing [OF Inr ev] step_log [OF Inr] stream
  have "unread c' + length (new_jobs (conns s ! k) c') \<le> unread (conns s ! k)" using requests_paid by blast
  from unread_update [OF k this] show ?thesis using Inr by (simp add: s' unread_bytes_def finish_callback_conns)
qed

text \<open>An idle check is replaced by one that costs less.\<close>

lemma idle_check_cheaper:
  assumes step: "tcp_step (Timer d g now2) c = Inr c'" and log: "tcp_log c' = tcp_log c @ es" and due: "d \<le> now" "now \<le> now2"
    and c: "idle_timeout c = connection_timeout" "k < length cs" "cs ! k = c"
  shows "idle_generation c' = idle_generation c \<and>
    (\<Sum>t\<leftarrow>named_timers (Idle_check k) (timers_of es). timer_cost (cs[k := c']) now t) <
      timer_cost cs now \<lparr>deadline = d, callback = Idle_check k g\<rparr>"
proof -
  let ?c = "c\<lparr>pending_timers := remove1 (d, g) (pending_timers c)\<rparr>"
  have c': "c' = (if fd c < 0 then ?c else if g \<noteq> idle_generation c then scheduleIdleCheck (last_activity_at c + idle_timeout c) ?c
      else if \<not> isIdle c then scheduleIdleCheck (now2 + idle_timeout c) ?c else close ?c)"
    using step by (auto simp: closeIfIdle_def isIdle_def)
  have gen: "idle_generation c' = idle_generation c"
    by (simp add: c' scheduleIdleCheck_def close_def loop_removeChannel_def)
  have es: "timers_of es = (if fd c < 0 then [] else if g \<noteq> idle_generation c then [(last_activity_at c + idle_timeout c, idle_generation c)]
      else if \<not> isIdle c then [(now2 + idle_timeout c, idle_generation c)] else [])"
    using log by (auto simp: c' scheduleIdleCheck_def close_def loop_removeChannel_def split: if_splits)
  show ?thesis
    using gen due c(2,3) by (auto simp: es timer_cost_def c(1) connection_timeout_def)
qed

lemma run_callback_effect:
  assumes "place (io_run s) = In_callback p"
  shows "(place (io_run (run_callback lat env cb s)) = p \<or> (\<exists>e. place (io_run (run_callback lat env cb s)) = Raised e)) \<and>
    wakeup_fd (the_loop (io_run (run_callback lat env cb s))) = wakeup_fd (the_loop (io_run s)) \<and>
    eventfd_counter (the_loop (io_run (run_callback lat env cb s))) = eventfd_counter (the_loop (io_run s)) \<and>
    writers (io_run (run_callback lat env cb s)) = writers (io_run s) \<and>
    batch (io_run (run_callback lat env cb s)) = batch (io_run s)"
  using assms
proof (induction lat env cb s rule: run_callback.induct)
  case (2 lat env n s)
  then have "place (io_run (s\<lparr>conns := cs\<rparr>)) = In_callback p" for cs by simp
  from finish_callback_effect [OF this] show ?case by (simp add: callback_bodies Let_def)
qed (auto simp: callback_bodies finish_callback_effect raise_loop_def split: io_client.split)

section \<open>Steps of a loop\<close>

lemma advances_stage:
  assumes "stray l' \<le> stray l" and "unread_bytes l' + m \<le> unread_bytes l" and "wakeups l' \<le> wakeups l"
    and "loop_stage l' < loop_stage l"
  shows "advances m l l'"
  using assms by (simp add: advances_def)

lemma advances_work:
  assumes "stray l' \<le> stray l" and "unread_bytes l' + m \<le> unread_bytes l" and "wakeups l' < wakeups l"
  shows "advances m l l'"
  using assms by (simp add: advances_def)

lemmas loop_measures = stray_def loop_work_def wakeups_def unread_bytes_def loop_stage_def stage_steps_def

lemma started_in_callback:
  assumes "loop_inv r" and "place r = In_callback p"
  shows "started_callback pick r0 r \<noteq> None"
proof -
  have "place_ok (place r)" using assms(1) unfolding loop_inv_def by blast
  with assms(2) show ?thesis by (cases p) (auto simp: started_callback_def split: prod.splits)
qed

text \<open>The dispatch of a report, whether it starts a callback or not.\<close>

lemma dispatch_advances:
  assumes inv: "io_inv answers lat l" and at: "place (io_run l) = Dispatching evs"
    and r: "r = loop_dispatch evs (io_run l)" "\<nexists>p. place r = In_callback p"
  shows "advances 0 l (l\<lparr>io_run := r, clock := t\<rparr>)"
proof (cases evs)
  case Nil
  with at r show ?thesis by (intro advances_stage) (simp_all add: loop_measures loop_dispatch_def)
next
  case (Cons e rest)
  let ?w = "wakeup_fd (the_loop (io_run l))"
  have wake: "loop_channels (the_loop (io_run l)) ?w = Some Wakeup_handler"
    using io_inv_loop [OF inv] by (simp add: loop_inv_def wakeup_registered_def)
  show ?thesis
  proof (cases "e = (?w, EPOLLIN)")
    case True
    then have "r = goto (Reading rest) (goto (Dispatching rest) (io_run l))"
      using r(1) Cons wake by (simp add: loop_dispatch_def dispatch_def handleEvent_def invoke_def setReadCallback_def setErrorCallback_def)
    with at Cons True show ?thesis by (intro advances_stage) (simp_all add: loop_measures)
  next
    case False
    have "reports (place r) = rest \<and> wakeup_fd (the_loop r) = ?w"
      using r Cons
      by (auto simp: loop_dispatch_def dispatch_def handleEvent_def invoke_def Let_def request_quit_def quit_def
          simp del: epoll_bits split: option.splits handler.splits if_splits)
    then show ?thesis using at Cons False by (simp add: advances_def stray_def)
  qed
qed

lemma plain_advances:
  assumes inv: "io_inv answers lat l" and step: "loop_step pick e (io_run l) = Some r"
    and e: "loop_thread_event e" "calm l e" and no_callback: "\<nexists>p. place r = In_callback p"
  shows "advances 0 l (l\<lparr>io_run := r, clock := t\<rparr>)"
proof -
  note place = io_inv_place [OF inv]
  show ?thesis
  proof (cases e)
    case (Write_eventfd b)
    with step e(2) have "r = (io_run l)\<lparr>the_loop := wakeup (the_loop (io_run l)), writers := writers (io_run l) - 1\<rparr>" "0 < writers (io_run l)"
      by (auto simp: calm_def split: if_splits)
    then show ?thesis by (intro advances_work) (simp_all add: stray_def wakeups_def unread_bytes_def)
  next
    case Start
    with step show ?thesis by (intro advances_stage) (auto simp: loop_measures split: if_splits)
  next
    case Check
    with step show ?thesis by (intro advances_stage) (auto simp: loop_measures loop_check_def split: if_splits)
  next
    case (Poll now res)
    then have "res = Ready [(wakeup_fd (the_loop (io_run l)), EPOLLIN)]" using e(2) by (simp add: calm_def)
    with step Poll have "place (io_run l) = At_poll" "eventfd_counter (the_loop (io_run l)) \<noteq> 0"
      and "r = goto (Dispatching [(wakeup_fd (the_loop (io_run l)), EPOLLIN)]) ((io_run l)\<lparr>polls := polls (io_run l) + 1\<rparr>)"
      by (auto simp: loop_poll_def poll_allowed_def wakeup_reported_def readable_event_def wait_def split: if_splits)
    then show ?thesis by (intro advances_stage) (simp_all add: loop_measures)
  next
    case Dispatch_next
    with step obtain evs where "place (io_run l) = Dispatching evs" "r = loop_dispatch evs (io_run l)" by (auto split: place.splits)
    from dispatch_advances [OF inv this no_callback] show ?thesis .
  next
    case (Read_eventfd b)
    then obtain evs where at: "place (io_run l) = Reading evs" and r: "r = handleWakeup_read False evs (io_run l)"
      using step e(2) by (auto simp: calm_def split: place.splits)
    have "(wakeup_fd (the_loop (io_run l)), EPOLLIN) \<notin> set evs" using place at by force
    then show ?thesis
      using at by (simp add: r handleWakeup_read_def wakeup_read_def advances_def loop_measures)
  next
    case Swap
    then show ?thesis using step
      by (intro advances_stage) (auto simp: handleWakeup_swap_def swap_tasks_def loop_measures split: place.splits)
  next
    case Next_task
    then obtain evs where at: "place (io_run l) = Running_tasks evs" and r: "r = goto (Dispatching evs) (io_run l)"
      using step no_callback by (auto simp: handleWakeup_task_def split: place.splits list.splits)
    have "(wakeup_fd (the_loop (io_run l)), EPOLLIN) \<notin> set evs" using place at by force
    then show ?thesis using at by (intro advances_stage) (simp_all add: r loop_measures)
  next
    case (Timers now)
    with step show ?thesis by (intro advances_stage) (auto simp: loop_measures split: if_splits)
  next
    case Next_timer
    with step no_callback show ?thesis
      by (intro advances_stage) (auto simp: loop_timer_def loop_measures Let_def split: place.splits if_splits)
  qed (use e in \<open>simp_all add: calm_def\<close>)
qed

text \<open>A callback of a task or a timer: what the loop and its connections have before them afterwards.\<close>

lemma callback_advances:
  assumes at: "place (io_run l) = p" "place (io_run s) = In_callback p" "while_tasks p \<or> (\<exists>now. p = Running_timers now)"
    and same: "writers (io_run s) = writers (io_run l)" "wakeup_fd (the_loop (io_run s)) = wakeup_fd (the_loop (io_run l))"
      "eventfd_counter (the_loop (io_run s)) = eventfd_counter (the_loop (io_run l))"
    and paid: "unread_bytes (run_callback lat env cb s) + m \<le> unread_bytes l"
    and fewer: "place (io_run (run_callback lat env cb s)) = p \<Longrightarrow> stage_steps (run_callback lat env cb s) < stage_steps l"
  shows "advances m l (run_callback lat env cb s)"
proof -
  let ?l' = "run_callback lat env cb s"
  note effect = run_callback_effect [OF at(2), of lat env cb]
  have work: "wakeups ?l' \<le> wakeups l"
    using effect same at(1,3) by (cases p) (auto simp: wakeups_def)
  have stray: "stray ?l' \<le> stray l" using effect same at(1) by (auto simp: stray_def)
  show ?thesis
  proof (cases "place (io_run ?l') = p")
    case True
    then have "loop_stage ?l' = loop_stage l" using effect same at(1) by (simp add: loop_stage_def)
    with work paid stray fewer [OF True] show ?thesis by (simp add: advances_def)
  next
    case False
    then have "loop_stage ?l' < loop_stage l" using effect at(1,3) by (cases p) (auto simp: loop_stage_def)
    then show ?thesis by (rule advances_stage [OF stray paid work])
  qed
qed

lemma task_advances:
  assumes inv: "io_inv answers lat l" and step: "loop_step pick Next_task (io_run l) = Some r" and cb: "place r = In_callback p"
    and started: "started_callback pick (io_run l) r = Some cb"
    and after: "l' = run_callback lat env cb (l\<lparr>io_run := r, clock := t\<rparr>)" "io_inv answers lat l'"
  shows "advances (length (outstanding l') - length (outstanding l)) l l'"
proof -
  obtain rest task ts where at: "place (io_run l) = Running_tasks rest" "batch (io_run l) = task # ts" and p: "p = Running_tasks rest"
    and r: "r = goto (In_callback (Running_tasks rest)) ((io_run l)\<lparr>batch := ts, executed := executed (io_run l) @ [task]\<rparr>)"
    and task: "cb = Task_callback task" using next_task_result [OF step cb] started by auto
  let ?s = "l\<lparr>io_run := r, clock := t\<rparr>"
  have "unread_bytes l' + (length (outstanding l') - length (outstanding l)) \<le> unread_bytes l"
  proof (cases task)
    case (New_connection n)
    let ?c = "TcpConnection n connection_timeout lat"
    have "unread (establish (env_write env) ?c) = 0" "new_jobs ?c (establish (env_write env) ?c) = []"
      by (simp_all add: unread_def new_jobs_def establish_def Let_def loop_addChannel_def TcpConnection_def scheduleIdleCheck_def
          markActivity_def log_defs new_buffer_def peek_def)
    then show ?thesis
      using New_connection by (simp add: after(1) task callback_bodies Let_def finish_callback_conns unread_bytes_def)
  next
    case (Delivery k i reply cl)
    have "k < length (conns l)" using io_inv_parts(2) [OF inv] at(2) Delivery by (simp add: tasks_inv_def)
    with callback_pays [of k ?s answers lat l'] pipeline_run_ctl(2) [OF io_inv_conn(1) [OF inv]] after Delivery show ?thesis
      by (simp add: task callback_bodies unread_bytes_def del: tcp_step.simps)
  qed (use io_inv_parts(2) [OF inv] at(2) in \<open>simp_all add: tasks_inv_def\<close>)
  moreover have "stage_steps l' < stage_steps l" if "place (io_run l') = Running_tasks rest"
    using that run_callback_effect [of ?s "Running_tasks rest" lat env cb] at by (simp add: stage_steps_def after(1) r)
  ultimately show ?thesis
    unfolding after(1) by (intro callback_advances [where p = "Running_tasks rest"]) (simp_all add: at r)
qed

lemma timer_advances:
  assumes inv: "io_inv answers lat l" and step: "loop_step pick Next_timer (io_run l) = Some r" and cb: "place r = In_callback p"
    and started: "started_callback pick (io_run l) r = Some cb" and top: "valid_top pick" and t: "clock l \<le> env_write env"
    and after: "l' = run_callback lat env cb (l\<lparr>io_run := r, clock := env_write env\<rparr>)" "io_inv answers lat l'"
  shows "advances (length (outstanding l') - length (outstanding l)) l l'"
proof -
  let ?q = "loop_timers (the_loop (io_run l))" and ?s = "l\<lparr>io_run := r, clock := env_write env\<rparr>"
  obtain now where at: "place (io_run l) = Running_timers now" and due: "?q \<noteq> []" "deadline (timer_top pick ?q) \<le> now"
    and r: "r = goto (In_callback (Running_timers now)) ((io_run l)\<lparr>the_loop := (the_loop (io_run l))\<lparr>loop_timers := timer_pop pick ?q\<rparr>\<rparr>)"
    using step cb by (auto simp: loop_timer_def Let_def split: place.splits if_splits)
  have i: "pick ?q < length ?q" using top due(1) by (simp add: valid_top_def)
  define tm where "tm = timer_top pick ?q"
  have "timer_ok (length (conns l)) tm"
    using i io_inv_parts(3) [OF inv] by (simp add: timers_inv_def tm_def timer_top_def list_all_length)
  then obtain k g where k: "k < length (conns l)" "callback tm = Idle_check k g"
    by (auto simp: timer_ok.simps split: io_client.splits)
  let ?c = "conns l ! k" and ?ev = "Timer (deadline tm) g (env_write env)"
  have cb': "cb = Timer_callback tm" using started by (simp add: started_callback_def r tm_def)
  have l': "l' = finish_callback k ?c (tcp_step ?ev ?c) ?s" by (simp add: after(1) cb' k(2) callback_bodies)
  have conn: "conn_stream ?c" "idle_timeout ?c = connection_timeout"
    using pipeline_run_ctl(2) pipeline_run_timeout io_inv_conn(1) [OF inv k(1)] by blast+
  have "unread_bytes l' + (length (outstanding l') - length (outstanding l)) \<le> unread_bytes l"
    using callback_pays [of k ?s answers lat l' ?ev] k(1) conn(1) after(2) l' by (simp add: unread_bytes_def del: tcp_step.simps)
  moreover have "stage_steps l' < stage_steps l" if stays: "place (io_run l') = Running_timers now"
  proof -
    obtain c' where c': "tcp_step ?ev ?c = Inr c'" by simp
    obtain es where es: "tcp_log c' = tcp_log ?c @ es" using step_log [OF c'] ..
    let ?cs = "(conns l)[k := c']"
    have "now \<le> env_write env" using io_inv_place [OF inv] at t by simp
    from idle_check_cheaper [OF c' es _ this conn(2) k(1) refl] due(2) have cheaper: "idle_generation c' = idle_generation ?c"
      "(\<Sum>t\<leftarrow>named_timers (Idle_check k) (timers_of es). timer_cost ?cs now t) < timer_cost (conns l) now tm"
      using k(2) by (simp_all add: tm_def timer_cost_def)
    have "idle_generation (?cs ! j) = idle_generation (conns l ! j)" for j using cheaper(1) k(1) by (cases "j = k") simp_all
    then have "timer_cost ?cs now = timer_cost (conns l) now" by (auto simp: timer_cost_def split: io_client.split)
    moreover have "conns l' = ?cs" using l' c' by (simp add: finish_callback_conns)
    moreover have "loop_timers (the_loop (io_run l')) = timer_pop pick ?q @ named_timers (Idle_check k) (timers_of es)"
      using finish_callback_timers [of k ?c c' ?s es] stays es c' l' by (auto simp: r)
    moreover have "(\<Sum>t\<leftarrow>?q. timer_cost (conns l) now t) =
        timer_cost (conns l) now tm + (\<Sum>t\<leftarrow>timer_pop pick ?q. timer_cost (conns l) now t)"
      using sum_list_without [OF i, of "timer_cost (conns l) now"] by (simp add: tm_def timer_top_def timer_pop_def)
    ultimately show ?thesis using cheaper(2) stays at by (simp add: stage_steps_def)
  qed
  ultimately show ?thesis
    unfolding after(1) by (intro callback_advances [where p = "Running_timers now"]) (simp_all add: at r)
qed

lemma ready_advances:
  assumes inv: "io_inv answers lat l" and step: "loop_step pick Dispatch_next (io_run l) = Some r" and cb: "place r = In_callback p"
  shows "advances m l (run_callback lat env cb (l\<lparr>io_run := r, clock := t\<rparr>))"
proof -
  obtain evs where at: "place (io_run l) = Dispatching evs" and r: "r = loop_dispatch evs (io_run l)"
    using step by (auto split: place.splits)
  obtain n revents rest x where evs: "evs = (n, revents) # rest" and x: "loop_channels (the_loop (io_run l)) n = Some (Handler x)"
    and p: "p = Dispatching rest" and w: "wakeup_fd (the_loop r) = wakeup_fd (the_loop (io_run l))"
    using cb r by (auto simp: loop_dispatch_def dispatch_def handleEvent_def invoke_def Let_def request_quit_def
        simp del: epoll_bits split: list.splits option.splits handler.splits if_splits)
  have "loop_channels (the_loop (io_run l)) (wakeup_fd (the_loop (io_run l))) = Some Wakeup_handler"
    using io_inv_loop [OF inv] by (simp add: loop_inv_def wakeup_registered_def)
  with x have "n \<noteq> wakeup_fd (the_loop (io_run l))" by fastforce
  moreover have "place (io_run (l\<lparr>io_run := r, clock := t\<rparr>)) = In_callback (Dispatching rest)" using cb p by simp
  from run_callback_effect [OF this, of lat env cb] w
  have "stray (run_callback lat env cb (l\<lparr>io_run := r, clock := t\<rparr>)) \<le>
      length (filter (\<lambda>ev. ev \<noteq> (wakeup_fd (the_loop (io_run l)), EPOLLIN)) rest)" by (auto simp: stray_def)
  ultimately show ?thesis using at evs by (simp add: advances_def stray_def)
qed

text \<open>Every step of a loop that needs nothing from outside brings it further.\<close>

lemma loop_advances:
  assumes top: "valid_top pick" and inv: "io_inv answers lat l" and calm: "calm l e"
    and step: "io_step pick lat answers (Loop_thread e env) l = Some l'"
  shows "advances (length (outstanding l') - length (outstanding l)) l l'"
proof -
  obtain r where e: "loop_thread_event e" "clock l \<le> fst (readings e env)" "fst (readings e env) \<le> snd (readings e env)"
    and r: "loop_step pick e (io_run l) = Some r"
    and l': "l' = (case started_callback pick (io_run l) r of None \<Rightarrow> l\<lparr>io_run := r, clock := snd (readings e env)\<rparr>
       | Some cb \<Rightarrow> run_callback lat env cb (l\<lparr>io_run := r, clock := snd (readings e env)\<rparr>))"
    using step by (auto simp: Let_def split: if_splits option.splits)
  have after: "io_inv answers lat l'" by (rule io_step_inv [OF top inv step])
  show ?thesis
  proof (cases "started_callback pick (io_run l) r")
    case None
    have "\<nexists>p. place r = In_callback p"
      using started_in_callback [OF loop_step_inv [OF io_inv_loop [OF inv] r]] None by blast
    from plain_advances [OF inv r e(1) calm this] None show ?thesis by (simp add: l')
  next
    case (Some cb)
    then obtain p where p: "place r = In_callback p" and which: "e \<in> {Dispatch_next, Next_task, Next_timer}"
      using callback_starts [OF inv r e(1)] by auto
    have t: "clock l \<le> env_write env" and now: "snd (readings e env) = env_write env"
      using e which by (auto simp: readings_def)
    have l': "l' = run_callback lat env cb (l\<lparr>io_run := r, clock := env_write env\<rparr>)" by (simp add: l' Some now)
    consider "e = Dispatch_next" | "e = Next_task" | "e = Next_timer" using which by blast
    then show ?thesis
    proof cases
      case 1
      from ready_advances [OF inv r [unfolded 1] p] show ?thesis unfolding l' .
    next
      case 2
      from task_advances [OF inv r [unfolded 2] p Some l' after] show ?thesis .
    next
      case 3
      from timer_advances [OF inv r [unfolded 3] p Some top t l' after] show ?thesis .
    qed
  qed
qed

section \<open>Steps of the pool\<close>

text \<open>A queued task costs four and its notification two; a task that ends may cause one wake-up of a loop.\<close>

definition worker_work :: "'t worker \<Rightarrow> nat" where
  "worker_work w = (case w of At_lock \<Rightarrow> 1 | Asleep \<Rightarrow> 0 | Running _ \<Rightarrow> 4 | worker.Returned \<Rightarrow> 0)"

lemma worker_work_simps [simp]:
  "worker_work At_lock = 1" "worker_work Asleep = 0" "worker_work (Running t) = 4" "worker_work worker.Returned = 0"
  by (simp_all add: worker_work_def)

definition pool_work :: "'t pool \<Rightarrow> nat" where
  "pool_work p = 4 * length (tasks p) + (\<Sum>w\<leftarrow>workers p. worker_work w) + 2 * notifications p"

lemma worker_work_update:
  "i < length ws \<Longrightarrow> (\<Sum>w\<leftarrow>ws[i := v]. worker_work w) + worker_work (ws ! i) = (\<Sum>w\<leftarrow>ws. worker_work w) + worker_work v"
  by (rule sum_list_update_add)

lemma submit_jobs_work: "submit_jobs ts p = Inr p' \<Longrightarrow> pool_work p' = pool_work p + 6 * length ts"
  by (induction ts arbitrary: p) (auto simp: submit_def pool_work_def split: sum.splits if_splits)

lemma workerLoop_work:
  assumes "workerLoop i raised p = Some p'"
  shows "pool_work p' < pool_work p" and "workers p ! i = Running t \<Longrightarrow> pool_work p' + 3 = pool_work p"
proof -
  have i: "i < length (workers p)" using assms by (simp add: workerLoop_def split: if_splits)
  have "pool_work p' < pool_work p \<and> (workers p ! i = Running t \<longrightarrow> pool_work p' + 3 = pool_work p)"
  proof (cases "workers p ! i")
    case At_lock
    then have p': "p' = worker_lock i p" using assms i by (simp add: workerLoop_def)
    show ?thesis
      using worker_work_update [OF i, of Asleep] worker_work_update [OF i, of worker.Returned]
        worker_work_update [OF i, of "Running (hd (tasks p))"] At_lock
      by (cases "tasks p") (simp_all add: p' worker_lock_def pool_work_def)
  next
    case (Running u)
    then have "p' = p\<lparr>workers := (workers p)[i := At_lock], ended_tasks := ended_tasks p @ [(u, raised)]\<rparr>"
      using assms i by (simp add: workerLoop_def)
    with worker_work_update [OF i, of At_lock] Running show ?thesis by (simp add: pool_work_def)
  qed (use assms i in \<open>simp_all add: workerLoop_def\<close>)
  then show "pool_work p' < pool_work p" "workers p ! i = Running t \<Longrightarrow> pool_work p' + 3 = pool_work p" by simp_all
qed

lemma notify_one_work: "notify_one chosen p = Some p' \<Longrightarrow> pool_work p' < pool_work p"
  using worker_work_update [of "the chosen" "workers p" At_lock]
  by (auto simp: notify_one_def pool_work_def split: if_splits option.splits)

section \<open>Steps of the server\<close>

definition over_loops :: "(io_loop \<Rightarrow> nat) \<Rightarrow> serving \<Rightarrow> nat" where
  "over_loops f s = (\<Sum>l\<leftarrow>io_threads s. f l)"

definition server_work :: "serving \<Rightarrow> nat" where
  "server_work s = pool_work (crew s) + over_loops loop_work s"

definition rest_order :: "(serving \<times> serving) set" where
  "rest_order = measures [over_loops stray, server_work, over_loops loop_stage, over_loops stage_steps]"

lemma over_loops_update:
  "i < length (io_threads s) \<Longrightarrow> over_loops f (s\<lparr>crew := p, io_threads := (io_threads s)[i := l]\<rparr>) + f (io_threads s ! i) =
    over_loops f s + f l"
  by (simp add: over_loops_def sum_list_update_add)

lemma loop_descends:
  assumes i: "i < length (io_threads s)" and "advances m (io_threads s ! i) l" and "pool_work p = pool_work (crew s) + 6 * m"
  shows "(s\<lparr>crew := p, io_threads := (io_threads s)[i := l]\<rparr>, s) \<in> rest_order"
  using assms(2,3) over_loops_update [OF i, of stray l p] over_loops_update [OF i, of loop_work l p]
    over_loops_update [OF i, of loop_stage l p] over_loops_update [OF i, of stage_steps l p]
  unfolding advances_def rest_order_def server_work_def loop_work_def by auto

text \<open>A result that is queued on a loop costs a wake-up, less than its task did.\<close>

lemma completed_work:
  assumes "io_step pick lat answers (Completed job r cl gone) l = Some l'"
  shows "stray l' = stray l \<and> loop_work l' \<le> loop_work l + 2"
  using assms by (cases job) (auto simp: push_task_def queue_push_def loop_measures Let_def split: if_splits)

lemma completion_descends:
  assumes i: "i < length (io_threads s)" and "stray l = stray (io_threads s ! i)" "loop_work l \<le> loop_work (io_threads s ! i) + 2"
    and "pool_work p + 3 = pool_work (crew s)"
  shows "(s\<lparr>crew := p, io_threads := (io_threads s)[i := l]\<rparr>, s) \<in> rest_order"
  using assms(2-4) over_loops_update [OF i, of stray l p] over_loops_update [OF i, of loop_work l p]
  unfolding rest_order_def server_work_def by auto

lemma pool_descends: "pool_work p < pool_work (crew s) \<Longrightarrow> (s\<lparr>crew := p\<rparr>, s) \<in> rest_order"
  by (simp add: rest_order_def server_work_def over_loops_def)

lemma crew_step_descends:
  assumes inv: "threads_inv answers lat s" and step: "serving_step pick lat answers ev s = Some s'" and ev: "crew_event ev" "own_step s ev"
  shows "(s', s) \<in> rest_order \<and> notifying_all (crew s') = notifying_all (crew s)"
proof (cases ev)
  case (Run_worker w r cl gone)
  then have w: "w < length (workers (crew s))" using step by (auto split: if_splits)
  have flag: "workerLoop w False (crew s) = Some p \<Longrightarrow> notifying_all p = notifying_all (crew s)" for p
    by (auto simp: workerLoop_def worker_lock_def split: if_splits worker.splits)
  show ?thesis
  proof (cases "\<exists>i job. workers (crew s) ! w = Running (i, job)")
    case True
    then obtain i job where run: "workers (crew s) ! w = Running (i, job)" by blast
    then obtain l p where l: "io_step pick lat answers (Completed job r cl gone) (io_threads s ! i) = Some l"
      and p: "workerLoop w False (crew s) = Some p" and s': "s' = s\<lparr>crew := p, io_threads := (io_threads s)[i := l]\<rparr>"
      using step w Run_worker by (auto simp del: io_step.simps split: option.splits)
    have "i < length (io_threads s)" using running_known [OF inv w run] by blast
    from completion_descends [OF this] completed_work [OF l] workerLoop_work(2) [OF p run] flag [OF p] show ?thesis by (simp add: s')
  next
    case False
    then obtain p where "workerLoop w False (crew s) = Some p" "s' = s\<lparr>crew := p\<rparr>"
      using step w Run_worker by (auto split: worker.splits)
    with pool_descends workerLoop_work(1) flag show ?thesis by fastforce
  qed
next
  case (Notify_worker chosen)
  then obtain p where p: "notify_one chosen (crew s) = Some p" "s' = s\<lparr>crew := p\<rparr>" using step by auto
  then have "notifying_all p = notifying_all (crew s)" by (auto simp: notify_one_def split: if_splits option.splits)
  with p pool_descends notify_one_work show ?thesis by fastforce
qed (use ev in simp_all)

lemma loop_step_descends:
  assumes top: "valid_top pick" and inv: "threads_inv answers lat s" and i: "i < length (io_threads s)" and calm: "calm (io_threads s ! i) e"
    and l: "io_step pick lat answers (Loop_thread e env) (io_threads s ! i) = Some l"
    and p: "submit_jobs (map (Pair i) (drop (length (outstanding (io_threads s ! i))) (outstanding l))) (crew s) = Inr p"
  shows "(s\<lparr>crew := p, io_threads := (io_threads s)[i := l]\<rparr>, s) \<in> rest_order"
proof -
  have "io_inv answers lat (io_threads s ! i)" using inv i by (simp add: threads_inv_def)
  from loop_descends [OF i loop_advances [OF top this calm l]] submit_jobs_work [OF p] show ?thesis by simp
qed

lemma left_alone_descends:
  assumes top: "valid_top pick" and inv: "serving_inv answers lat s" and step: "left_alone pick lat answers ev s = Some s'"
  shows "(s', s) \<in> rest_order"
proof -
  have own: "own_step s ev" and step: "serving_step pick lat answers ev s = Some s'"
    using step by (auto simp: left_alone_def split: if_splits)
  note threads = serving_threads [OF inv]
  show ?thesis
  proof (cases ev)
    case (Run_loop i e env)
    then obtain l p where i: "i < length (io_threads s)" and l: "io_step pick lat answers (Loop_thread e env) (io_threads s ! i) = Some l"
      and p: "submit_jobs (map (Pair i) (drop (length (outstanding (io_threads s ! i))) (outstanding l))) (crew s) = Inr p"
      and s': "s' = s\<lparr>crew := p, io_threads := (io_threads s)[i := l]\<rparr>"
      using step by (auto simp del: io_step.simps split: if_splits option.splits sum.splits)
    from loop_step_descends [OF top threads i _ l p] own Run_loop show ?thesis by (simp add: s')
  qed (use crew_step_descends [OF threads step] own in \<open>simp_all del: serving_step.simps\<close>)
qed

interpretation settling: settling_machine "left_alone pick lat answers" "\<lambda>s. valid_top pick \<and> serving_inv answers lat s" rest_order
proof
  show "wf rest_order" by (simp add: rest_order_def)
qed (auto simp: left_alone_def intro: serving_step_inv left_alone_descends split: if_splits)

section \<open>Until it rests\<close>

lemma loop_can_step:
  assumes inv: "io_inv answers lat l" and runs: "\<not> loop_ended l" and busy: "\<not> loop_at_rest l"
  shows "\<exists>e. calm l e \<and> loop_thread_event e \<and> loop_step pick e (io_run l) \<noteq> None \<and> readings e (no_io (clock l)) = (clock l, clock l)"
proof -
  let ?r = "io_run l"
  have li: "loop_inv ?r" by (rule io_inv_loop [OF inv])
  show ?thesis
  proof (cases "place ?r")
    case Not_started
    then show ?thesis by (intro exI [of _ Start]) (simp add: calm_def readings_def no_io_def)
  next
    case At_check
    then show ?thesis by (intro exI [of _ Check]) (simp add: calm_def readings_def no_io_def)
  next
    case At_poll
    show ?thesis
    proof (cases "writers ?r = 0")
      case False
      then show ?thesis by (intro exI [of _ "Write_eventfd False"]) (simp add: calm_def readings_def no_io_def)
    next
      case True
      then have counter: "eventfd_counter (the_loop ?r) \<noteq> 0" using busy At_poll by (simp add: loop_at_rest_def)
      have wake: "loop_interest (the_loop ?r) (wakeup_fd (the_loop ?r)) = Some EPOLLIN" "0 < max_events (loop_epoller (the_loop ?r))"
        using li by (simp_all add: loop_inv_def wakeup_registered_def)
      have "reportable (loop_interest (the_loop ?r)) (wakeup_fd (the_loop ?r), EPOLLIN)"
        by (simp add: reportable_def wake(1))
      then have "loop_step pick (Poll (clock l) (Ready [(wakeup_fd (the_loop ?r), EPOLLIN)])) ?r \<noteq> None"
        using At_poll counter wake(2) by (simp add: loop_poll_def poll_allowed_def wakeup_reported_def readable_event_def)
      then show ?thesis
        by (intro exI [of _ "Poll (clock l) (Ready [(wakeup_fd (the_loop ?r), EPOLLIN)])"]) (simp add: calm_def readings_def del: loop_step.simps)
    qed
  next
    case (Dispatching evs)
    then show ?thesis by (intro exI [of _ Dispatch_next]) (simp add: calm_def readings_def no_io_def)
  next
    case (Reading evs)
    then show ?thesis by (intro exI [of _ "Read_eventfd False"]) (simp add: calm_def readings_def no_io_def)
  next
    case (Swapping evs)
    then show ?thesis by (intro exI [of _ Swap]) (simp add: calm_def readings_def no_io_def)
  next
    case (Running_tasks evs)
    then show ?thesis by (intro exI [of _ Next_task]) (simp add: calm_def readings_def no_io_def)
  next
    case At_timers
    then show ?thesis by (intro exI [of _ "Timers (clock l)"]) (simp add: calm_def readings_def)
  next
    case (Running_timers now)
    then show ?thesis by (intro exI [of _ Next_timer]) (simp add: calm_def readings_def no_io_def)
  next
    case (In_callback p)
    then show ?thesis using io_inv_place [OF inv] by simp
  qed (use runs in \<open>simp_all add: loop_ended_def\<close>)
qed

lemma pool_can_step:
  assumes inv: "threads_inv answers lat s" and total: "\<forall>q. \<exists>r cl. answers q (r, cl)"
    and busy: "\<not> quiescent (crew s)" "\<not> notifying_all (crew s)"
  shows "\<exists>ev. crew_event ev \<and> own_step s ev \<and> serving_step pick lat answers ev s \<noteq> None"
proof (cases "notifications (crew s) = 0")
  case False
  show ?thesis
  proof (cases "Asleep \<in> set (workers (crew s))")
    case True
    then obtain w where "w < length (workers (crew s))" "workers (crew s) ! w = Asleep" by (auto simp: in_set_conv_nth)
    with False show ?thesis by (intro exI [of _ "Notify_worker (Some w)"]) (simp add: notify_one_def)
  next
    case no_sleeper: False
    with False show ?thesis by (intro exI [of _ "Notify_worker None"]) (simp add: notify_one_def)
  qed
next
  case True
  with busy obtain w where w: "w < length (workers (crew s))" "workers (crew s) ! w \<noteq> Asleep" "workers (crew s) ! w \<noteq> worker.Returned"
    by (auto simp: quiescent_def in_set_conv_nth)
  show ?thesis
  proof (cases "workers (crew s) ! w")
    case At_lock
    with w show ?thesis by (intro exI [of _ "Run_worker w [] False False"]) (simp add: workerLoop_def)
  next
    case (Running t)
    obtain i k n q where t: "t = (i, k, n, q)" by (metis prod.exhaust)
    obtain r cl where "answers q (r, cl)" using total by blast
    with running_known [OF inv w(1), of i "(k, n, q)"] Running t w(1) show ?thesis
      by (intro exI [of _ "Run_worker w r cl False"]) (simp add: workerLoop_def Let_def)
  qed (use w in simp_all)
qed

lemma stuck_settled:
  assumes inv: "serving_inv answers lat s" and total: "\<forall>q. \<exists>r cl. answers q (r, cl)"
    and stuck: "\<forall>ev. left_alone pick lat answers ev s = None"
  shows "settled s"
proof -
  have no_step: "\<not> (own_step s ev \<and> serving_step pick lat answers ev s \<noteq> None)" for ev
    using stuck [rule_format, of ev] by (auto simp: left_alone_def)
  have "\<not> notifying_all (crew s)" using inv by (auto simp: serving_inv_parts pool_inv_def)
  with no_step have "quiescent (crew s)" using pool_can_step [OF serving_threads [OF inv] total] by blast
  moreover have "loop_at_rest (io_threads s ! i) \<or> loop_ended (io_threads s ! i)" if i: "i < length (io_threads s)" for i
  proof (rule ccontr)
    let ?l = "io_threads s ! i"
    assume "\<not> (loop_at_rest ?l \<or> loop_ended ?l)"
    moreover have "io_inv answers lat ?l" using inv i by (simp add: serving_inv_parts)
    ultimately obtain e where e: "calm ?l e" "loop_thread_event e" "loop_step pick e (io_run ?l) \<noteq> None"
      "readings e (no_io (clock ?l)) = (clock ?l, clock ?l)" using loop_can_step by blast
    then have "io_step pick lat answers (Loop_thread e (no_io (clock ?l))) ?l \<noteq> None"
      by (auto simp: Let_def split: option.split)
    from loop_step_submits [OF inv i this] no_step [of "Run_loop i e (no_io (clock ?l))"] e(1) show False by simp
  qed
  ultimately show ?thesis by (simp add: settled_def list_all_length)
qed

text \<open>C4: The server always comes to rest, and cannot do otherwise: for any number of loops and workers and
  after every run, left alone (no new client, no new report of epoll but of the wake-up descriptor, no request to
  quit, no interruption and no spurious wake-up; tasks return, time may pass and timers fire), its threads cannot
  step forever; where no thread can step, the workers sleep with no task and no notification left, and every loop
  blocks in \<open>epoll_wait\<close> with nothing to be woken for, or has ended; and such a state can be reached.\<close>

theorem server_settles:
  assumes "valid_top pick" and "EventLoopGroup m = Inr g0" and "start (map Some [0..<m]) g0 = (None, g)"
    and "WorkerPool w = Inr p" and "length ls = m" and "\<forall>l \<in> set ls. constructed_loop l"
    and "run_steps (serving_step pick lat answers) evs (serving_start g p ls t0) = Some s"
    and "\<forall>q. \<exists>r cl. answers q (r, cl)"
  shows "(\<nexists>f ev. f 0 = s \<and> (\<forall>n. left_alone pick lat answers (ev n) (f n) = Some (f (Suc n)))) \<and>
    (\<forall>es t. run_steps (left_alone pick lat answers) es s = Some t \<and> (\<forall>ev. left_alone pick lat answers ev t = None) \<longrightarrow> settled t) \<and>
    (\<exists>es t. run_steps (left_alone pick lat answers) es s = Some t \<and> settled t)"
proof -
  have inv: "valid_top pick \<and> serving_inv answers lat s"
    using serving.run_keeps [OF assms(7)] assms(1) serving_start_inv [OF assms(2-6)] by blast
  have ends: "settled t"
    if "run_steps (left_alone pick lat answers) es s = Some t" "\<forall>ev. left_alone pick lat answers ev t = None" for es t
    using stuck_settled [OF _ assms(8) that(2)] settling.run_keeps [OF that(1) inv] by blast
  moreover have "\<not> (f 0 = s \<and> (\<forall>n. left_alone pick lat answers (ev n) (f n) = Some (f (Suc n))))" for f ev
    using settling.no_infinite_run [of pick answers lat f ev] inv by blast
  moreover obtain es t where "run_steps (left_alone pick lat answers) es s = Some t" "\<forall>ev. left_alone pick lat answers ev t = None"
    using settling.run_ends [OF inv] by blast
  ultimately show ?thesis by blast
qed

end
