(* ===== verification/Teardown.thy ===== *)
theory Teardown
  imports Settling
begin

text \<open>
  The end of the server (\<open>serveWithEventLoop\<close> of \<open>src/main.cpp\<close> when the accept loop has returned). The local
  objects are destroyed in reverse order: first the pool (\<open>~WorkerPool\<close> of \<open>src/concurrency/WorkerPool.cpp\<close>:
  it stops, notifies all workers and joins them), then the group with its threads, one after the other
  (\<open>~EventLoopThread\<close> of \<open>src/net/EventLoopThread.cpp\<close>: it asks the loop to quit, if it has not ended, and
  joins the thread). Until its own turn each loop serves on. A request that reaches the pool meanwhile is
  refused by an exception, which leaves the loop's thread and so ends the process; one that reaches the pool
  after its destruction, which C++ leaves undefined, counts as such an end too.
\<close>

section \<open>Model\<close>

datatype phase = Stopping_pool | Joining "nat list" | Aborted

record teardown =
  remains :: serving
  phase :: phase

datatype teardown_event = Go_on serving_event | Notify_workers | Join_workers | Join_loop

text \<open>The critical section of \<open>~WorkerPool\<close>.\<close>

definition begin_teardown :: "serving \<Rightarrow> teardown option" where
  "begin_teardown s = map_option (\<lambda>p. \<lparr>remains = s\<lparr>crew := p\<rparr>, phase = Stopping_pool\<rparr>) (stop (crew s))"

text \<open>\<open>~EventLoopThread\<close> of the next thread, up to its join.\<close>

definition quit_thread :: "nat \<Rightarrow> serving \<Rightarrow> serving" where
  "quit_thread i s =
    (let l = io_threads s ! i
     in if place (io_run l) = Finished then s
        else s\<lparr>io_threads := (io_threads s)[i := l\<lparr>io_run := request_quit (io_run l)\<rparr>]\<rparr>)"

definition next_thread :: "nat list \<Rightarrow> teardown \<Rightarrow> teardown" where
  "next_thread js d =
    (case js of [] \<Rightarrow> d\<lparr>phase := Joining []\<rparr> | i # rest \<Rightarrow> d\<lparr>remains := quit_thread i (remains d), phase := Joining js\<rparr>)"

text \<open>A step of a loop's thread. An exception that leaves the loop ends the process.\<close>

definition raised :: "io_loop \<Rightarrow> bool" where
  "raised l = (case place (io_run l) of Raised e \<Rightarrow> True | _ \<Rightarrow> False)"

definition run_loop :: "nat \<Rightarrow> io_loop \<Rightarrow> teardown \<Rightarrow> teardown" where
  "run_loop i l d =
    (let s = remains d
     in case submit_jobs (map (Pair i) (drop (length (outstanding (io_threads s ! i))) (outstanding l))) (crew s) of
          Inl e \<Rightarrow> d\<lparr>phase := Aborted\<rparr>
        | Inr p \<Rightarrow>
            if raised l then d\<lparr>phase := Aborted\<rparr>
            else d\<lparr>remains := s\<lparr>crew := p, io_threads := (io_threads s)[i := l]\<rparr>\<rparr>)"

fun going_on ::
    "(io_client timer_queue \<Rightarrow> nat) \<Rightarrow> bool \<Rightarrow> (string \<Rightarrow> string \<times> bool \<Rightarrow> bool) \<Rightarrow> serving_event \<Rightarrow> teardown \<Rightarrow> teardown option" where
  "going_on pick lat answers (Run_loop i e env) d =
     (if length (io_threads (remains d)) \<le> i then None
      else map_option (\<lambda>l. run_loop i l d) (io_step pick lat answers (Loop_thread e env) (io_threads (remains d) ! i)))"
| "going_on pick lat answers (Accept_client n ok) d = None"
| "going_on pick lat answers ev d = map_option (\<lambda>s. d\<lparr>remains := s\<rparr>) (serving_step pick lat answers ev (remains d))"

text \<open>The standard does not say in which order a vector destroys its elements: \<open>ord\<close>. The join of a thread
  returns when its loop has ended and the call of \<open>quit\<close> has.\<close>

fun teardown_step ::
    "nat list \<Rightarrow> (io_client timer_queue \<Rightarrow> nat) \<Rightarrow> bool \<Rightarrow> (string \<Rightarrow> string \<times> bool \<Rightarrow> bool) \<Rightarrow> teardown_event \<Rightarrow> teardown \<Rightarrow> teardown option" where
  "teardown_step ord pick lat answers (Go_on ev) d =
     (if phase d = Aborted \<or> phase d = Joining [] then None else going_on pick lat answers ev d)"
| "teardown_step ord pick lat answers Notify_workers d =
     (if phase d = Stopping_pool then map_option (\<lambda>p. d\<lparr>remains := (remains d)\<lparr>crew := p\<rparr>\<rparr>) (notify_all (crew (remains d))) else None)"
| "teardown_step ord pick lat answers Join_workers d =
     (if phase d = Stopping_pool \<and> joined (crew (remains d)) then Some (next_thread ord d) else None)"
| "teardown_step ord pick lat answers Join_loop d =
     (case phase d of
        Joining (i # js) \<Rightarrow>
          (let r = io_run (io_threads (remains d) ! i)
           in if place r = Finished \<and> writers r = 0 then Some (next_thread js d) else None)
      | _ \<Rightarrow> None)"

section \<open>Invariant\<close>

definition quitting :: "io_loop \<Rightarrow> bool" where
  "quitting l \<longleftrightarrow> quit_flag (the_loop (io_run l)) \<or> place (io_run l) = Finished"

definition phase_ok :: "teardown \<Rightarrow> bool" where
  "phase_ok d \<longleftrightarrow>
    (case phase d of
       Joining js \<Rightarrow> joined (crew (remains d)) \<and> set js \<subseteq> {..<length (io_threads (remains d))} \<and>
         (js \<noteq> [] \<longrightarrow> quitting (io_threads (remains d) ! hd js)) \<and>
         (\<forall>i < length (io_threads (remains d)). i \<notin> set js \<longrightarrow> place (io_run (io_threads (remains d) ! i)) = Finished)
     | _ \<Rightarrow> True)"

definition teardown_inv :: "(string \<Rightarrow> string \<times> bool \<Rightarrow> bool) \<Rightarrow> bool \<Rightarrow> teardown \<Rightarrow> bool" where
  "teardown_inv answers lat d \<longleftrightarrow>
     threads_inv answers lat (remains d) \<and> stopping (crew (remains d)) \<and>
     (\<forall>l \<in> set (io_threads (remains d)). \<not> raised l) \<and> phase_ok d"

text \<open>A loop that has been asked to quit stays so, and an ended one stays ended.\<close>

lemma run_callback_quit: "quit_flag (the_loop (io_run (run_callback lat env cb s))) = quit_flag (the_loop (io_run s))"
proof -
  have calls: "make_calls cs l = (err, l') \<Longrightarrow> quit_flag l' = quit_flag l" for cs l err l'
  proof (induction cs arbitrary: l)
    case (Cons c cs)
    obtain e l1 where c: "loop_call c l = (e, l1)" by (rule prod.exhaust)
    from loop_call_frame(1) [OF c] Cons.IH [of l1] Cons.prems c show ?case by (cases e) auto
  qed simp
  have "quit_flag (the_loop (io_run (finish_callback k c res s))) = quit_flag (the_loop (io_run s))" for k c res s
    using calls
    by (auto simp: finish_callback_def raise_loop_def return_callback_def replay_def Let_def
        split: sum.split prod.split option.split place.split)
  then show ?thesis
    by (induction lat env cb s rule: run_callback.induct) (auto simp: callback_bodies Let_def raise_loop_def split: io_client.split)
qed

lemma loop_step_quit:
  assumes "loop_step pick e r = Some r'" and "loop_thread_event e" and "place r \<noteq> In_callback p"
  shows "quit_flag (the_loop r) \<Longrightarrow> quit_flag (the_loop r')" and "place r = Finished \<Longrightarrow> place r' = Finished"
  using assms
  by (cases e; auto simp: request_quit_def quit_def loop_check_def loop_poll_def loop_dispatch_def dispatch_def handleEvent_def
      invoke_def setReadCallback_def setErrorCallback_def handleWakeup_read_def wakeup_read_def handleWakeup_swap_def swap_tasks_def
      handleWakeup_task_def loop_timer_def Let_def
      split: if_splits place.splits sum.splits option.splits list.splits handler.splits)+

lemma io_step_quitting:
  assumes inv: "io_inv answers lat l" and step: "io_step pick lat answers (Loop_thread e env) l = Some l'"
  shows "quitting l \<Longrightarrow> quitting l'" and "place (io_run l) = Finished \<Longrightarrow> place (io_run l') = Finished"
proof -
  obtain r where e: "loop_thread_event e" and r: "loop_step pick e (io_run l) = Some r"
    and l': "l' = (case started_callback pick (io_run l) r of None \<Rightarrow> l\<lparr>io_run := r, clock := snd (readings e env)\<rparr>
       | Some cb \<Rightarrow> run_callback lat env cb (l\<lparr>io_run := r, clock := snd (readings e env)\<rparr>))"
    using step by (auto simp: Let_def split: if_splits option.splits)
  have no: "place (io_run l) \<noteq> In_callback p" for p using io_inv_place [OF inv] by auto
  note quit = loop_step_quit [OF r e no]
  have flag: "quit_flag (the_loop (io_run l')) = quit_flag (the_loop r)"
    by (simp add: l' run_callback_quit split: option.split)
  show ended: "place (io_run l') = Finished" if "place (io_run l) = Finished"
    using quit(2) [OF that] by (simp add: l' started_callback_def)
  show "quitting l'" if "quitting l"
    using that quit(1) flag ended by (auto simp: quitting_def)
qed

lemma completed_place:
  assumes "io_step pick lat answers (Completed job r cl gone) l = Some l'"
  shows "place (io_run l') = place (io_run l) \<and> quit_flag (the_loop (io_run l')) = quit_flag (the_loop (io_run l)) \<and>
    unread_bytes l' = unread_bytes l"
  using assms by (cases job) (auto simp: push_task_def queue_push_def unread_bytes_def Let_def split: if_splits)

lemma request_quit_inv:
  assumes inv: "io_inv answers lat l"
  shows "io_inv answers lat (l\<lparr>io_run := request_quit (io_run l)\<rparr>)"
proof -
  have "io_step first_top lat answers (Loop_thread Set_quit (no_io (clock l))) l = Some (l\<lparr>io_run := request_quit (io_run l)\<rparr>)"
    using io_inv_place [OF inv]
    by (auto simp: readings_def no_io_def started_callback_def request_quit_def split: option.split place.split)
  from io_step_inv [OF valid_first_top inv this] show ?thesis .
qed

lemma quit_thread_keeps:
  assumes inv: "threads_inv answers lat s" and i: "i < length (io_threads s)"
  shows "threads_inv answers lat (quit_thread i s)" and "crew (quit_thread i s) = crew s"
    and "length (io_threads (quit_thread i s)) = length (io_threads s)" and "quitting (io_threads (quit_thread i s) ! i)"
    and "place (io_run (io_threads (quit_thread i s) ! j)) = place (io_run (io_threads s ! j))"
    and "conns (io_threads (quit_thread i s) ! j) = conns (io_threads s ! j)"
    and "wakeup_fd (the_loop (io_run (io_threads (quit_thread i s) ! j))) = wakeup_fd (the_loop (io_run (io_threads s ! j)))"
proof -
  let ?l = "io_threads s ! i"
  have "io_inv answers lat (?l\<lparr>io_run := request_quit (io_run ?l)\<rparr>)"
    using request_quit_inv inv i by (simp add: threads_inv_def)
  then show "threads_inv answers lat (quit_thread i s)"
    using inv i by (auto simp: threads_inv_def quit_thread_def Let_def nth_list_update jobs_linked_def)
  show "crew (quit_thread i s) = crew s" "length (io_threads (quit_thread i s)) = length (io_threads s)"
    by (simp_all add: quit_thread_def Let_def)
  show "quitting (io_threads (quit_thread i s) ! i)"
    using i by (simp add: quit_thread_def Let_def quitting_def request_quit_def quit_def)
  show "place (io_run (io_threads (quit_thread i s) ! j)) = place (io_run (io_threads s ! j))"
    "conns (io_threads (quit_thread i s) ! j) = conns (io_threads s ! j)"
    "wakeup_fd (the_loop (io_run (io_threads (quit_thread i s) ! j))) = wakeup_fd (the_loop (io_run (io_threads s ! j)))"
    using i by (cases "j = i"; simp add: quit_thread_def Let_def request_quit_def quit_def)+
qed

lemma next_thread_inv:
  assumes inv: "threads_inv answers lat (remains d)" and pool: "joined (crew (remains d))"
    and alive: "\<forall>l \<in> set (io_threads (remains d)). \<not> raised l" and js: "set js \<subseteq> {..<length (io_threads (remains d))}"
    and ended: "\<forall>i < length (io_threads (remains d)). i \<notin> set js \<longrightarrow> place (io_run (io_threads (remains d) ! i)) = Finished"
  shows "teardown_inv answers lat (next_thread js d) \<and> length (io_threads (remains (next_thread js d))) = length (io_threads (remains d))"
proof (cases js)
  case Nil
  with assms show ?thesis by (simp add: next_thread_def teardown_inv_def phase_ok_def joined_def)
next
  case (Cons i rest)
  then have i: "i < length (io_threads (remains d))" using js by simp
  note keeps = quit_thread_keeps [OF inv i]
  have "\<not> raised (io_threads (quit_thread i (remains d)) ! j)" if "j < length (io_threads (remains d))" for j
    using alive that by (simp add: raised_def keeps(5))
  then have "\<forall>l \<in> set (io_threads (quit_thread i (remains d))). \<not> raised l" by (auto simp: in_set_conv_nth keeps(3))
  moreover have "stopping (crew (remains d))" using pool by (simp add: joined_def)
  moreover have "phase_ok (next_thread js d)"
    using pool js ended keeps by (simp add: phase_ok_def next_thread_def Cons)
  ultimately show ?thesis using keeps by (simp add: next_thread_def Cons teardown_inv_def)
qed

lemma submit_refused: "stopping p \<Longrightarrow> submit_jobs ts p = Inr p' \<Longrightarrow> ts = [] \<and> p' = p"
  by (cases ts) (auto simp: submit_def)

text \<open>A step of a loop.\<close>

lemma run_loop_inv:
  assumes top: "valid_top pick" and inv: "teardown_inv answers lat d" and i: "i < length (io_threads (remains d))"
    and l: "io_step pick lat answers (Loop_thread e env) (io_threads (remains d) ! i) = Some l"
  shows "teardown_inv answers lat (run_loop i l d) \<and> length (io_threads (remains (run_loop i l d))) = length (io_threads (remains d))"
proof -
  let ?s = "remains d" and ?js = "map (Pair i) (drop (length (outstanding (io_threads (remains d) ! i))) (outstanding l))"
  have aborted: "teardown_inv answers lat (d\<lparr>phase := Aborted\<rparr>)" using inv by (simp add: teardown_inv_def phase_ok_def)
  show ?thesis
  proof (cases "submit_jobs ?js (crew ?s)")
    case (Inl e)
    with aborted show ?thesis by (simp add: run_loop_def Let_def)
  next
    case (Inr p)
    have threads: "threads_inv answers lat ?s" and stop: "stopping (crew ?s)" using inv by (simp_all add: teardown_inv_def)
    have p: "p = crew ?s" using submit_refused [OF stop Inr] by blast
    have inv_i: "io_inv answers lat (io_threads ?s ! i)" using threads i by (simp add: threads_inv_def)
    note quits = io_step_quitting [OF inv_i l]
    show ?thesis
    proof (cases "raised l")
      case True
      with Inr aborted show ?thesis by (simp add: run_loop_def Let_def)
    next
      case False
      have "phase_ok (d\<lparr>remains := ?s\<lparr>crew := p, io_threads := (io_threads ?s)[i := l]\<rparr>\<rparr>)"
        using inv quits i unfolding teardown_inv_def phase_ok_def
        by (auto simp: p nth_list_update split: phase.splits)
      moreover have "\<forall>l' \<in> set ((io_threads ?s)[i := l]). \<not> raised l'"
        using inv False set_update_subset_insert [of "io_threads ?s" i l] by (auto simp: teardown_inv_def)
      ultimately show ?thesis
        using loop_step_keeps [OF top threads i l Inr] inv False by (simp add: run_loop_def Let_def Inr teardown_inv_def)
    qed
  qed
qed

text \<open>A step of the pool leaves the loops in their places, and changes nothing but notifications once the workers
  have returned.\<close>

lemma crew_step_places:
  assumes inv: "threads_inv answers lat s" and step: "serving_step pick lat answers ev s = Some s'" and ev: "crew_event ev"
  shows "j < length (io_threads s) \<Longrightarrow> place (io_run (io_threads s' ! j)) = place (io_run (io_threads s ! j)) \<and>
      unread_bytes (io_threads s' ! j) = unread_bytes (io_threads s ! j) \<and> stray (io_threads s' ! j) = stray (io_threads s ! j)"
    and "joined (crew s) \<Longrightarrow> joined (crew s') \<and> io_threads s' = io_threads s"
proof -
  have returned: "workers (crew s) ! i = worker.Returned" if "joined (crew s)" "i < length (workers (crew s))" for i
    using that by (simp add: joined_def)
  have "(j < length (io_threads s) \<longrightarrow> place (io_run (io_threads s' ! j)) = place (io_run (io_threads s ! j)) \<and>
      unread_bytes (io_threads s' ! j) = unread_bytes (io_threads s ! j) \<and> stray (io_threads s' ! j) = stray (io_threads s ! j)) \<and>
    (joined (crew s) \<longrightarrow> joined (crew s') \<and> io_threads s' = io_threads s)"
  proof (cases ev)
    case (Run_worker w r cl gone)
    then have w: "w < length (workers (crew s))" using step by (auto split: if_splits)
    have busy: "\<not> joined (crew s)"
    proof
      assume "joined (crew s)"
      then have "workers (crew s) ! w = worker.Returned" using w by (simp add: joined_def)
      with step Run_worker w show False by (simp add: workerLoop_def)
    qed
    show ?thesis
    proof (cases "\<exists>i job. workers (crew s) ! w = Running (i, job)")
      case True
      then obtain i job where run: "workers (crew s) ! w = Running (i, job)" by blast
      then obtain l p where l: "io_step pick lat answers (Completed job r cl gone) (io_threads s ! i) = Some l"
        and s': "s' = s\<lparr>crew := p, io_threads := (io_threads s)[i := l]\<rparr>"
        using step w Run_worker by (auto simp del: io_step.simps split: option.splits)
      with completed_place [OF l] completed_work [OF l] busy show ?thesis by (cases "j = i") simp_all
    next
      case False
      then obtain p where "s' = s\<lparr>crew := p\<rparr>" using step w Run_worker by (auto split: worker.splits)
      with busy show ?thesis by simp
    qed
  next
    case (Notify_worker chosen)
    have "\<not> (joined (crew s) \<and> i < length (workers (crew s)) \<and> workers (crew s) ! i = Asleep)" for i using returned [of i] by auto
    then show ?thesis using step Notify_worker by (auto simp: notify_one_def split: if_splits option.splits) (simp_all add: joined_def)
  next
    case (Wake_worker w)
    with step returned [of w] show ?thesis by (auto simp: spurious_wakeup_def split: if_splits)
  qed (use ev in simp_all)
  then show "j < length (io_threads s) \<Longrightarrow> place (io_run (io_threads s' ! j)) = place (io_run (io_threads s ! j)) \<and>
      unread_bytes (io_threads s' ! j) = unread_bytes (io_threads s ! j) \<and> stray (io_threads s' ! j) = stray (io_threads s ! j)"
    and "joined (crew s) \<Longrightarrow> joined (crew s') \<and> io_threads s' = io_threads s" by blast+
qed

lemma crew_step_teardown:
  assumes top: "valid_top pick" and inv: "teardown_inv answers lat d" and step: "serving_step pick lat answers ev (remains d) = Some s"
    and ev: "crew_event ev"
  shows "teardown_inv answers lat (d\<lparr>remains := s\<rparr>) \<and> length (io_threads s) = length (io_threads (remains d))"
proof -
  have threads: "threads_inv answers lat (remains d)" using inv by (simp add: teardown_inv_def)
  note keeps = crew_step_keeps [OF top threads step ev] and same = crew_step_places [OF threads step ev]
  have "\<not> raised (io_threads s ! j)" if "j < length (io_threads (remains d))" for j
    using inv same(1) [OF that] that by (simp add: teardown_inv_def raised_def)
  then have "\<forall>l \<in> set (io_threads s). \<not> raised l" using keeps by (auto simp: in_set_conv_nth)
  moreover have "phase_ok (d\<lparr>remains := s\<rparr>)"
    using inv same(2) by (auto simp: teardown_inv_def phase_ok_def split: phase.split)
  ultimately show ?thesis using inv keeps by (simp add: teardown_inv_def)
qed

lemma notified_keeps:
  assumes "threads_inv answers lat s" and p: "notify_all (crew s) = Some p"
  shows "threads_inv answers lat (s\<lparr>crew := p\<rparr>) \<and> stopping p = stopping (crew s)"
proof -
  have "in_pool p = in_pool (crew s)" "workers p = map wake (workers (crew s))" "stopping p = stopping (crew s)"
    using p by (auto simp: notify_all_def in_pool_def running_def comp_def split: if_splits)
  with assms pool_inv_notify_all [OF _ p] show ?thesis by (simp add: threads_inv_def jobs_linked_def)
qed

lemma teardown_step_inv:
  assumes top: "valid_top pick" and inv: "teardown_inv answers lat d" and ord: "set ord = {..<length (io_threads (remains d))}"
    and step: "teardown_step ord pick lat answers ev d = Some d'"
  shows "teardown_inv answers lat d' \<and> length (io_threads (remains d')) = length (io_threads (remains d))"
proof (cases ev)
  case (Go_on e)
  then have go: "going_on pick lat answers e d = Some d'" using step by (auto split: if_splits)
  show ?thesis
  proof (cases e)
    case (Run_loop i le env)
    then obtain l where "i < length (io_threads (remains d))" "io_step pick lat answers (Loop_thread le env) (io_threads (remains d) ! i) = Some l"
      "d' = run_loop i l d" using go by (auto simp del: io_step.simps split: if_splits)
    with run_loop_inv [OF top inv] show ?thesis by simp
  next
    case (Accept_client n ok)
    with go show ?thesis by simp
  qed (use go crew_step_teardown [OF top inv, of e] in \<open>auto simp del: serving_step.simps\<close>)
next
  case Notify_workers
  then obtain p where "phase d = Stopping_pool" and p: "notify_all (crew (remains d)) = Some p"
    and d': "d' = d\<lparr>remains := (remains d)\<lparr>crew := p\<rparr>\<rparr>" using step by (auto split: if_splits)
  with notified_keeps [of answers lat, OF _ p] inv show ?thesis by (simp add: teardown_inv_def phase_ok_def)
next
  case Join_workers
  then have "joined (crew (remains d))" "d' = next_thread ord d" using step by (auto split: if_splits)
  with next_thread_inv [of answers lat d ord] inv ord show ?thesis by (simp add: teardown_inv_def)
next
  case Join_loop
  then obtain i js where ph: "phase d = Joining (i # js)" and fin: "place (io_run (io_threads (remains d) ! i)) = Finished"
    and d': "d' = next_thread js d" using step by (auto simp: Let_def split: phase.splits list.splits if_splits)
  have "phase_ok d" using inv by (simp add: teardown_inv_def)
  then have "joined (crew (remains d))" "set js \<subseteq> {..<length (io_threads (remains d))}"
    "\<forall>k < length (io_threads (remains d)). k \<notin> set js \<longrightarrow> place (io_run (io_threads (remains d) ! k)) = Finished"
    using fin by (auto simp: phase_ok_def ph)
  with next_thread_inv [of answers lat d js] inv show ?thesis by (simp add: d' teardown_inv_def)
qed

interpretation teardown: machine "teardown_step ord pick lat answers"
  "\<lambda>d. valid_top pick \<and> teardown_inv answers lat d \<and> set ord = {..<length (io_threads (remains d))}"
proof
  fix d e d'
  assume "valid_top pick \<and> teardown_inv answers lat d \<and> set ord = {..<length (io_threads (remains d))}"
    and "teardown_step ord pick lat answers e d = Some d'"
  then show "valid_top pick \<and> teardown_inv answers lat d' \<and> set ord = {..<length (io_threads (remains d'))}"
    using teardown_step_inv [of pick answers lat d ord e d'] by simp
qed

section \<open>The teardown ends\<close>

text \<open>Steps that need nothing from outside, as in \<open>Settling\<close>.\<close>

fun own_teardown :: "teardown \<Rightarrow> teardown_event \<Rightarrow> bool" where
  "own_teardown d (Go_on ev) = own_step (remains d) ev"
| "own_teardown d ev = True"

definition ending ::
    "nat list \<Rightarrow> (io_client timer_queue \<Rightarrow> nat) \<Rightarrow> bool \<Rightarrow> (string \<Rightarrow> string \<times> bool \<Rightarrow> bool) \<Rightarrow> teardown_event \<Rightarrow> teardown \<Rightarrow> teardown option" where
  "ending ord pick lat answers ev d = (if own_teardown d ev then teardown_step ord pick lat answers ev d else None)"

definition phases_left :: "nat list \<Rightarrow> teardown \<Rightarrow> nat" where
  "phases_left ord d = (case phase d of Stopping_pool \<Rightarrow> length ord + 2 | Joining js \<Rightarrow> length js + 1 | Aborted \<Rightarrow> 0)"

definition teardown_order :: "nat list \<Rightarrow> (teardown \<times> teardown) set" where
  "teardown_order ord = inv_image (less_than <*lex*> less_than <*lex*> rest_order)
     (\<lambda>d. (phases_left ord d, if notifying_all (crew (remains d)) then 1 else 0, remains d))"

lemma phases_left_next: "phases_left ord (next_thread js d) = length js + 1"
  by (cases js) (simp_all add: phases_left_def next_thread_def)

lemma run_loop_descends:
  assumes top: "valid_top pick" and inv: "teardown_inv answers lat d" and i: "i < length (io_threads (remains d))"
    and calm: "calm (io_threads (remains d) ! i) e" and going: "phase d \<noteq> Aborted"
    and l: "io_step pick lat answers (Loop_thread e env) (io_threads (remains d) ! i) = Some l"
  shows "(run_loop i l d, d) \<in> teardown_order ord"
proof -
  have threads: "threads_inv answers lat (remains d)" and stop: "stopping (crew (remains d))"
    using inv by (simp_all add: teardown_inv_def)
  have aborted: "(d\<lparr>phase := Aborted\<rparr>, d) \<in> teardown_order ord"
    using going by (cases "phase d") (simp_all add: teardown_order_def phases_left_def)
  show ?thesis
  proof (cases "submit_jobs (map (Pair i) (drop (length (outstanding (io_threads (remains d) ! i))) (outstanding l))) (crew (remains d))")
    case (Inl x)
    with aborted show ?thesis by (simp add: run_loop_def Let_def)
  next
    case (Inr p)
    with submit_refused [OF stop Inr] loop_step_descends [OF top threads i calm l Inr] aborted show ?thesis
      by (simp add: run_loop_def Let_def Inr teardown_order_def phases_left_def)
  qed
qed

lemma ending_descends:
  assumes top: "valid_top pick" and inv: "teardown_inv answers lat d" and step: "ending ord pick lat answers ev d = Some d'"
  shows "(d', d) \<in> teardown_order ord"
proof -
  have own: "own_teardown d ev" and step: "teardown_step ord pick lat answers ev d = Some d'"
    using step by (auto simp: ending_def split: if_splits)
  have threads: "threads_inv answers lat (remains d)" using inv by (simp add: teardown_inv_def)
  show ?thesis
  proof (cases ev)
    case (Go_on e)
    then have go: "going_on pick lat answers e d = Some d'" and going: "phase d \<noteq> Aborted" using step by (auto split: if_splits)
    have crew: "(d\<lparr>remains := s\<rparr>, d) \<in> teardown_order ord"
      if "serving_step pick lat answers e (remains d) = Some s" "crew_event e" for s
      using crew_step_descends [OF threads that] own Go_on by (simp add: teardown_order_def phases_left_def)
    show ?thesis
    proof (cases e)
      case (Run_loop i le env)
      then obtain l where "i < length (io_threads (remains d))" "io_step pick lat answers (Loop_thread le env) (io_threads (remains d) ! i) = Some l"
        "d' = run_loop i l d" using go by (auto simp del: io_step.simps split: if_splits)
      with run_loop_descends [OF top inv _ _ going] own Go_on Run_loop show ?thesis by simp
    next
      case (Accept_client n ok)
      with go show ?thesis by simp
    qed (use go crew in \<open>auto simp del: serving_step.simps\<close>)
  next
    case Notify_workers
    with step show ?thesis by (auto simp: notify_all_def teardown_order_def phases_left_def split: if_splits)
  next
    case Join_workers
    then have "phase d = Stopping_pool" "d' = next_thread ord d" using step by (auto split: if_splits)
    then show ?thesis using phases_left_next [of ord ord d] by (simp add: teardown_order_def) (simp add: phases_left_def)
  next
    case Join_loop
    then obtain i js where "phase d = Joining (i # js)" "d' = next_thread js d"
      using step by (auto simp: Let_def split: phase.splits list.splits if_splits)
    then show ?thesis using phases_left_next [of ord js d] by (simp add: teardown_order_def) (simp add: phases_left_def)
  qed
qed

interpretation ending: settling_machine "ending ord pick lat answers"
  "\<lambda>d. valid_top pick \<and> teardown_inv answers lat d \<and> set ord = {..<length (io_threads (remains d))}" "teardown_order ord"
proof
  show "wf (teardown_order ord)" by (simp add: teardown_order_def rest_order_def wf_lex_prod)
next
  fix s e s'
  assume "valid_top pick \<and> teardown_inv answers lat s \<and> set ord = {..<length (io_threads (remains s))}"
    and "ending ord pick lat answers e s = Some s'"
  then show "valid_top pick \<and> teardown_inv answers lat s' \<and> set ord = {..<length (io_threads (remains s'))}"
    and "(s', s) \<in> teardown_order ord"
    using teardown_step_inv [of pick answers lat s ord e s'] ending_descends [of pick answers lat s ord e s']
    by (auto simp: ending_def simp del: teardown_step.simps split: if_splits)
qed

lemma begin_teardown_inv:
  assumes inv: "serving_inv answers lat s" and alive: "\<forall>l \<in> set (io_threads s). \<not> raised l" and d: "begin_teardown s = Some d"
  shows "teardown_inv answers lat d" and "io_threads (remains d) = io_threads s" and "phase d = Stopping_pool"
    and "submitted_tasks (crew (remains d)) = submitted_tasks (crew s)"
proof -
  obtain p where p: "stop (crew s) = Some p" and d': "d = \<lparr>remains = s\<lparr>crew := p\<rparr>, phase = Stopping_pool\<rparr>"
    using d by (auto simp: begin_teardown_def)
  have same: "in_pool p = in_pool (crew s)" "workers p = workers (crew s)" "stopping p" "submitted_tasks p = submitted_tasks (crew s)"
    using p by (auto simp: stop_def in_pool_def running_def split: if_splits)
  have "pool_inv p" using pool_inv_stop [OF _ p] inv by (simp add: serving_inv_parts)
  with inv same alive show "teardown_inv answers lat d"
    by (simp add: d' teardown_inv_def threads_inv_def serving_inv_parts jobs_linked_def phase_ok_def)
  show "io_threads (remains d) = io_threads s" "phase d = Stopping_pool"
    "submitted_tasks (crew (remains d)) = submitted_tasks (crew s)" by (simp_all add: d' same)
qed

lemma next_thread_crew: "crew (remains (next_thread js d)) = crew (remains d)"
  by (simp add: next_thread_def quit_thread_def Let_def split: list.split)

lemma teardown_submitted:
  assumes inv: "teardown_inv answers lat d" and step: "teardown_step ord pick lat answers ev d = Some d'"
  shows "submitted_tasks (crew (remains d')) = submitted_tasks (crew (remains d))"
proof (cases ev)
  case (Go_on e)
  then have go: "going_on pick lat answers e d = Some d'" using step by (auto split: if_splits)
  have crew: "submitted_tasks (crew s) = submitted_tasks (crew (remains d))"
    if "serving_step pick lat answers e (remains d) = Some s" "crew_event e" for s
    using that by (cases e) (auto simp: workerLoop_def worker_lock_def notify_one_def spurious_wakeup_def
        simp del: io_step.simps split: if_splits worker.splits option.splits prod.splits)
  show ?thesis
  proof (cases e)
    case (Run_loop i le env)
    then obtain l where d': "d' = run_loop i l d" using go by (auto simp del: io_step.simps split: if_splits)
    have "stopping (crew (remains d))" using inv by (simp add: teardown_inv_def)
    then show ?thesis using submit_refused by (auto simp: d' run_loop_def Let_def split: sum.split)
  next
    case (Accept_client n ok)
    with go show ?thesis by simp
  qed (use go crew in \<open>auto simp del: serving_step.simps\<close>)
qed (use step next_thread_crew in \<open>auto simp: notify_all_def Let_def split: if_splits phase.splits list.splits\<close>)

lemma ending_stuck:
  assumes inv: "teardown_inv answers lat d" and total: "\<forall>q. \<exists>r cl. answers q (r, cl)"
    and stuck: "\<forall>ev. ending ord pick lat answers ev d = None"
  shows "phase d = Joining [] \<or> phase d = Aborted"
proof (rule ccontr)
  assume "\<not> (phase d = Joining [] \<or> phase d = Aborted)"
  then have going: "phase d \<noteq> Aborted" "phase d \<noteq> Joining []" by simp_all
  have threads: "threads_inv answers lat (remains d)" and stop: "stopping (crew (remains d))" using inv by (simp_all add: teardown_inv_def)
  have no: "teardown_step ord pick lat answers ev d = None" if "own_teardown d ev" for ev
    using stuck [rule_format, of ev] that by (simp add: ending_def)
  show False
  proof (cases "phase d")
    case Stopping_pool
    have notified: "\<not> notifying_all (crew (remains d))" using no [of Notify_workers] Stopping_pool by (auto simp: notify_all_def split: if_splits)
    have "quiescent (crew (remains d))"
    proof (rule ccontr)
      assume "\<not> quiescent (crew (remains d))"
      from pool_can_step [OF threads total this notified, of pick] obtain e where
        "crew_event e" "own_step (remains d) e" "serving_step pick lat answers e (remains d) \<noteq> None" by blast
      then have "going_on pick lat answers e d \<noteq> None" by (cases e) (simp_all del: serving_step.simps)
      with no [of "Go_on e"] going \<open>own_step _ e\<close> show False by simp
    qed
    with quiescent_done [of "crew (remains d)"] threads stop have "joined (crew (remains d))" by (simp add: threads_inv_def)
    with no [of Join_workers] Stopping_pool show False by simp
  next
    case (Joining js)
    then obtain i rest where js: "js = i # rest" using going(2) by (cases js) auto
    let ?l = "io_threads (remains d) ! i"
    have "phase_ok d" using inv by (simp add: teardown_inv_def)
    then have i: "i < length (io_threads (remains d))" and quit: "quitting ?l" by (auto simp: phase_ok_def Joining js)
    have inv_i: "io_inv answers lat ?l" using threads i by (simp add: threads_inv_def)
    have stays: "io_step pick lat answers (Loop_thread e env) ?l = None" if "calm ?l e" for e env
      using no [of "Go_on (Run_loop i e env)"] that i going by (simp del: io_step.simps)
    have no_writers: "writers (io_run ?l) = 0"
      using stays [of "Write_eventfd False" "no_io (clock ?l)"]
      by (auto simp: calm_def readings_def no_io_def Let_def split: option.splits if_splits)
    show False
    proof (cases "place (io_run ?l) = Finished")
      case True
      with no [of Join_loop] no_writers show False by (simp add: Joining js Let_def)
    next
      case False
      have "\<not> raised ?l" using inv i by (simp add: teardown_inv_def)
      with False have "\<not> loop_ended ?l" by (auto simp: loop_ended_def raised_def split: place.splits)
      moreover have "quit_flag (the_loop (io_run ?l))" using quit False by (simp add: quitting_def)
      then have "\<not> loop_at_rest ?l" using io_inv_loop [OF inv_i] by (auto simp: loop_at_rest_def loop_inv_def)
      ultimately obtain e where e: "calm ?l e" "loop_thread_event e" "loop_step pick e (io_run ?l) \<noteq> None"
        "readings e (no_io (clock ?l)) = (clock ?l, clock ?l)" using loop_can_step [OF inv_i] by blast
      then have "io_step pick lat answers (Loop_thread e (no_io (clock ?l))) ?l \<noteq> None"
        by (auto simp: Let_def split: option.split)
      then show False using stays [OF e(1)] by contradiction
    qed
  qed (use going in simp)
qed

text \<open>C5: The teardown of the server ends, and loses no request that the pool has taken: from any state of the
  server that has not failed, in any order of the threads and any interleaving of the destructors with what still
  happens, the pool is joined only after every task ever submitted to it has run; when the teardown is over, every
  loop has ended; left alone it cannot go on forever; and it is stuck only when it is over, or when the process
  has been ended by an exception in a loop.\<close>

theorem teardown_ends:
  assumes "valid_top pick" and "EventLoopGroup m = Inr g0" and "start (map Some [0..<m]) g0 = (None, g)"
    and "WorkerPool w = Inr p" and "length ls = m" and "\<forall>l \<in> set ls. constructed_loop l"
    and "run_steps (serving_step pick lat answers) evs (serving_start g p ls t0) = Some s"
    and "\<forall>l \<in> set (io_threads s). \<not> raised l" and "set ord = {..<length (io_threads s)}"
    and "begin_teardown s = Some d0" and "run_steps (teardown_step ord pick lat answers) es d0 = Some d"
    and "\<forall>q. \<exists>r cl. answers q (r, cl)"
  shows "(\<forall>js. phase d = Joining js \<longrightarrow> joined (crew (remains d)) \<and>
      mset (map fst (ended_tasks (crew (remains d)))) = mset (submitted_tasks (crew s))) \<and>
    (phase d = Joining [] \<longrightarrow> (\<forall>l \<in> set (io_threads (remains d)). place (io_run l) = Finished)) \<and>
    (\<nexists>f ev. f 0 = d \<and> (\<forall>n. ending ord pick lat answers (ev n) (f n) = Some (f (Suc n)))) \<and>
    ((\<forall>ev. ending ord pick lat answers ev d = None) \<longrightarrow> phase d = Joining [] \<or> phase d = Aborted)"
proof -
  have serving: "serving_inv answers lat s"
    using serving.run_keeps [OF assms(7)] assms(1) serving_start_inv [OF assms(2-6)] by blast
  note begun = begin_teardown_inv [OF serving assms(8,10)]
  have inv0: "valid_top pick \<and> teardown_inv answers lat d0 \<and> set ord = {..<length (io_threads (remains d0))}"
    using begun assms(1,9) by simp
  have inv: "valid_top pick \<and> teardown_inv answers lat d \<and> set ord = {..<length (io_threads (remains d))}"
    by (rule teardown.run_keeps [OF assms(11) inv0])
  have "submitted_tasks (crew (remains d)) = submitted_tasks (crew (remains d0))"
    by (rule teardown.run_relates [OF assms(11) inv0, where R = "\<lambda>d d'. submitted_tasks (crew (remains d')) = submitted_tasks (crew (remains d))"])
      (use teardown_submitted in auto)
  then have submitted: "submitted_tasks (crew (remains d)) = submitted_tasks (crew s)" using begun(4) by simp
  have "joined (crew (remains d)) \<and> mset (map fst (ended_tasks (crew (remains d)))) = mset (submitted_tasks (crew s))"
    if "phase d = Joining js" for js
  proof -
    have joined: "joined (crew (remains d))" using inv that by (simp add: teardown_inv_def phase_ok_def)
    have pool: "pool_inv (crew (remains d))" "workers (crew (remains d)) \<noteq> []"
      using inv by (simp_all add: teardown_inv_def threads_inv_def)
    have "running (crew (remains d)) = {#}" using joined at_lock_zero [of "crew (remains d)"] by (simp add: joined_def)
    moreover have "worker.Returned \<in> set (workers (crew (remains d)))"
      using joined pool(2) by (cases "workers (crew (remains d))") (auto simp: joined_def)
    ultimately show ?thesis using joined pool(1) submitted by (simp add: pool_inv_def)
  qed
  moreover have "place (io_run l) = Finished" if "phase d = Joining []" "l \<in> set (io_threads (remains d))" for l
    using inv that by (auto simp: teardown_inv_def phase_ok_def in_set_conv_nth)
  moreover have "\<not> (f 0 = d \<and> (\<forall>n. ending ord pick lat answers (ev n) (f n) = Some (f (Suc n))))" for f ev
    using ending.no_infinite_run [of pick answers lat f ord ev] inv by auto
  moreover have "phase d = Joining [] \<or> phase d = Aborted" if "\<forall>ev. ending ord pick lat answers ev d = None"
    using ending_stuck [OF _ assms(12) that] inv by blast
  ultimately show ?thesis by blast
qed

section \<open>Teardown between requests\<close>

text \<open>With no report to dispatch and no unread input, a loop left alone submits nothing and raises nothing.\<close>

definition between_requests :: "io_loop \<Rightarrow> bool" where
  "between_requests l \<longleftrightarrow> stray l = 0 \<and> unread_bytes l = 0"

lemma make_calls_error: "make_calls cs l = (Some e, l') \<Longrightarrow> e \<noteq> Epoller_raised Epoll_wait_failed"
proof (induction cs arbitrary: l)
  case (Cons c cs)
  obtain err l1 where c: "loop_call c l = (err, l1)" by (rule prod.exhaust)
  then have "err \<noteq> Some (Epoller_raised Epoll_wait_failed)" by (cases c) (auto simp: loop_defs split: if_splits)
  with Cons c show ?case by (cases err) auto
qed simp

lemma callback_error:
  assumes "place (io_run s) = In_callback p" and "\<nexists>e. p = Raised e"
  shows "place (io_run (run_callback lat env cb s)) \<noteq> Raised (Epoller_raised Epoll_wait_failed)"
proof -
  have calls: "make_calls cs l \<noteq> (Some (Epoller_raised Epoll_wait_failed), l')" for cs l and l' :: "io_client event_loop"
    using make_calls_error by blast
  have finish: "place (io_run (finish_callback k c res u)) \<noteq> Raised (Epoller_raised Epoll_wait_failed)"
    if "place (io_run u) = In_callback p" for k c res u
    using that assms(2) calls
    by (auto simp: finish_callback_def raise_loop_def return_callback_def replay_def Let_def split: sum.split prod.split option.split)
  show ?thesis
    using assms(1)
    by (induction lat env cb s rule: run_callback.induct)
      (auto simp: callback_bodies Let_def raise_loop_def finish split: io_client.split)
qed

lemma calm_not_raised:
  assumes top: "valid_top pick" and inv: "io_inv answers lat l" and calm: "calm l e" and alive: "\<not> raised l"
    and step: "io_step pick lat answers (Loop_thread e env) l = Some l'"
  shows "\<not> raised l'"
proof
  obtain r where e: "loop_thread_event e" and r: "loop_step pick e (io_run l) = Some r"
    and l': "l' = (case started_callback pick (io_run l) r of None \<Rightarrow> l\<lparr>io_run := r, clock := snd (readings e env)\<rparr>
       | Some cb \<Rightarrow> run_callback lat env cb (l\<lparr>io_run := r, clock := snd (readings e env)\<rparr>))"
    using step by (auto simp: Let_def split: if_splits option.splits)
  assume "raised l'"
  then obtain x where x: "place (io_run l') = Raised x" by (auto simp: raised_def split: place.splits)
  have wait_failed: "x = Epoller_raised Epoll_wait_failed" using io_inv_place [OF io_step_inv [OF top inv step]] x by simp
  have no: "place (io_run l) \<noteq> In_callback p" "place (io_run l) \<noteq> Raised y" for p y
    using io_inv_place [OF inv] alive by (auto simp: raised_def)
  show False
  proof (cases "started_callback pick (io_run l) r")
    case None
    then have "place r = Raised x" using x l' by simp
    then show False using r e calm no
      by (cases e) (auto simp: calm_def request_quit_def loop_check_def loop_poll_def wait_def loop_dispatch_def dispatch_def handleEvent_def
          invoke_def setReadCallback_def setErrorCallback_def handleWakeup_read_def handleWakeup_swap_def swap_tasks_def
          handleWakeup_task_def loop_timer_def Let_def split: if_splits place.splits option.splits list.splits handler.splits)
  next
    case (Some cb)
    then obtain p where p: "place r = In_callback p" using callback_starts [OF inv r e] by auto
    have "place_ok (place r)" using loop_step_inv [OF io_inv_loop [OF inv] r] unfolding loop_inv_def by blast
    then have "\<nexists>e. p = Raised e" using p by auto
    with callback_error [of "l\<lparr>io_run := r, clock := snd (readings e env)\<rparr>" p lat env cb] p x l' Some wait_failed show False by simp
  qed
qed

lemma calm_between_requests:
  assumes "valid_top pick" and "io_inv answers lat l" and "calm l e" and "between_requests l"
    and "io_step pick lat answers (Loop_thread e env) l = Some l'"
  shows "between_requests l' \<and> drop (length (outstanding l)) (outstanding l') = []"
  using loop_advances [OF assms(1-3,5)] assms(4) by (auto simp: advances_def between_requests_def)

definition undisturbed :: "teardown \<Rightarrow> bool" where
  "undisturbed d \<longleftrightarrow> phase d \<noteq> Aborted \<and> (\<forall>l \<in> set (io_threads (remains d)). between_requests l)"

lemma next_thread_undisturbed:
  assumes "threads_inv answers lat (remains d)" and "undisturbed d" and js: "set js \<subseteq> {..<length (io_threads (remains d))}"
  shows "undisturbed (next_thread js d)"
proof (cases js)
  case (Cons i rest)
  then have i: "i < length (io_threads (remains d))" using js by simp
  note keeps = quit_thread_keeps [OF assms(1) i]
  have "between_requests (io_threads (quit_thread i (remains d)) ! j)" if "j < length (io_threads (remains d))" for j
  proof -
    have "between_requests (io_threads (remains d) ! j)" using assms(2) that by (simp add: undisturbed_def)
    then show ?thesis by (simp add: between_requests_def stray_def unread_bytes_def keeps(5-7))
  qed
  then show ?thesis by (auto simp: undisturbed_def next_thread_def Cons in_set_conv_nth keeps(3))
qed (use assms(2) in \<open>simp add: undisturbed_def next_thread_def\<close>)

lemma ending_undisturbed:
  assumes top: "valid_top pick" and inv: "teardown_inv answers lat d" and ord: "set ord = {..<length (io_threads (remains d))}"
    and quiet: "undisturbed d" and step: "ending ord pick lat answers ev d = Some d'"
  shows "undisturbed d'"
proof -
  have own: "own_teardown d ev" and step: "teardown_step ord pick lat answers ev d = Some d'"
    using step by (auto simp: ending_def split: if_splits)
  have threads: "threads_inv answers lat (remains d)" and alive: "\<forall>l \<in> set (io_threads (remains d)). \<not> raised l"
    using inv by (simp_all add: teardown_inv_def)
  show ?thesis
  proof (cases ev)
    case (Go_on e)
    then have go: "going_on pick lat answers e d = Some d'" using step by (auto split: if_splits)
    have crew: "undisturbed (d\<lparr>remains := s\<rparr>)" if s: "serving_step pick lat answers e (remains d) = Some s" "crew_event e" for s
    proof -
      have "between_requests (io_threads s ! j)" if "j < length (io_threads (remains d))" for j
        using quiet crew_step_places(1) [OF threads s that] that by (simp add: undisturbed_def between_requests_def)
      with crew_step_keeps [OF top threads s] quiet show ?thesis by (auto simp: undisturbed_def in_set_conv_nth)
    qed
    show ?thesis
    proof (cases e)
      case (Run_loop i le env)
      then obtain l where i: "i < length (io_threads (remains d))" and l: "io_step pick lat answers (Loop_thread le env) (io_threads (remains d) ! i) = Some l"
        and d': "d' = run_loop i l d" using go by (auto simp del: io_step.simps split: if_splits)
      have inv_i: "io_inv answers lat (io_threads (remains d) ! i)" using threads i by (simp add: threads_inv_def)
      have calm: "calm (io_threads (remains d) ! i) le" using own Go_on Run_loop by simp
      have "\<not> raised l" using calm_not_raised [OF top inv_i calm _ l] alive i by simp
      moreover have "between_requests l \<and> drop (length (outstanding (io_threads (remains d) ! i))) (outstanding l) = []"
        using calm_between_requests [OF top inv_i calm _ l] quiet i by (simp add: undisturbed_def)
      ultimately show ?thesis
        using quiet set_update_subset_insert [of "io_threads (remains d)" i l] by (auto simp: d' run_loop_def Let_def undisturbed_def)
    next
      case (Accept_client n ok)
      with go show ?thesis by simp
    qed (use go crew in \<open>auto simp del: serving_step.simps\<close>)
  next
    case Notify_workers
    with step quiet show ?thesis by (auto simp: undisturbed_def split: if_splits)
  next
    case Join_workers
    with step next_thread_undisturbed [OF threads quiet] ord show ?thesis by (auto split: if_splits)
  next
    case Join_loop
    then obtain i js where "phase d = Joining (i # js)" and d': "d' = next_thread js d"
      using step by (auto simp: Let_def split: phase.splits list.splits if_splits)
    then have "set js \<subseteq> {..<length (io_threads (remains d))}" using inv by (auto simp: teardown_inv_def phase_ok_def)
    with next_thread_undisturbed [OF threads quiet] show ?thesis by (simp add: d')
  qed
qed

interpretation undisturbed: machine "ending ord pick lat answers"
  "\<lambda>d. valid_top pick \<and> teardown_inv answers lat d \<and> set ord = {..<length (io_threads (remains d))} \<and> undisturbed d"
proof
  fix d e d'
  assume "valid_top pick \<and> teardown_inv answers lat d \<and> set ord = {..<length (io_threads (remains d))} \<and> undisturbed d"
    and "ending ord pick lat answers e d = Some d'"
  then show "valid_top pick \<and> teardown_inv answers lat d' \<and> set ord = {..<length (io_threads (remains d'))} \<and> undisturbed d'"
    using ending.keeps [of pick answers lat d ord e d'] ending_undisturbed [of pick answers lat d ord e d'] by simp
qed

text \<open>C13: Between requests the teardown of a server that is left alone completes: if no report is waiting to
  be dispatched and every byte received has been used (tasks may run and results may be under way), then in
  every run of the server's own steps (\<open>ending\<close>: polls report only the wake-up descriptor and no client, no
  connection arrives, no signal interrupts a call) the teardown is never ended by an exception, and it can
  always be run to its end, where all workers and loops have ended. With new input meanwhile it may be
  aborted (lemma \<open>request_aborts_teardown\<close>).\<close>

theorem idle_teardown_completes:
  assumes "valid_top pick" and "EventLoopGroup m = Inr g0" and "start (map Some [0..<m]) g0 = (None, g)"
    and "WorkerPool w = Inr p" and "length ls = m" and "\<forall>l \<in> set ls. constructed_loop l"
    and "run_steps (serving_step pick lat answers) evs (serving_start g p ls t0) = Some s"
    and "\<forall>l \<in> set (io_threads s). \<not> raised l \<and> between_requests l" and "set ord = {..<length (io_threads s)}"
    and "begin_teardown s = Some d0" and "\<forall>q. \<exists>r cl. answers q (r, cl)"
    and "run_steps (ending ord pick lat answers) es d0 = Some d"
  shows "phase d \<noteq> Aborted \<and>
    (\<exists>fs t. run_steps (ending ord pick lat answers) fs d = Some t \<and> phase t = Joining [] \<and> joined (crew (remains t)) \<and>
      (\<forall>l \<in> set (io_threads (remains t)). place (io_run l) = Finished))"
proof -
  have serving: "serving_inv answers lat s"
    using serving.run_keeps [OF assms(7)] assms(1) serving_start_inv [OF assms(2-6)] by blast
  have alive: "\<forall>l \<in> set (io_threads s). \<not> raised l" using assms(8) by blast
  note begun = begin_teardown_inv [OF serving alive assms(10)]
  define good where "good d \<longleftrightarrow> valid_top pick \<and> teardown_inv answers lat d \<and> set ord = {..<length (io_threads (remains d))} \<and> undisturbed d" for d
  have good0: "good d0" using begun assms(1,8,9) by (simp add: good_def undisturbed_def)
  note keeps = undisturbed.run_keeps [of ord pick lat answers, folded good_def]
  have d: "good d" by (rule keeps [OF assms(12) good0])
  obtain fs t where t: "run_steps (ending ord pick lat answers) fs d = Some t" "\<forall>e. ending ord pick lat answers e t = None"
    using ending.run_ends [of pick answers lat d ord] d unfolding good_def by blast
  have gt: "good t" by (rule keeps [OF t(1) d])
  then have "phase t = Joining []" using ending_stuck [OF _ assms(11) t(2)] by (auto simp: good_def undisturbed_def)
  moreover from this have "joined (crew (remains t)) \<and> (\<forall>l \<in> set (io_threads (remains t)). place (io_run l) = Finished)"
    using gt by (auto simp: good_def teardown_inv_def phase_ok_def in_set_conv_nth)
  ultimately show ?thesis using t(1) d unfolding good_def undisturbed_def by blast
qed

end
