(* ===== verification/Spec2Isabelle.thy ===== *)
theory Spec2Isabelle
  imports Teardown
begin

text \<open>
  \<^bold>\<open>CppSearchServer: a verification development.\<close>

  \<^bold>\<open>The program.\<close> A search server over a directory of documents. At the start the documents are loaded and
  cut into chunks, which an inverted index and a ranking service make searchable. Clients speak HTTP; an
  accept loop hands their connections, in turn, to a group of event loops, each on its thread. A connection
  cuts requests from its input and submits each to a pool of workers; the worker's task parses the
  request, runs the search through a two-level cache (in the thread and in Redis) and gives the response to
  the connection's loop as a queued task, which sends it. One idle timer per connection closes it.

  \<^bold>\<open>The theories\<close>, each opening with the files under src/ that it models. A definition has the name of its
  function; members of a class take the object as their last argument and return it changed.

  \<^enum> \<open>Prelude\<close> (characters of the "C" locale, searching, maps as association lists, decimal numbers) and
    \<open>Machine\<close> (concurrent components as partial step functions; locales for invariants and for weights).
  \<^enum> Documents and search, \<open>src/search\<close>: \<open>Tokenizer\<close>, \<open>MarkdownChunker\<close>, \<open>DocumentLoader\<close>,
    \<open>InvertedIndex\<close> (locale of a posting store), \<open>SearchService\<close> (scores, \<open>ranksHigher\<close>, top results),
    \<open>LruCache\<close> (locale of a value cache), \<open>RedisClient\<close>, \<open>SearchCache\<close> (locale of a thread's cache),
    \<open>SearchApplication\<close> (JSON output and the handler of a request).
  \<^enum> HTTP, \<open>src/http\<close>: \<open>HttpRequest\<close>, \<open>HttpResponse\<close>.
  \<^enum> Network, \<open>src/net\<close>: \<open>Buffer\<close>, \<open>Channel\<close>, \<open>TimerQueue\<close>, \<open>Epoller\<close>, \<open>Socket\<close>, \<open>EventLoop\<close> (the
    operations), \<open>EventLoopRun\<close> (\<open>loop\<close> and its callers as a machine), \<open>EventLoopLiveness\<close>,
    \<open>EventLoopThread\<close>, \<open>EventLoopGroup\<close>, \<open>TcpConnection\<close> (the handlers of a connection), \<open>TcpStreams\<close> (its
    byte streams and its closing), \<open>TcpIdle\<close> (its timer), \<open>TcpPrimitives\<close> (locales that lift a relation from
    the primitive changes of a connection to its handlers), \<open>LoopConnection\<close> (a connection on a loop).
  \<^enum> \<open>src/concurrency\<close> and \<open>src/observability\<close>: \<open>WorkerPool\<close>, \<open>RequestLatency\<close>.
  \<^enum> Compositions: \<open>Main_Program\<close> (\<open>src/main.cpp\<close>: arguments, the task of a request, accepting, the
    construction and end of the server, the older blocking server), \<open>ServerPipeline\<close> (one connection with
    its requests in the pool and its results in the queue), \<open>IoLoop\<close> and \<open>IoLoopRun\<close> (one event loop with all
    its connections), \<open>Serving\<close> (all loops, the accept callback and the pool), \<open>Settling\<close> (the server comes
    to rest), \<open>Teardown\<close> (its end) and this theory (from the client's bytes to the replies that it reads).

  \<^bold>\<open>State.\<close> A class is a record of its members; a log or history is added where a property speaks of the past
  (\<open>tcp_log\<close>, \<open>pushed\<close>, \<open>submitted_tasks\<close>). A function that may throw returns a sum or a pair of the exception
  and the state it leaves. Integers have the width of the code where they can wrap (identifiers of requests,
  counters, generations, event masks, the eventfd) and are int or nat elsewhere. Concurrency is
  interleaving: a step is a critical section, an atomic access, a notification or a system call, and a run is
  a list of events, so that theorems hold for every schedule and a schedule can be evaluated.

  \<^bold>\<open>What the lemmas show.\<close> Each component has its invariant and the functional behaviour of its operations;
  an optimised form is compared with a reference (posting lists with a scan, the LRU cache with a list,
  tokens with maximal runs, the two cache levels with no cache at all); printers and parsers are inverse; and
  for the concurrent components nothing is lost, done twice or waited for in vain. The compositions lift
  this. The state machine of a connection is verified for events that may happen to it, \<open>LoopConnection\<close> shows
  that its calls do on the loop what it believes, and \<open>IoLoopRun\<close> closes the circle: each event that the loop
  dispatches may happen to the connection that it reaches, because of what epoll promises and of how
  descriptor numbers, timers and tasks move. So every connection of a loop is a run of \<open>ServerPipeline\<close>.
  \<open>Serving\<close> identifies the outstanding jobs of the loops with the tasks of the pool; when the pool and the
  loops are at rest (which \<open>WorkerPool\<close> and \<open>EventLoopRun\<close> show to be without work), every request has been
  answered, and the client reads one reply for each, in order. \<open>Settling\<close> shows that this state is always
  reached: left alone, the server neither is stuck before it nor works forever. \<open>Teardown\<close> shows the same for its
  destruction, which ends the process instead if a request reaches the pool meanwhile or a loop fails.

  \<^bold>\<open>Grain.\<close> In \<open>EventLoopRun\<close> a callback is open while other threads step; in \<open>IoLoop\<close> its body is one step with
  the step of the loop that starts it, because other threads only append to the queue, set the quit flag and
  write the eventfd, which commute with it. A submission becomes a task of the pool in the same step.

  \<^bold>\<open>Termination and bounds.\<close> No definition uses fuel. Loops over input are structural or have a measure; the
  loop over expired timers, whose callbacks may add timers, is a \<open>partial_function\<close> with a theorem that it
  returns if the callbacks can make only boundedly many further timers due (locale \<open>timer_callbacks\<close>, which
  \<open>TcpIdle\<close> interprets for the idle checks: at most one each); the machine of a stopping pool has a weight that bounds its runs, and \<open>Settling\<close> and \<open>Teardown\<close> have
  orders that the steps of the server, left alone, descend.

  \<^bold>\<open>Redis.\<close> The calls to hiredis and the reads of what it returned are logged as effects. \<open>RedisClient\<close> runs a
  monitor of ownership over them, and in \<open>SearchCache\<close> the log of all threads is the history of the shared
  store: the contract \<open>redis_serves\<close> says that a lookup is answered only with what a \<open>SET\<close> in that history
  stored, and \<open>cache_is_invisible\<close> proves, from empty caches and an empty store on, that the program stores only
  right values and so gets only right ones. The end-to-end theorem of one request starts in any state and
  takes the right contents of caches and store as hypotheses (\<open>cache_sound\<close>, \<open>redis_sound\<close>), which are the
  invariants of that proof.

  \<^bold>\<open>Parameters.\<close> Code outside src/ and what the standard leaves open is an argument: the replies of hiredis;
  arithmetic on double (\<open>fp_ops\<close>, with the order as its only assumption) and its printing; the iteration
  order of unordered containers; which of several equal deadlines comes first (\<open>pick\<close>); the results of
  accept, recv, send, epoll_ctl and the other system calls, restricted by their manuals; clock readings; the
  file system; \<open>std::atoi\<close> on a number that does not fit.

  \<^bold>\<open>Not modelled.\<close> Weak memory order: accesses are interleaved as if sequentially consistent, also the
  relaxed ones of \<open>RequestLatency\<close>. Signals: a send to a peer that has reset its connection is an error
  here, whereas the program does not ignore SIGPIPE. Exhausted memory (\<open>bad_alloc\<close>). Failures of a read or
  write of a valid eventfd other than EINTR and EAGAIN. Text printed to the standard streams. The Redis keys
  hold no version of the documents, so a store that another server with other documents, or an earlier run,
  has filled breaks the contract above (lemma \<open>foreign_value_served\<close>). The headers of a request are kept in the
  order of their lines, which is one possible iteration order of the unordered map; lookups depend on that
  order only if names differ in case alone (lemma \<open>findHeader_order\<close>). Failures to create the loop inside
  \<open>threadMain\<close> or a thread of the pool. What a thread does after its loop has ended is in \<open>EventLoopThread\<close> and
  \<open>EventLoop\<close> (\<open>destroy_loop\<close>), not in \<open>Teardown\<close>. Refusals of \<open>epoll_ctl\<close> are modelled in \<open>Epoller\<close> and
  \<open>EventLoop\<close>, but not in the compositions. Headers of the standard library, the tests, the scripts and the
  documentation.
\<close>

section \<open>The server and its clients\<close>

text \<open>What a worker may answer to a request: the result of the task, with any contents of the caches and
  counters and any behaviour of Redis and the clock.\<close>

definition handler_answers ::
    "('s :: linorder) fp_ops \<Rightarrow> (string list \<Rightarrow> string list) \<Rightarrow> search_application \<Rightarrow> string \<Rightarrow> string \<times> bool \<Rightarrow> bool" where
  "handler_answers fp order app q a \<longleftrightarrow>
     (\<exists>env latency t1 t2 timing w. let r = fst (snd (request_task fp order app env latency t1 t2 q timing w))
        in a = (result_response r, result_close r))"

text \<open>A client that reads a number of responses, one after the other.\<close>

fun read_replies :: "nat \<Rightarrow> string \<Rightarrow> (reply list \<times> string) option" where
  "read_replies 0 bytes = Some ([], bytes)"
| "read_replies (Suc k) bytes =
     (case read_response bytes of
        None \<Rightarrow> None
      | Some r \<Rightarrow> map_option (\<lambda>(rs, rest). (r # rs, rest)) (read_replies k (reply_rest r)))"

lemma handler_answers_framed:
  assumes "handler_answers fp order app q (r, cl)"
  shows "\<exists>status. framed r rest status cl"
proof -
  obtain env latency t1 t2 timing w where a:
    "(r, cl) = (let r = fst (snd (request_task fp order app env latency t1 t2 q timing w)) in (result_response r, result_close r))"
    using assms unfolding handler_answers_def by (auto simp: Let_def)
  obtain timing' res w' where "request_task fp order app env latency t1 t2 q timing w = (timing', res, w')" by (rule prod_cases3)
  from request_task_framed [OF this, of rest] a this show ?thesis by simp
qed

lemma read_replies_framed:
  "\<forall>r \<in> set resps. \<forall>rest. \<exists>status cl. framed r rest status cl \<Longrightarrow>
    \<exists>rs. read_replies (length resps) (concat resps @ rest) = Some (rs, rest) \<and> length rs = length resps"
proof (induction resps)
  case (Cons r resps)
  then obtain status cl where "framed r (concat resps @ rest) status cl" by fastforce
  then obtain reply where reply: "read_response (r @ concat resps @ rest) = Some reply" "reply_rest reply = concat resps @ rest"
    unfolding framed_def by blast
  obtain rs where "read_replies (length resps) (concat resps @ rest) = Some (rs, rest)" "length rs = length resps"
    using Cons by auto
  with reply show ?case by simp
qed simp

lemma answers_read:
  assumes answered: "list_all2 (\<lambda>q r. \<exists>cl. handler_answers fp order app q (r, cl)) reqs resps"
  shows "\<exists>replies. read_replies (length reqs) (concat resps) = Some (replies, []) \<and> length replies = length reqs"
proof -
  have "\<forall>r \<in> set resps. \<forall>rest. \<exists>status cl. framed r rest status cl"
  proof (intro ballI allI)
    fix r rest
    assume "r \<in> set resps"
    then obtain k where "k < length resps" "r = resps ! k" by (auto simp: in_set_conv_nth)
    then obtain cl where "handler_answers fp order app (reqs ! k) (r, cl)"
      using list_all2_nthD2 [OF answered, of k] by blast
    from handler_answers_framed [OF this, of rest] show "\<exists>status cl. framed r rest status cl" by blast
  qed
  from read_replies_framed [OF this, of "[]"] list_all2_lengthD [OF answered] show ?thesis by auto
qed

text \<open>A client of one connection gets one well-formed reply for each of its requests: for a connection served by the
  application on the worker pool, in every interleaving, once nothing is in flight and no output waits, the
  bytes sent so far are read, with nothing left over, as exactly as many replies as there were complete
  requests in the bytes received; and each of the responses, in order, is the result of the task run on
  its request.\<close>

theorem client_gets_one_reply_per_request:
  assumes "0 \<le> n"
    and "run_steps (system_step (handler_answers fp order app)) evs (system_start n t0 idle lat) = Some s"
    and "0 \<le> fd (conn s)" and "jobs s = []" and "results s = []" and "peek (output_buffer (conn s)) = []"
  shows "\<exists>reqs resps replies. received_bytes (tcp_log (conn s)) = concat reqs @ peek (input_buffer (conn s)) \<and>
    list_all one_request reqs \<and> \<not> hasCompleteRequest (conn s) \<and>
    sent_bytes (tcp_log (conn s)) = concat resps \<and>
    list_all2 (\<lambda>q r. \<exists>cl. handler_answers fp order app q (r, cl)) reqs resps \<and>
    read_replies (length reqs) (sent_bytes (tcp_log (conn s))) = Some (replies, [])"
proof -
  have inv: "system_inv (handler_answers fp order app) s"
    by (rule pipeline.run_keeps [OF assms(2) system_start_inv [OF assms(1)]])
  from pipeline_streams [OF this] obtain reqs resps where
    1: "received_bytes (tcp_log (conn s)) = concat reqs @ peek (input_buffer (conn s))" "list_all one_request reqs"
    and 2: "sent_bytes (tcp_log (conn s)) @ peek (output_buffer (conn s)) = concat resps"
    "list_all2 (\<lambda>q r. \<exists>cl. handler_answers fp order app q (r, cl)) (take (length resps) reqs) resps"
    and 3: "length resps = length reqs" "\<not> hasCompleteRequest (conn s)"
    using assms(3-6) by blast
  have "list_all2 (\<lambda>q r. \<exists>cl. handler_answers fp order app q (r, cl)) reqs resps" using 2(2) 3(1) by simp
  with answers_read [OF this] 1 2 3 assms(6) show ?thesis by auto
qed

text \<open>C1: The server answers every request of every client. For any number of loops and workers, any
  clients and any interleaving of the accept loop, the loops, the workers and the network, take any connection
  on any loop: the bytes received from it are complete requests followed by what is still in its input
  buffer; the bytes sent to it and those waiting in its output buffer are the results of the task run on
  the first of these requests, one for each, in order, and at most one request is unanswered. And the server
  never stalls: once nothing moves by itself any more (the workers sleep, the loops block, no notification or
  wake-up is under way), every complete request of an open connection has been answered, and if the client has
  taken the output, it reads it as exactly one well-formed reply for each request, with nothing left over.\<close>

theorem every_client_is_answered:
  assumes "valid_top pick" and "EventLoopGroup m = Inr g0" and "start (map Some [0..<m]) g0 = (None, g)"
    and "WorkerPool w = Inr p" and "length ls = m" and "\<forall>l \<in> set ls. constructed_loop l"
    and "run_steps (serving_step pick lat (handler_answers fp order app)) evs (serving_start g p ls t0) = Some s"
    and "i < length (io_threads s)" and "k < length (conns (io_threads s ! i))" and "c = conns (io_threads s ! i) ! k"
  shows "\<exists>reqs resps. received_bytes (tcp_log c) = concat reqs @ peek (input_buffer c) \<and> list_all one_request reqs \<and>
    sent_bytes (tcp_log c) @ peek (output_buffer c) = concat resps \<and>
    list_all2 (\<lambda>q r. \<exists>cl. handler_answers fp order app q (r, cl)) (take (length resps) reqs) resps \<and>
    length reqs \<le> Suc (length resps) \<and>
    (at_rest s \<and> 0 \<le> fd c \<longrightarrow> length resps = length reqs \<and>
      (peek (output_buffer c) = [] \<longrightarrow> \<not> hasCompleteRequest c \<and>
        (\<exists>replies. read_replies (length reqs) (sent_bytes (tcp_log c)) = Some (replies, []) \<and> length replies = length reqs)))"
proof -
  have "serving_inv (handler_answers fp order app) lat s"
    using serving.run_keeps [OF assms(7)] assms(1) serving_start_inv [OF assms(2-6)] by blast
  from at_rest_pipeline [OF this assms(8,9)] obtain sys where inv: "system_inv (handler_answers fp order app) sys"
    and c: "conn sys = c" and idle: "at_rest s \<and> registered (conn sys) \<longrightarrow> jobs sys = [] \<and> results sys = []"
    unfolding assms(10) by blast
  have "registered c" if "0 \<le> fd c" using inv that by (auto simp: system_inv_def c conn_ctl_def conn_base_def)
  with idle c have idle: "at_rest s \<and> 0 \<le> fd c \<longrightarrow> jobs sys = [] \<and> results sys = []" by blast
  from pipeline_streams [OF inv, unfolded c] obtain reqs resps where
    1: "received_bytes (tcp_log c) = concat reqs @ peek (input_buffer c)" "list_all one_request reqs"
    and 2: "sent_bytes (tcp_log c) @ peek (output_buffer c) = concat resps"
    "list_all2 (\<lambda>q r. \<exists>cl. handler_answers fp order app q (r, cl)) (take (length resps) reqs) resps" "length reqs \<le> Suc (length resps)"
    and 3: "0 \<le> fd c \<and> jobs sys = [] \<and> results sys = [] \<longrightarrow> length resps = length reqs \<and>
      (peek (output_buffer c) = [] \<longrightarrow> \<not> hasCompleteRequest c)" by blast
  have "\<exists>replies. read_replies (length reqs) (sent_bytes (tcp_log c)) = Some (replies, []) \<and> length replies = length reqs"
    if "length resps = length reqs" "peek (output_buffer c) = []"
    using answers_read [of fp order app reqs resps] 2(1,2) that by simp
  with 1 2 3 idle show ?thesis by (intro exI [of _ reqs] exI [of _ resps]) blast
qed

section \<open>A concrete conversation\<close>

text \<open>Two pipelined requests, the second in two pieces; the first result is sent in two pieces.\<close>

definition hello_request :: string where
  "hello_request = ''GET / HTTP/1.1'' @ blank_line"

definition hello_reply :: string where
  "hello_reply = okText (''Hello CppSearchServer'' @ [newline_char]) False"

definition hello_events :: "system_event list" where
  "hello_events =
    [Io (Dispatch 1 [Recv_data (hello_request @ take 7 hello_request), Recv_again] [] 10 10),
     Work 0 hello_reply False, Deliver [Send_bytes 30, Send_again] 20,
     Io (Dispatch 5 [Recv_data (drop 7 hello_request), Recv_again] [Send_bytes 1000] 30 30),
     Work 0 hello_reply False, Deliver [Send_bytes 1000] 40]"

definition hello_end :: system where
  "hello_end = the (run_steps (system_step (\<lambda>q a. q = hello_request \<and> a = (hello_reply, False))) hello_events
     (system_start 7 0 60 True))"

lemma hello_answered: "handler_answers int_ops remdups sample_app hello_request (hello_reply, False)"
proof -
  have parse: "parseRequest hello_request = Some \<lparr>request_method = ''GET'', request_path = ''/'', query_params = [], headers = []\<rparr>"
    by code_simp
  have "shouldCloseConnection \<lparr>request_method = ''GET'', request_path = ''/'', query_params = [], headers = []\<rparr> = False"
    by code_simp
  then show ?thesis
    unfolding handler_answers_def by (simp add: request_task_def parse handleRequest_def hello_reply_def Let_def)
qed

text \<open>A run with fewer allowed answers is a run with more.\<close>

lemma run_steps_mono:
  assumes "\<And>e s s'. step e s = Some s' \<Longrightarrow> step' e s = Some s'"
  shows "run_steps step es s = Some t \<Longrightarrow> run_steps step' es s = Some t"
proof (induction es arbitrary: s)
  case (Cons e es)
  then obtain u where u: "step e s = Some u" "run_steps step es u = Some t" by (auto split: option.splits)
  with Cons.IH [OF u(2)] assms [OF u(1)] show ?case by simp
qed simp

lemma system_step_mono:
  assumes "\<forall>q a. A q a \<longrightarrow> B q a" and "system_step A ev s = Some u"
  shows "system_step B ev s = Some u"
  using assms by (cases ev) (auto split: if_splits)

lemma io_step_mono:
  assumes "\<forall>q a. A q a \<longrightarrow> B q a" and "io_step pick lat A ev s = Some u"
  shows "io_step pick lat B ev s = Some u"
proof (cases ev)
  case (Completed job r cl gone)
  then show ?thesis using assms by (cases job) (auto split: if_splits)
qed (use assms in auto)

lemma serving_step_mono:
  assumes "\<forall>q a. A q a \<longrightarrow> B q a" and "serving_step pick lat A ev s = Some u"
  shows "serving_step pick lat B ev s = Some u"
proof (cases ev)
  case (Run_loop i e env)
  then show ?thesis using assms(2) io_step_mono [OF assms(1), of pick lat "Loop_thread e env" "io_threads s ! i"]
    by (auto simp del: io_step.simps split: if_splits option.splits sum.splits)
next
  case (Run_worker v r cl gone)
  then show ?thesis
    using assms(2) io_step_mono [OF assms(1)]
    by (fastforce simp del: io_step.simps split: if_splits option.splits worker.splits prod.splits)
qed (use assms in auto)

lemma hello_run:
  assumes "answers hello_request (hello_reply, False)"
  shows "run_steps (system_step answers) hello_events (system_start 7 0 60 True) = Some hello_end"
proof (rule run_steps_mono)
  show "system_step answers e s = Some s'" if "system_step (\<lambda>q a. q = hello_request \<and> a = (hello_reply, False)) e s = Some s'" for e s s'
    by (rule system_step_mono [OF _ that]) (use assms in simp)
  show "run_steps (system_step (\<lambda>q a. q = hello_request \<and> a = (hello_reply, False))) hello_events
      (system_start 7 0 60 True) = Some hello_end"
    unfolding hello_end_def by (rule some_the) code_simp
qed

lemma requests_answered_in_order_witness:
  "\<exists>resps. sent_bytes (tcp_log (conn hello_end)) @ peek (output_buffer (conn hello_end)) = concat resps"
  using requests_answered_in_order [OF _ hello_run [of "handler_answers int_ops remdups sample_app", OF hello_answered]] by force

lemma client_gets_one_reply_per_request_witness:
  "\<exists>k replies. read_replies k (sent_bytes (tcp_log (conn hello_end))) = Some (replies, [])"
proof -
  have "0 \<le> fd (conn hello_end)" "jobs hello_end = []" "results hello_end = []" "peek (output_buffer (conn hello_end)) = []"
    by code_simp+
  with client_gets_one_reply_per_request [OF _ hello_run [of "handler_answers int_ops remdups sample_app", OF hello_answered]] show ?thesis by force
qed

section \<open>A concrete server\<close>

text \<open>One loop, one worker and one client: the connection is accepted, its request received, answered by the
  worker and sent, until nothing moves.\<close>

definition demo_io_loop :: "io_client event_loop" where
  "demo_io_loop = snd (EventLoop (projr (Epoller 3 16)) False 4)"

definition at_time :: "recv_result list \<Rightarrow> send_result list \<Rightarrow> time_point \<Rightarrow> io_env" where
  "at_time rs ss t = \<lparr>env_recvs = rs, env_sends = ss, env_read = t, env_write = t\<rparr>"

definition take_tasks :: "send_result list \<Rightarrow> time_point \<Rightarrow> serving_event list" where
  "take_tasks ss t = map (\<lambda>e. Run_loop 0 e (at_time [] ss t))
     [Write_eventfd False, Poll t (Ready [(4, 1)]), Dispatch_next, Read_eventfd False, Swap, Next_task, Next_task]"

definition to_next_poll :: "time_point \<Rightarrow> serving_event list" where
  "to_next_poll t = map (\<lambda>e. Run_loop 0 e (at_time [] [] t)) [Dispatch_next, Timers t, Next_timer, Check]"

definition demo_serving_events :: "serving_event list" where
  "demo_serving_events =
    [Run_worker 0 [] False False, Run_loop 0 Start (at_time [] [] 1), Run_loop 0 Check (at_time [] [] 1), Accept_client 7 True]
    @ take_tasks [] 2 @ to_next_poll 3
    @ [Run_loop 0 (Poll 4 (Ready [(7, 1)])) (at_time [] [] 4),
       Run_loop 0 Dispatch_next (at_time [Recv_data hello_request] [] 5),
       Notify_worker (Some 0), Run_worker 0 [] False False, Run_worker 0 hello_reply False False, Run_worker 0 [] False False]
    @ to_next_poll 6 @ take_tasks [Send_bytes 1000] 7 @ to_next_poll 8"

definition demo_group :: "nat loop_group" where
  "demo_group = snd (start (map Some [0..<1]) (projr (EventLoopGroup 1)))"

definition demo_serving_start :: serving where
  "demo_serving_start = serving_start demo_group (projr (WorkerPool 1)) [demo_io_loop] 0"

definition demo_serving :: serving where
  "demo_serving = the (run_steps (serving_step first_top True (\<lambda>q a. q = hello_request \<and> a = (hello_reply, False)))
     demo_serving_events demo_serving_start)"

lemma demo_serving_runs:
  "\<not> Option.is_none (run_steps (serving_step first_top True (\<lambda>q a. q = hello_request \<and> a = (hello_reply, False)))
     demo_serving_events demo_serving_start)"
  by code_simp

lemma demo_serving_run:
  assumes "answers hello_request (hello_reply, False)"
  shows "run_steps (serving_step first_top True answers) demo_serving_events
    (serving_start demo_group (projr (WorkerPool 1)) [demo_io_loop] 0) = Some demo_serving"
proof (rule run_steps_mono)
  show "serving_step first_top True answers e s = Some s'"
    if "serving_step first_top True (\<lambda>q a. q = hello_request \<and> a = (hello_reply, False)) e s = Some s'" for e s s'
    by (rule serving_step_mono [OF _ that]) (use assms in simp)
  show "run_steps (serving_step first_top True (\<lambda>q a. q = hello_request \<and> a = (hello_reply, False))) demo_serving_events
      (serving_start demo_group (projr (WorkerPool 1)) [demo_io_loop] 0) = Some demo_serving"
    using some_the [OF demo_serving_runs] unfolding demo_serving_def demo_serving_start_def .
qed

lemma demo_io_loop_made:
  "Epoller 3 16 = Inr (projr (Epoller 3 16))" "EventLoop (projr (Epoller 3 16)) False 4 = (None, demo_io_loop)"
  by (simp_all add: demo_io_loop_def Epoller_def EventLoop_def loop_defs)

lemma demo_server_made:
  "EventLoopGroup 1 = Inr (projr (EventLoopGroup 1) :: nat loop_group)" 
  "start (map Some [0..<1]) (projr (EventLoopGroup 1)) = (None, demo_group)"
  "WorkerPool 1 = Inr (projr (WorkerPool 1) :: (nat \<times> job) pool)" "length [demo_io_loop] = 1"
  "\<forall>l \<in> set [demo_io_loop]. constructed_loop l"
proof -
  show "EventLoopGroup 1 = Inr (projr (EventLoopGroup 1) :: nat loop_group)" by (simp add: EventLoopGroup_def)
  show "WorkerPool 1 = Inr (projr (WorkerPool 1) :: (nat \<times> job) pool)" by (simp add: WorkerPool_def)
  have "fst (start (map Some [0..<1]) (projr (EventLoopGroup 1))) = None"
    by (simp add: EventLoopGroup_def start_def start_claim_def EventLoopThread_def)
  then show "start (map Some [0..<1]) (projr (EventLoopGroup 1)) = (None, demo_group)"
    unfolding demo_group_def by (rule prod_eqI [of _ "(None, _)", unfolded fst_conv snd_conv]) simp
  show "\<forall>l \<in> set [demo_io_loop]. constructed_loop l"
    using demo_io_loop_made unfolding constructed_loop_def by (metis empty_iff empty_set set_ConsD)
qed simp

lemma demo_serving_facts:
  "at_rest demo_serving" "length (io_threads demo_serving) = 1" "length (conns (io_threads demo_serving ! 0)) = 1"
  "0 \<le> fd (conns (io_threads demo_serving ! 0) ! 0)" "peek (output_buffer (conns (io_threads demo_serving ! 0) ! 0)) = []"
  "received_bytes (tcp_log (conns (io_threads demo_serving ! 0) ! 0)) = hello_request"
  by code_simp+

lemma every_client_is_answered_witness:
  "\<exists>n replies. read_replies n (sent_bytes (tcp_log (conns (io_threads demo_serving ! 0) ! 0))) = Some (replies, [])"
proof -
  have zero: "0 < length (io_threads demo_serving)" "0 < length (conns (io_threads demo_serving ! 0))"
    using demo_serving_facts(2,3) by simp_all
  from every_client_is_answered [OF valid_first_top demo_server_made
      demo_serving_run [of "handler_answers int_ops remdups sample_app", OF hello_answered] zero refl]
  show ?thesis using demo_serving_facts(1,4,5) by blast
qed

lemma serving_is_safe_witness:
  "Dropped 8 \<notin> set (fst (accept_clients [Accept_fd 8 True] (io_group demo_serving)))"
  using serving_is_safe [OF valid_first_top demo_server_made demo_serving_run [of "\<lambda>q a. a = (hello_reply, False)", OF refl]]
  by blast

text \<open>The same server when the client has just been accepted: its connection waits in the queue of the loop.\<close>

definition demo_accepted :: serving where
  "demo_accepted = the (run_steps (serving_step first_top True (\<lambda>q a. True)) (take 4 demo_serving_events) demo_serving_start)"

lemma demo_accepted_facts:
  "\<not> Option.is_none (run_steps (serving_step first_top True (\<lambda>q a. True)) (take 4 demo_serving_events) demo_serving_start)"
  "\<not> settled demo_accepted"
  by code_simp+

lemma server_settles_witness:
  "\<not> settled demo_accepted \<and>
   (\<exists>es t. run_steps (left_alone first_top True (\<lambda>q a. True)) es demo_accepted = Some t \<and> settled t)"
proof -
  have "run_steps (serving_step first_top True (\<lambda>q a. True)) (take 4 demo_serving_events)
      (serving_start demo_group (projr (WorkerPool 1)) [demo_io_loop] 0) = Some demo_accepted"
    using some_the [OF demo_accepted_facts(1)] unfolding demo_accepted_def demo_serving_start_def .
  from server_settles [OF valid_first_top demo_server_made this] demo_accepted_facts(2) show ?thesis by simp
qed

text \<open>The teardown of the served server: at once, and with a request that arrives in between.\<close>

definition demo_teardown :: teardown where
  "demo_teardown = the (begin_teardown demo_serving)"

definition demo_teardown_events :: "teardown_event list" where
  "demo_teardown_events =
    [Notify_workers, Go_on (Run_worker 0 [] False False), Join_workers]
    @ map (\<lambda>e. Go_on (Run_loop 0 e (at_time [] [] 9)))
        [Write_eventfd False, Poll 9 (Ready [(4, 1)]), Dispatch_next, Read_eventfd False, Swap, Next_task, Dispatch_next, Timers 9,
         Next_timer, Check]
    @ [Join_loop]"

definition demo_torn_down :: teardown where
  "demo_torn_down = the (run_steps (teardown_step [0] first_top True (\<lambda>q a. True)) demo_teardown_events demo_teardown)"

lemma demo_teardown_facts:
  "\<not> Option.is_none (begin_teardown demo_serving)"
  "\<not> Option.is_none (run_steps (teardown_step [0] first_top True (\<lambda>q a. True)) demo_teardown_events demo_teardown)"
  "phase demo_torn_down = Joining []" "list_all (\<lambda>l. \<not> raised l \<and> between_requests l) (io_threads demo_serving)"
  by code_simp+

lemma demo_teardown_made:
  "begin_teardown demo_serving = Some demo_teardown" "set [0] = {..<length (io_threads demo_serving)}"
  "\<forall>l \<in> set (io_threads demo_serving). \<not> raised l \<and> between_requests l"
  using some_the [OF demo_teardown_facts(1)] demo_teardown_facts(4) demo_serving_facts(2)
  by (auto simp: demo_teardown_def list_all_iff)

lemma teardown_ends_witness:
  "joined (crew (remains demo_torn_down)) \<and>
   mset (map fst (ended_tasks (crew (remains demo_torn_down)))) = mset (submitted_tasks (crew demo_serving))"
proof -
  have run: "run_steps (teardown_step [0] first_top True (\<lambda>q a. True)) demo_teardown_events demo_teardown = Some demo_torn_down"
    using some_the [OF demo_teardown_facts(2)] unfolding demo_torn_down_def .
  have alive: "\<forall>l \<in> set (io_threads demo_serving). \<not> raised l" using demo_teardown_made(3) by blast
  from teardown_ends [OF valid_first_top demo_server_made demo_serving_run [of "\<lambda>q a. True", OF TrueI] alive demo_teardown_made(2,1) run]
    demo_teardown_facts(3) show ?thesis by blast
qed

lemma idle_teardown_completes_witness:
  "\<exists>fs t. run_steps (ending [0] first_top True (\<lambda>q a. True)) fs demo_teardown = Some t \<and> phase t = Joining []"
proof -
  have "run_steps (ending [0] first_top True (\<lambda>q a. True)) [] demo_teardown = Some demo_teardown" by simp
  from idle_teardown_completes [OF valid_first_top demo_server_made demo_serving_run [of "\<lambda>q a. True", OF TrueI]
      demo_teardown_made(3,2,1) _ this] show ?thesis by blast
qed

text \<open>While the pool stops, the client sends another request: the loop submits it and the process ends.\<close>

lemma request_aborts_teardown:
  "map_option phase (run_steps (teardown_step [0] first_top True (\<lambda>q a. True))
     [Go_on (Run_loop 0 (Poll 9 (Ready [(7, 1)])) (at_time [] [] 9)),
      Go_on (Run_loop 0 Dispatch_next (at_time [Recv_data hello_request] [] 9))] demo_teardown) = Some Aborted"
  by code_simp

end
